(* ===== verification/Prelude.thy ===== *)
theory Prelude
  imports Main "HOL-Library.Word" "HOL-Library.Sublist"
begin

section \<open>Prelude: errors, programs and generic lemmas\<close>

text \<open>
  What every component shares: Go byte strings, Go errors (their text and the chain that
  \<open>errors.Is\<close> walks), and effectful programs. A program is a function from a state to an
  optional pair of an outcome and a new state; \<^term>\<open>None\<close> means that the Go code does not
  return. The combinators below are monotone, so recursive Go methods can be written with
  \<^theory_text>\<open>partial_function (option)\<close> in the shape the source has.
\<close>

named_theorems prog_simps \<open>unfolding rules of the program combinators\<close>
named_theorems canon_simps \<open>rewriting of path operations on canonical paths\<close>

subsection \<open>Byte strings and errors\<close>

text \<open>A Go string and a Go byte slice are both sequences of bytes; an Isabelle character is a byte.\<close>

type_synonym bytes = string

text \<open>The error values the sources compare by identity (\<open>==\<close> or \<open>errors.Is\<close>).\<close>

datatype sentinel = ErrNotExist | RedisNil | RedisErrClosed | ErrNotObtained | ErrLockNotHeld
  | ErrDecryptionFailure | ContextErr

text \<open>An error is its text and the identities found when unwrapping it.\<close>

record go_error =
  err_msg :: string
  err_chain :: "sentinel list"

definition errors_New :: "string \<Rightarrow> go_error" where
  "errors_New m = \<lparr>err_msg = m, err_chain = []\<rparr>"

definition errors_Is :: "go_error \<Rightarrow> sentinel \<Rightarrow> bool" where
  "errors_Is e t = (t \<in> set (err_chain e))"

text \<open>\<open>fmt.Errorf\<close> with \<open>%v\<close> keeps only the text of the wrapped error.\<close>

definition errorf_v :: "string \<Rightarrow> go_error \<Rightarrow> go_error" where
  "errorf_v pre e = \<lparr>err_msg = pre @ err_msg e, err_chain = []\<rparr>"

text \<open>\<open>fmt.Errorf\<close> with \<open>%w\<close> also keeps the chain.\<close>

definition errorf_w :: "string \<Rightarrow> go_error \<Rightarrow> string \<Rightarrow> go_error" where
  "errorf_w pre e post = \<lparr>err_msg = pre @ err_msg e @ post, err_chain = err_chain e\<rparr>"

lemma err_msg_simps [simp]:
  "err_msg (errors_New m) = m"
  "err_msg (errorf_v pre e) = pre @ err_msg e"
  "err_msg (errorf_w pre e post) = pre @ err_msg e @ post"
  by (simp_all add: errors_New_def errorf_v_def errorf_w_def)

lemma errors_Is_simps [simp]:
  "\<not> errors_Is (errors_New m) t"
  "\<not> errors_Is (errorf_v pre e) t"
  "errors_Is (errorf_w pre e post) t = errors_Is e t"
  by (simp_all add: errors_Is_def errors_New_def errorf_v_def errorf_w_def)

subsection \<open>Programs\<close>

text \<open>A call returns a value, returns an error, or panics.\<close>

datatype 'a outcome = Ok 'a | Err go_error | Panic

type_synonym ('s, 'a) prog = "'s \<Rightarrow> ('a outcome \<times> 's) option"

definition ret :: "'a \<Rightarrow> ('s, 'a) prog" where
  "ret x = (\<lambda>s. Some (Ok x, s))"

definition throw :: "go_error \<Rightarrow> ('s, 'a) prog" where
  "throw e = (\<lambda>s. Some (Err e, s))"

definition crash :: "('s, 'a) prog" where
  "crash = (\<lambda>s. Some (Panic, s))"

text \<open>\<open>bindP m f\<close>: run \<open>m\<close>; an error or panic of \<open>m\<close> is returned as it is.\<close>

definition bindP :: "('s, 'a) prog \<Rightarrow> ('a \<Rightarrow> ('s, 'b) prog) \<Rightarrow> ('s, 'b) prog" where
  "bindP m f = (\<lambda>s. case m s of None \<Rightarrow> None
     | Some (r, s') \<Rightarrow> (case r of Ok x \<Rightarrow> f x s' | Err e \<Rightarrow> Some (Err e, s') | Panic \<Rightarrow> Some (Panic, s')))"

text \<open>\<open>handleP m h\<close>: run \<open>m\<close>; an error goes to the handler (the Go \<open>if err != nil\<close> branch).\<close>

definition handleP :: "('s, 'a) prog \<Rightarrow> (go_error \<Rightarrow> ('s, 'a) prog) \<Rightarrow> ('s, 'a) prog" where
  "handleP m h = (\<lambda>s. case m s of None \<Rightarrow> None
     | Some (r, s') \<Rightarrow> (case r of Ok x \<Rightarrow> Some (Ok x, s') | Err e \<Rightarrow> h e s' | Panic \<Rightarrow> Some (Panic, s')))"

text \<open>\<open>wrapP g m\<close>: \<open>if err != nil { return fmt.Errorf(...) }\<close>.\<close>

definition wrapP :: "(go_error \<Rightarrow> go_error) \<Rightarrow> ('s, 'a) prog \<Rightarrow> ('s, 'a) prog" where
  "wrapP g m = handleP m (\<lambda>e. throw (g e))"

text \<open>A call into code outside the sources, which may change the state and may fail.\<close>

definition liftP :: "('s \<Rightarrow> (go_error + 'a) \<times> 's) \<Rightarrow> ('s, 'a) prog" where
  "liftP f = (\<lambda>s. case f s of (Inl e, s') \<Rightarrow> Some (Err e, s') | (Inr x, s') \<Rightarrow> Some (Ok x, s'))"

definition pureP :: "go_error + 'a \<Rightarrow> ('s, 'a) prog" where
  "pureP r = (\<lambda>s. case r of Inl e \<Rightarrow> Some (Err e, s) | Inr x \<Rightarrow> Some (Ok x, s))"

text \<open>\<open>finallyP m f\<close>: a deferred call, run whatever the outcome of \<open>m\<close>.\<close>

definition finallyP :: "('s, 'a) prog \<Rightarrow> ('s \<Rightarrow> 's) \<Rightarrow> ('s, 'a) prog" where
  "finallyP m f = (\<lambda>s. case m s of None \<Rightarrow> None | Some (r, s') \<Rightarrow> Some (r, f s'))"

definition updateP :: "('s \<Rightarrow> 's) \<Rightarrow> ('s, unit) prog" where
  "updateP f = (\<lambda>s. Some (Ok (), f s))"

lemma updateP_simp [simp, prog_simps]: "updateP f s = Some (Ok (), f s)"
  by (simp add: updateP_def)

lemma finallyP_simps [prog_simps]:
  "m s = Some (r, s') \<Longrightarrow> finallyP m f s = Some (r, f s')"
  "m s = None \<Longrightarrow> finallyP m f s = None"
  by (simp_all add: finallyP_def)

lemma prog_basic [simp, prog_simps]:
  "ret x s = Some (Ok x, s)"
  "throw e s = Some (Err e, s)"
  "crash s = Some (Panic, s)"
  "pureP (Inl e) s = Some (Err e, s)"
  "pureP (Inr x) s = Some (Ok x, s)"
  by (simp_all add: ret_def throw_def crash_def pureP_def)

lemma bindP_simps [prog_simps]:
  "m s = Some (Ok x, s') \<Longrightarrow> bindP m f s = f x s'"
  "m s = Some (Err e, s') \<Longrightarrow> bindP m f s = Some (Err e, s')"
  "m s = Some (Panic, s') \<Longrightarrow> bindP m f s = Some (Panic, s')"
  "m s = None \<Longrightarrow> bindP m f s = None"
  by (simp_all add: bindP_def)

lemma handleP_simps [prog_simps]:
  "m s = Some (Ok x, s') \<Longrightarrow> handleP m h s = Some (Ok x, s')"
  "m s = Some (Err e, s') \<Longrightarrow> handleP m h s = h e s'"
  "m s = Some (Panic, s') \<Longrightarrow> handleP m h s = Some (Panic, s')"
  "m s = None \<Longrightarrow> handleP m h s = None"
  by (simp_all add: handleP_def)

lemma wrapP_simps [prog_simps]:
  "m s = Some (Ok x, s') \<Longrightarrow> wrapP g m s = Some (Ok x, s')"
  "m s = Some (Err e, s') \<Longrightarrow> wrapP g m s = Some (Err (g e), s')"
  "m s = Some (Panic, s') \<Longrightarrow> wrapP g m s = Some (Panic, s')"
  "m s = None \<Longrightarrow> wrapP g m s = None"
  by (simp_all add: wrapP_def prog_simps)

lemma liftP_simps [prog_simps]:
  "f s = (Inl e, s') \<Longrightarrow> liftP f s = Some (Err e, s')"
  "f s = (Inr x, s') \<Longrightarrow> liftP f s = Some (Ok x, s')"
  by (simp_all add: liftP_def)

lemma bindP_ret [simp]: "bindP (ret x) f = f x"
  by (rule ext) (simp add: bindP_def)

lemma bindP_throw [simp]: "bindP (throw e) f = throw e"
  by (rule ext) (simp add: bindP_def)

text \<open>Monotonicity, so that the combinators may surround recursive calls.\<close>

lemma bindP_mono [partial_function_mono]:
  fixes B :: "('x \<Rightarrow> 'y option) \<Rightarrow> ('s, 'a) prog"
    and C :: "('x \<Rightarrow> 'y option) \<Rightarrow> 'a \<Rightarrow> ('s, 'b) prog"
  assumes "\<And>s. mono_option (\<lambda>F. B F s)" and "\<And>x s. mono_option (\<lambda>F. C F x s)"
  shows "mono_option (\<lambda>F. bindP (B F) (C F) s)"
proof (rule monotoneI)
  fix F G :: "'x \<Rightarrow> 'y option"
  assume le: "option.le_fun F G"
  have B: "option_ord (B F s) (B G s)" using assms(1) le by (auto dest: monotoneD)
  have C: "option_ord (C F x s') (C G x s')" for x s' using assms(2) le by (auto dest: monotoneD)
  show "option_ord (bindP (B F) (C F) s) (bindP (B G) (C G) s)"
  proof (cases "B F s")
    case None
    then show ?thesis by (simp add: bindP_def flat_ord_def)
  next
    case (Some p)
    with B have "B G s = Some p" by (simp add: flat_ord_def)
    with Some C show ?thesis by (cases p) (auto simp: bindP_def flat_ord_def split: outcome.split)
  qed
qed

lemma handleP_mono [partial_function_mono]:
  fixes B :: "('x \<Rightarrow> 'y option) \<Rightarrow> ('s, 'a) prog"
    and H :: "('x \<Rightarrow> 'y option) \<Rightarrow> go_error \<Rightarrow> ('s, 'a) prog"
  assumes "\<And>s. mono_option (\<lambda>F. B F s)" and "\<And>e s. mono_option (\<lambda>F. H F e s)"
  shows "mono_option (\<lambda>F. handleP (B F) (H F) s)"
proof (rule monotoneI)
  fix F G :: "'x \<Rightarrow> 'y option"
  assume le: "option.le_fun F G"
  have B: "option_ord (B F s) (B G s)" using assms(1) le by (auto dest: monotoneD)
  have H: "option_ord (H F e s') (H G e s')" for e s' using assms(2) le by (auto dest: monotoneD)
  show "option_ord (handleP (B F) (H F) s) (handleP (B G) (H G) s)"
  proof (cases "B F s")
    case None
    then show ?thesis by (simp add: handleP_def flat_ord_def)
  next
    case (Some p)
    with B have "B G s = Some p" by (simp add: flat_ord_def)
    with Some H show ?thesis by (cases p) (auto simp: handleP_def flat_ord_def split: outcome.split)
  qed
qed

lemma wrapP_mono [partial_function_mono]:
  assumes "\<And>s. mono_option (\<lambda>F. B F s)"
  shows "mono_option (\<lambda>F. wrapP g (B F) s)"
  unfolding wrapP_def by (rule handleP_mono [OF assms]) (simp add: monotoneI flat_ord_def)

subsection \<open>Generic lemmas\<close>

lemma takeWhile_append_stop [simp]:
  "\<forall>x \<in> set xs. P x \<Longrightarrow> \<not> P y \<Longrightarrow> takeWhile P (xs @ y # ys) = xs"
  by (induction xs) auto

lemma dropWhile_append_stop [simp]:
  "\<forall>x \<in> set xs. P x \<Longrightarrow> \<not> P y \<Longrightarrow> dropWhile P (xs @ y # ys) = y # ys"
  by (induction xs) auto

lemma dropWhile_all [simp]: "\<forall>x \<in> set xs. P x \<Longrightarrow> dropWhile P xs = []"
  by (induction xs) auto

lemma takeWhile_all [simp]: "\<forall>x \<in> set xs. P x \<Longrightarrow> takeWhile P xs = xs"
  by (induction xs) auto

end
