(* ===== verification/Go_Strings.thy ===== *)
theory Go_Strings
  imports Prelude
begin

section \<open>Go string functions\<close>

text \<open>
  The parts of the Go packages \<open>strings\<close>, \<open>strconv\<close> and \<open>net\<close> that the sources call,
  on byte strings, with the lemmas the components use about them.
\<close>

subsection \<open>Package strings\<close>

definition HasPrefix :: "string \<Rightarrow> string \<Rightarrow> bool" where
  "HasPrefix s p = (take (length p) s = p)"

definition HasSuffix :: "string \<Rightarrow> string \<Rightarrow> bool" where
  "HasSuffix s p = (length p \<le> length s \<and> drop (length s - length p) s = p)"

definition TrimPrefix :: "string \<Rightarrow> string \<Rightarrow> string" where
  "TrimPrefix s p = (if HasPrefix s p then drop (length p) s else s)"

definition TrimSuffix :: "string \<Rightarrow> string \<Rightarrow> string" where
  "TrimSuffix s p = (if HasSuffix s p then take (length s - length p) s else s)"

fun Contains :: "string \<Rightarrow> string \<Rightarrow> bool" where
  "Contains [] p = (p = [])"
| "Contains (c # s) p = (HasPrefix (c # s) p \<or> Contains s p)"

lemma HasPrefix_append [simp]: "HasPrefix (p @ s) p"
  by (simp add: HasPrefix_def)

lemma HasPrefix_iff: "HasPrefix s p \<longleftrightarrow> (\<exists>t. s = p @ t)"
proof
  assume "HasPrefix s p"
  then have "s = p @ drop (length p) s" by (metis HasPrefix_def append_take_drop_id)
  then show "\<exists>t. s = p @ t" ..
qed (auto simp: HasPrefix_def)

lemma HasPrefix_extend: "HasPrefix s p \<Longrightarrow> HasPrefix (s @ t) p"
  by (auto simp: HasPrefix_iff)

lemma Contains_HasPrefix: "HasPrefix s p \<Longrightarrow> Contains s p"
  by (cases s) (auto simp: HasPrefix_def)

lemma Contains_prepend: "Contains s p \<Longrightarrow> Contains (t @ s) p"
  by (induction t) auto

lemma Contains_append: "Contains s p \<Longrightarrow> Contains (s @ t) p"
proof (induction s)
  case Nil
  then show ?case by (cases t) (auto simp: HasPrefix_def)
next
  case (Cons c s)
  then show ?case using HasPrefix_extend [of "c # s" p t] by auto
qed

lemma TrimPrefix_append [simp]: "TrimPrefix (p @ s) p = s"
  by (simp add: TrimPrefix_def)

lemma TrimSuffix_append [simp]: "TrimSuffix (s @ p) p = s"
  by (simp add: TrimSuffix_def HasSuffix_def)

lemma TrimSuffix_id: "\<not> HasSuffix s p \<Longrightarrow> TrimSuffix s p = s"
  by (simp add: TrimSuffix_def)

lemma HasSuffix_char: "HasSuffix s [c] \<longleftrightarrow> s \<noteq> [] \<and> last s = c"
  by (cases s rule: rev_cases) (auto simp: HasSuffix_def)

text \<open>\<open>strings.Split\<close> with a one-byte separator, and \<open>strings.Join\<close>.\<close>

fun Split :: "char \<Rightarrow> string \<Rightarrow> string list" where
  "Split c [] = [[]]"
| "Split c (x # xs) =
     (if x = c then [] # Split c xs
      else (case Split c xs of [] \<Rightarrow> [[x]] | y # ys \<Rightarrow> (x # y) # ys))"

fun Join_with :: "string \<Rightarrow> string list \<Rightarrow> string" where
  "Join_with sep [] = []"
| "Join_with sep [x] = x"
| "Join_with sep (x # y # ys) = x @ sep @ Join_with sep (y # ys)"

lemma Split_nonempty [simp]: "Split c s \<noteq> []"
  by (cases s) (auto split: list.split)

lemma Split_no_sep: "c \<notin> set s \<Longrightarrow> Split c s = [s]"
  by (induction s) auto

lemma Split_append_sep: "c \<notin> set s \<Longrightarrow> Split c (s @ c # t) = s # Split c t"
  by (induction s) auto

lemma Split_Join:
  "ps \<noteq> [] \<Longrightarrow> \<forall>p \<in> set ps. c \<notin> set p \<Longrightarrow> Split c (Join_with [c] ps) = ps"
  by (induction "[c]" ps rule: Join_with.induct) (auto simp: Split_no_sep Split_append_sep)

lemma Join_Split: "Join_with [c] (Split c s) = s"
proof (induction s)
  case Nil
  then show ?case by simp
next
  case (Cons x xs)
  obtain y ys where y: "Split c xs = y # ys" by (cases "Split c xs") auto
  with Cons show ?case by (cases ys) auto
qed

lemma Split_cover: "x \<in> set s \<Longrightarrow> x \<noteq> c \<Longrightarrow> \<exists>p \<in> set (Split c s). x \<in> set p"
  by (induction s) (auto split: list.splits)

lemma Split_pieces: "p \<in> set (Split c s) \<Longrightarrow> c \<notin> set p"
proof (induction s arbitrary: p)
  case Nil
  then show ?case by simp
next
  case (Cons x xs)
  obtain y ys where "Split c xs = y # ys" by (cases "Split c xs") auto
  with Cons show ?case by (auto split: if_splits)
qed

lemma Join_with_snoc: "ps \<noteq> [] \<Longrightarrow> Join_with sep (ps @ [b]) = Join_with sep ps @ sep @ b"
  by (induction sep ps rule: Join_with.induct) auto

lemma Join_with_append:
  "ps \<noteq> [] \<Longrightarrow> qs \<noteq> [] \<Longrightarrow> Join_with sep (ps @ qs) = Join_with sep ps @ sep @ Join_with sep qs"
proof (induction sep ps rule: Join_with.induct)
  case (2 sep x)
  then show ?case by (cases qs) auto
qed auto

lemma Join_with_length: "x \<in> set ps \<Longrightarrow> length x \<le> length (Join_with sep ps)"
  by (induction sep ps rule: Join_with.induct) auto

lemma Join_with_length_ge: "\<forall>x \<in> set ps. x \<noteq> [] \<Longrightarrow> length ps \<le> length (Join_with sep ps)"
proof (induction sep ps rule: Join_with.induct)
  case (2 sep x)
  then show ?case by (cases x) auto
next
  case (3 sep x y ys)
  then have "1 \<le> length x" and "length (y # ys) \<le> length (Join_with sep (y # ys))"
    by (simp_all add: Suc_le_eq)
  then have "length (y # ys) + 1 \<le> length (Join_with sep (y # ys)) + length x" by linarith
  then show ?case by simp
qed simp

text \<open>
  \<open>strings.Trim\<close> with a one-byte cutset, and \<open>strings.TrimSpace\<close>. The white space of
  Unicode is a finite set of UTF-8 encodings; a decoder meets one of them at an end of the
  string exactly when its bytes are there.
\<close>

definition Trim :: "string \<Rightarrow> char \<Rightarrow> string" where
  "Trim s c = rev (dropWhile (\<lambda>x. x = c) (rev (dropWhile (\<lambda>x. x = c) s)))"

definition white_spaces :: "string list" where
  "white_spaces =
     map (\<lambda>b. [char_of (b::nat)]) [9, 10, 11, 12, 13, 32] @
     map (map char_of) [[194::nat, 133], [194, 160], [225, 154, 128],
       [226, 128, 128], [226, 128, 129], [226, 128, 130], [226, 128, 131], [226, 128, 132],
       [226, 128, 133], [226, 128, 134], [226, 128, 135], [226, 128, 136], [226, 128, 137],
       [226, 128, 138], [226, 128, 168], [226, 128, 169], [226, 128, 175], [226, 129, 159],
       [227, 128, 128]]"

text \<open>Remove, as long as there is one, a leading element of a list of non-empty byte strings.\<close>

definition match_front :: "string list \<Rightarrow> string \<Rightarrow> string option" where
  "match_front ws s = find (\<lambda>w. w \<noteq> [] \<and> HasPrefix s w) ws"

lemma match_front_Some: "match_front ws s = Some w \<Longrightarrow> w \<noteq> [] \<and> HasPrefix s w"
  unfolding match_front_def by (drule find_Some_iff [THEN iffD1]) auto

function trim_front :: "string list \<Rightarrow> string \<Rightarrow> string" where
  "trim_front ws s = (case match_front ws s of None \<Rightarrow> s | Some w \<Rightarrow> trim_front ws (drop (length w) s))"
  by pat_completeness auto
termination
proof (relation "measure (\<lambda>(ws, s). length s)")
  fix ws s w
  assume "match_front ws s = Some w"
  then have "w \<noteq> []" and "HasPrefix s w" by (auto dest: match_front_Some)
  then show "((ws, drop (length w) s), (ws, s)) \<in> measure (\<lambda>(ws, s). length s)"
    by (cases s) (auto simp: HasPrefix_def)
qed simp

declare trim_front.simps [simp del]

definition TrimSpace :: "string \<Rightarrow> string" where
  "TrimSpace s = rev (trim_front (map rev white_spaces) (rev (trim_front white_spaces s)))"

lemma trim_front_Nil [simp]: "trim_front ws [] = []"
proof -
  have "match_front ws [] = None"
    using match_front_Some [of ws "[]"] by (cases "match_front ws []") (auto simp: HasPrefix_def)
  then show ?thesis by (subst trim_front.simps) simp
qed

lemma TrimSpace_Nil [simp]: "TrimSpace [] = []"
  by (simp add: TrimSpace_def)

lemma trim_front_id:
  assumes "s \<noteq> []" and "hd s \<notin> hd ` set ws"
  shows "trim_front ws s = s"
proof -
  have "hd w = hd s" if "w \<noteq> []" "HasPrefix s w" for w
    using that assms(1) by (cases w; cases s) (auto simp: HasPrefix_def)
  then have "\<not> (w \<noteq> [] \<and> HasPrefix s w)" if "w \<in> set ws" for w
    using that assms(2) by (metis image_eqI)
  then have "match_front ws s = None" by (auto simp: match_front_def find_None_iff)
  then show ?thesis by (subst trim_front.simps) simp
qed

lemma TrimSpace_id:
  assumes "s \<noteq> []" and "hd s \<notin> hd ` set white_spaces" and "last s \<notin> (\<lambda>w. hd (rev w)) ` set white_spaces"
  shows "TrimSpace s = s"
  using trim_front_id [OF assms(1,2)] trim_front_id [of "rev s" "map rev white_spaces"] assms
  by (simp add: TrimSpace_def hd_rev image_image)

lemma graphic_no_space:
  assumes "33 \<le> (of_char c :: nat)" and "of_char c \<le> (126 :: nat)"
  shows "c \<notin> hd ` set white_spaces" and "c \<notin> (\<lambda>w. hd (rev w)) ` set white_spaces"
  using assms by (auto simp: white_spaces_def)

lemma Trim_ends:
  "Trim s c = [] \<or> (hd (Trim s c) \<noteq> c \<and> last (Trim s c) \<noteq> c)"
proof -
  define u where "u = dropWhile (\<lambda>x. x = c) s"
  define v where "v = dropWhile (\<lambda>x. x = c) (rev u)"
  have v: "v = [] \<or> hd v \<noteq> c" unfolding v_def using hd_dropWhile [of "\<lambda>x. x = c" "rev u"] by blast
  have u: "u = [] \<or> hd u \<noteq> c" unfolding u_def using hd_dropWhile [of "\<lambda>x. x = c" s] by blast
  obtain w where "rev u = w @ v" unfolding v_def by (metis takeWhile_dropWhile_id)
  then have "u = rev v @ rev w" by (metis rev_append rev_rev_ident)
  with u have "v = [] \<or> hd (rev v) \<noteq> c" by (cases "rev v") auto
  moreover have "Trim s c = rev v" by (simp only: Trim_def u_def v_def)
  ultimately show ?thesis using v by (auto simp: last_rev)
qed

subsection \<open>Package strconv\<close>

text \<open>A byte as a number, and a byte range test \<open>lo <= c && c <= hi\<close>.\<close>

definition byte :: "char \<Rightarrow> nat" where
  "byte c = of_char c"

definition in_range :: "char \<Rightarrow> char \<Rightarrow> char \<Rightarrow> bool" where
  "in_range lo hi c = (byte lo \<le> byte c \<and> byte c \<le> byte hi)"

definition is_digit :: "char \<Rightarrow> bool" where
  "is_digit c = in_range CHR ''0'' CHR ''9'' c"

definition digit_val :: "char \<Rightarrow> nat" where
  "digit_val c = byte c - byte CHR ''0''"

definition digit_char :: "nat \<Rightarrow> char" where
  "digit_char d = char_of (48 + d)"

definition decimal_val :: "string \<Rightarrow> nat" where
  "decimal_val = foldl (\<lambda>n c. 10 * n + digit_val c) 0"

text \<open>
  \<open>strconv.Atoi\<close> on a 64-bit platform: an optional sign, at least one digit, and a value
  that fits \<open>int\<close>; everything else is an error (\<^term>\<open>None\<close>).
\<close>

definition int_max :: int where "int_max = 2 ^ 63 - 1"
definition int_min :: int where "int_min = - (2 ^ 63)"

definition Atoi :: "string \<Rightarrow> int option" where
  "Atoi s =
     (let neg = HasPrefix s ''-'';
          ds = (if neg \<or> HasPrefix s ''+'' then drop 1 s else s);
          v = (if neg then - int (decimal_val ds) else int (decimal_val ds))
      in if ds = [] \<or> \<not> list_all is_digit ds then None
         else if v < int_min \<or> int_max < v then None else Some v)"

text \<open>
  The value \<open>strconv.Atoi\<close> returns next to its error, for the callers that ignore the error:
  zero for a malformed number, the nearest \<open>int\<close> for one out of range.
\<close>

definition Atoi_val :: "string \<Rightarrow> int" where
  "Atoi_val s =
     (let neg = HasPrefix s ''-''; ds = (if neg \<or> HasPrefix s ''+'' then drop 1 s else s)
      in case Atoi s of Some v \<Rightarrow> v
         | None \<Rightarrow> if ds = [] \<or> \<not> list_all is_digit ds then 0 else if neg then int_min else int_max)"

fun digits_of :: "nat \<Rightarrow> string" where
  "digits_of n = (if n < 10 then [digit_char n] else digits_of (n div 10) @ [digit_char (n mod 10)])"

declare digits_of.simps [simp del]

definition Itoa :: "int \<Rightarrow> string" where
  "Itoa v = (if v < 0 then CHR ''-'' # digits_of (nat (- v)) else digits_of (nat v))"

lemma byte_digit_char: "d < 10 \<Longrightarrow> byte (digit_char d) = 48 + d"
  by (simp add: byte_def digit_char_def)

lemma is_digit_digit_char: "d < 10 \<Longrightarrow> is_digit (digit_char d)"
  by (simp add: is_digit_def in_range_def byte_digit_char) (simp add: byte_def)

lemma digit_val_digit_char: "d < 10 \<Longrightarrow> digit_val (digit_char d) = d"
  by (simp add: digit_val_def byte_digit_char) (simp add: byte_def)

lemma digits_of_nonempty [simp]: "digits_of n \<noteq> []"
  by (subst digits_of.simps) simp

lemma digits_of_digits: "list_all is_digit (digits_of n)"
proof (induction n rule: digits_of.induct)
  case (1 n)
  then show ?case
    by (subst digits_of.simps) (simp add: is_digit_digit_char)
qed

lemma decimal_val_snoc: "decimal_val (ds @ [c]) = 10 * decimal_val ds + digit_val c"
  by (simp add: decimal_val_def)

lemma decimal_val_digits_of: "decimal_val (digits_of n) = n"
proof (induction n rule: digits_of.induct)
  case step: (1 n)
  consider (digit) "n < 10" | (more) "10 \<le> n" by linarith
  then show ?case
  proof cases
    case digit
    then show ?thesis by (simp add: digits_of.simps [of n] decimal_val_def digit_val_digit_char)
  next
    case more
    with step show ?thesis
      by (simp add: digits_of.simps [of n] decimal_val_snoc digit_val_digit_char)
  qed
qed

lemma digits_of_no_sign: "\<not> HasPrefix (digits_of n) ''-''" "\<not> HasPrefix (digits_of n) ''+''"
proof -
  obtain c cs where c: "digits_of n = c # cs" by (cases "digits_of n") auto
  with digits_of_digits [of n] have "is_digit c" by simp
  with c show "\<not> HasPrefix (digits_of n) ''-''" "\<not> HasPrefix (digits_of n) ''+''"
    by (auto simp: HasPrefix_def is_digit_def in_range_def byte_def)
qed

text \<open>Reading back what \<open>strconv.Itoa\<close> printed.\<close>

lemma Atoi_Itoa:
  assumes "int_min \<le> v" and "v \<le> int_max"
  shows "Atoi (Itoa v) = Some v"
proof (cases "v < 0")
  case True
  with assms show ?thesis
    by (simp add: Atoi_def Itoa_def HasPrefix_def digits_of_digits decimal_val_digits_of)
next
  case False
  with assms show ?thesis
    by (simp add: Atoi_def Itoa_def digits_of_no_sign digits_of_digits decimal_val_digits_of)
qed

lemma Atoi_range: "Atoi s = Some v \<Longrightarrow> int_min \<le> v \<and> v \<le> int_max"
  by (auto simp: Atoi_def Let_def split: if_splits)

text \<open>\<open>strconv.ParseBool\<close>.\<close>

definition ParseBool :: "string \<Rightarrow> bool option" where
  "ParseBool s =
     (if s \<in> set [''1'', ''t'', ''T'', ''true'', ''TRUE'', ''True''] then Some True
      else if s \<in> set [''0'', ''f'', ''F'', ''false'', ''FALSE'', ''False''] then Some False
      else None)"

subsection \<open>Package net\<close>

text \<open>
  \<open>net.SplitHostPort\<close>: the port follows the last colon; a bracketed host ends just before it;
  an unbracketed host has no colon; there is no other bracket.
\<close>

definition before_last :: "char \<Rightarrow> string \<Rightarrow> string" where
  "before_last c s = rev (drop 1 (dropWhile (\<lambda>x. x \<noteq> c) (rev s)))"

definition after_last :: "char \<Rightarrow> string \<Rightarrow> string" where
  "after_last c s = rev (takeWhile (\<lambda>x. x \<noteq> c) (rev s))"

definition SplitHostPort :: "string \<Rightarrow> (string \<times> string) option" where
  "SplitHostPort hostport =
     (if CHR '':'' \<notin> set hostport then None
      else
        let front = before_last CHR '':'' hostport; port = after_last CHR '':'' hostport
        in if HasPrefix hostport ''[''
           then (let host = takeWhile (\<lambda>x. x \<noteq> CHR '']'') (drop 1 hostport)
                 in if front = ''['' @ host @ '']''
                       \<and> CHR ''['' \<notin> set host \<and> CHR ''['' \<notin> set port \<and> CHR '']'' \<notin> set port
                    then Some (host, port) else None)
           else if CHR '':'' \<in> set front then None
           else if CHR ''['' \<in> set hostport \<or> CHR '']'' \<in> set hostport then None
           else Some (front, port))"

definition JoinHostPort :: "string \<Rightarrow> string \<Rightarrow> string" where
  "JoinHostPort host port =
     (if CHR '':'' \<in> set host then ''['' @ host @ '']:'' @ port else host @ '':'' @ port)"

lemma split_last:
  assumes "c \<notin> set t"
  shows "before_last c (s @ c # t) = s" and "after_last c (s @ c # t) = t"
proof -
  have "\<forall>x \<in> set (rev t). x \<noteq> c" using assms by auto
  then show "before_last c (s @ c # t) = s" and "after_last c (s @ c # t) = t"
    by (simp_all add: before_last_def after_last_def)
qed

lemma after_last_no: "c \<notin> set (after_last c s)"
  by (auto simp: after_last_def dest: set_takeWhileD)

lemma last_decomp: "c \<in> set s \<Longrightarrow> s = before_last c s @ c # after_last c s"
  by (metis in_set_conv_decomp_last split_last)

lemma hd_bracket: "HasPrefix s ''['' \<longleftrightarrow> (\<exists>t. s = CHR ''['' # t)"
  by (cases s) (auto simp: HasPrefix_def)

lemma SplitHostPort_Some:
  assumes "SplitHostPort v = Some (h, p)"
  shows "CHR '':'' \<notin> set p \<and> CHR ''['' \<notin> set h \<and> CHR '']'' \<notin> set h
       \<and> CHR ''['' \<notin> set p \<and> CHR '']'' \<notin> set p"
proof -
  have colon: "CHR '':'' \<in> set v" using assms by (auto simp: SplitHostPort_def split: if_splits)
  have sub: "set (before_last CHR '':'' v) \<subseteq> set v" "set (after_last CHR '':'' v) \<subseteq> set v"
    by (auto simp: before_last_def after_last_def dest!: set_takeWhileD in_set_dropD set_dropWhileD)
  show ?thesis
    using assms sub after_last_no [of "CHR '':''" v]
    by (auto simp: SplitHostPort_def Let_def split: if_splits dest: set_takeWhileD)
qed

text \<open>An address split and joined again splits in the same way.\<close>

lemma Split_Join_HostPort:
  assumes "SplitHostPort v = Some (h, p)"
  shows "SplitHostPort (JoinHostPort h p) = Some (h, p)"
proof -
  note no = SplitHostPort_Some [OF assms]
  show ?thesis
  proof (cases "CHR '':'' \<in> set h")
    case True
    let ?s = "(CHR ''['' # h @ '']'') @ CHR '':'' # p"
    have s: "JoinHostPort h p = ?s" using True by (simp add: JoinHostPort_def)
    have "takeWhile (\<lambda>x. x \<noteq> CHR '']'') (h @ CHR '']'' # CHR '':'' # p) = h"
      using no by (intro takeWhile_append_stop) auto
    with no show ?thesis unfolding s
      by (simp add: SplitHostPort_def hd_bracket split_last del: append_Cons append_assoc)
         (simp add: HasPrefix_def)
  next
    case False
    have s: "JoinHostPort h p = h @ CHR '':'' # p" using False by (simp add: JoinHostPort_def)
    have "\<not> HasPrefix (h @ CHR '':'' # p) ''[''"
      using no by (cases h) (auto simp: HasPrefix_def)
    with no False show ?thesis unfolding s by (simp add: SplitHostPort_def split_last)
  qed
qed

end
