(* ===== verification/Go_Path.thy ===== *)
theory Go_Path
  imports Go_Strings
begin

section \<open>Go slash-separated paths\<close>

text \<open>
  Package \<open>path\<close>: \<open>Clean\<close>, \<open>Join\<close>, \<open>Dir\<close> and \<open>Base\<close>, and how they act on
  \<^emph>\<open>canonical\<close> paths, the lists of proper segments that all keys of the index are made of.
\<close>

subsection \<open>Clean, Join, Split, Dir, Base\<close>

text \<open>
  \<open>path.Clean\<close> keeps a stack of segments, in reverse: empty and \<open>.\<close> segments are dropped,
  \<open>..\<close> removes the segment before it, stays where there is none, and is dropped at the root.
\<close>

fun clean_segs :: "bool \<Rightarrow> string list \<Rightarrow> string list \<Rightarrow> string list" where
  "clean_segs rooted st [] = st"
| "clean_segs rooted st (s # ss) =
     (if s = [] \<or> s = ''.'' then clean_segs rooted st ss
      else if s = ''..'' then
        (case st of
           [] \<Rightarrow> clean_segs rooted (if rooted then [] else [''..'']) ss
         | t # ts \<Rightarrow> if t = ''..'' then clean_segs rooted (''..'' # st) ss else clean_segs rooted ts ss)
      else clean_segs rooted (s # st) ss)"

abbreviation pjoin :: "string list \<Rightarrow> string" where
  "pjoin ps \<equiv> Join_with ''/'' ps"

definition path_Clean :: "string \<Rightarrow> string" where
  "path_Clean p =
     (if p = [] then ''.''
      else let rooted = HasPrefix p ''/''; out = rev (clean_segs rooted [] (Split CHR ''/'' p))
           in if rooted then ''/'' @ pjoin out else if out = [] then ''.'' else pjoin out)"

text \<open>\<open>path.Join\<close> puts slashes between its elements from the first non-empty one on.\<close>

definition path_Join :: "string list \<Rightarrow> string" where
  "path_Join elems =
     (let es = dropWhile (\<lambda>e. e = []) elems in if es = [] then [] else path_Clean (pjoin es))"

definition path_Split :: "string \<Rightarrow> string \<times> string" where
  "path_Split p =
     (rev (dropWhile (\<lambda>c. c \<noteq> CHR ''/'') (rev p)), rev (takeWhile (\<lambda>c. c \<noteq> CHR ''/'') (rev p)))"

definition path_Dir :: "string \<Rightarrow> string" where
  "path_Dir p = path_Clean (fst (path_Split p))"

definition path_Base :: "string \<Rightarrow> string" where
  "path_Base p =
     (if p = [] then ''.''
      else let q = rev (dropWhile (\<lambda>c. c = CHR ''/'') (rev p)); b = snd (path_Split q)
           in if b = [] then ''/'' else b)"

subsection \<open>Canonical paths\<close>

definition seg_ok :: "string \<Rightarrow> bool" where
  "seg_ok s = (s \<noteq> [] \<and> CHR ''/'' \<notin> set s \<and> s \<noteq> ''.'' \<and> s \<noteq> ''..'')"

definition canon :: "string list \<Rightarrow> bool" where
  "canon ps = list_all seg_ok ps"

lemma canon_simps_list [simp]:
  "canon []"
  "canon (p # ps) \<longleftrightarrow> seg_ok p \<and> canon ps"
  "canon (ps @ qs) \<longleftrightarrow> canon ps \<and> canon qs"
  by (simp_all add: canon_def)

lemma canon_butlast: "canon ps \<Longrightarrow> canon (butlast ps)"
  by (cases ps rule: rev_cases) auto

lemma canon_no_slash: "canon ps \<Longrightarrow> \<forall>p \<in> set ps. CHR ''/'' \<notin> set p"
  by (auto simp: canon_def list_all_iff seg_ok_def)

lemma canon_no_empty: "canon ps \<Longrightarrow> \<forall>p \<in> set ps. p \<noteq> []"
  by (auto simp: canon_def list_all_iff seg_ok_def)

lemma Split_pjoin [canon_simps]: "canon ps \<Longrightarrow> ps \<noteq> [] \<Longrightarrow> Split CHR ''/'' (pjoin ps) = ps"
  by (simp add: Split_Join canon_no_slash)

lemma pjoin_eq_Nil: "canon ps \<Longrightarrow> pjoin ps = [] \<longleftrightarrow> ps = []"
  by (cases ps rule: rev_cases) (auto simp: Join_with_snoc seg_ok_def, metis Join_with.simps(2) Join_with_snoc append_is_Nil_conv append_Nil)

lemma pjoin_inj:
  assumes "canon ps" and "canon qs" and "pjoin ps = pjoin qs"
  shows "ps = qs"
proof (cases "ps = [] \<or> qs = []")
  case True
  with assms show ?thesis by (metis Join_with.simps(1) pjoin_eq_Nil)
next
  case False
  with assms show ?thesis by (metis Split_pjoin)
qed

lemma pjoin_eq_iff [canon_simps]: "canon ps \<Longrightarrow> canon qs \<Longrightarrow> pjoin ps = pjoin qs \<longleftrightarrow> ps = qs"
  by (auto dest: pjoin_inj)

lemma pjoin_not_rooted: "canon ps \<Longrightarrow> \<not> HasPrefix (pjoin ps) ''/''"
proof (cases ps)
  case (Cons p qs)
  assume "canon ps"
  with Cons have p: "p \<noteq> []" "CHR ''/'' \<notin> set p" by (auto simp: seg_ok_def)
  obtain r where "pjoin ps = p @ r" using Cons by (cases qs) auto
  with p show ?thesis by (cases p) (auto simp: HasPrefix_def)
qed (simp add: HasPrefix_def)

lemma clean_segs_canon [canon_simps]: "canon ps \<Longrightarrow> clean_segs r st ps = rev ps @ st"
  by (induction ps arbitrary: st) (auto simp: seg_ok_def)

lemma clean_segs_append: "clean_segs r st (ps @ qs) = clean_segs r (clean_segs r st ps) qs"
  by (induction r st ps rule: clean_segs.induct) (auto split: list.split)

lemma path_Clean_canon [canon_simps]: "canon ps \<Longrightarrow> ps \<noteq> [] \<Longrightarrow> path_Clean (pjoin ps) = pjoin ps"
  by (simp add: path_Clean_def pjoin_eq_Nil pjoin_not_rooted canon_simps)

lemma path_Clean_canon_slash [canon_simps]:
  assumes "canon ps" and "ps \<noteq> []"
  shows "path_Clean (pjoin ps @ ''/'') = pjoin ps"
proof -
  have eq: "pjoin ps @ ''/'' = pjoin (ps @ [''''])" using assms by (simp add: Join_with_snoc)
  then have "pjoin (ps @ ['''']) \<noteq> []" by (metis append_is_Nil_conv list.distinct(1))
  moreover note eq
  moreover have "Split CHR ''/'' (pjoin (ps @ [''''])) = ps @ ['''']"
    using assms by (intro Split_Join) (auto dest: canon_no_slash)
  moreover have "\<not> HasPrefix (pjoin ps @ ''/'') ''/''"
    using pjoin_not_rooted [OF assms(1)] pjoin_eq_Nil [OF assms(1)] assms(2)
    by (cases "pjoin ps") (auto simp: HasPrefix_def)
  ultimately show ?thesis
    using assms by (simp add: path_Clean_def clean_segs_append canon_simps)
qed

lemma path_Split_snoc:
  "CHR ''/'' \<notin> set b \<Longrightarrow> path_Split (d @ ''/'' @ b) = (d @ ''/'', b)"
proof -
  assume "CHR ''/'' \<notin> set b"
  then have "\<forall>c \<in> set (rev b). c \<noteq> CHR ''/''" by auto
  then show ?thesis by (simp add: path_Split_def)
qed

lemma path_Split_seg: "CHR ''/'' \<notin> set b \<Longrightarrow> path_Split b = ([], b)"
proof -
  assume "CHR ''/'' \<notin> set b"
  then have "\<forall>c \<in> set (rev b). c \<noteq> CHR ''/''" by auto
  then show ?thesis by (simp add: path_Split_def)
qed

text \<open>The parent directory and the base name of a canonical path.\<close>

lemma path_Dir_snoc [canon_simps]:
  assumes "canon (ps @ [b])"
  shows "path_Dir (pjoin (ps @ [b])) = (if ps = [] then ''.'' else pjoin ps)"
proof (cases "ps = []")
  case True
  with assms show ?thesis by (simp add: path_Dir_def path_Split_seg seg_ok_def path_Clean_def)
next
  case False
  with assms show ?thesis
    by (simp add: path_Dir_def Join_with_snoc path_Split_snoc [simplified] seg_ok_def canon_simps [simplified])
qed

lemma path_Base_snoc [canon_simps]:
  assumes "canon (ps @ [b])"
  shows "path_Base (pjoin (ps @ [b])) = b"
proof -
  have b: "b \<noteq> []" "CHR ''/'' \<notin> set b" using assms by (auto simp: seg_ok_def)
  then obtain b' c where "b = b' @ [c]" "c \<noteq> CHR ''/''" by (cases b rule: rev_cases) auto
  then have c: "rev b = c # rev b'" "c \<noteq> CHR ''/''" by simp_all
  define p where "p = pjoin (ps @ [b])"
  obtain d where d: "p = b \<and> ps = [] \<or> p = d @ ''/'' @ b"
    unfolding p_def by (cases "ps = []") (auto simp: Join_with_snoc)
  with c have "dropWhile (\<lambda>c. c = CHR ''/'') (rev p) = rev p" by auto
  moreover have "p \<noteq> []" using d b by auto
  moreover have "snd (path_Split p) = b"
    using d b path_Split_seg path_Split_snoc by auto
  ultimately have "path_Base p = b" using b by (simp add: path_Base_def)
  then show ?thesis by (simp add: p_def)
qed

lemma pjoin_neq_dot [canon_simps]: "canon ps \<Longrightarrow> pjoin ps \<noteq> ''.''"
proof
  assume c: "canon ps" and "pjoin ps = ''.''"
  then have "ps = [''.'']" using Split_pjoin [of ps] by (cases "ps = []") auto
  with c show False by (simp add: seg_ok_def)
qed

text \<open>Joining canonical paths appends their segments.\<close>

lemma path_Join_canon [canon_simps]:
  assumes "canon ps" and "canon qs"
  shows "path_Join [pjoin ps, pjoin qs] = pjoin (ps @ qs)"
proof (cases "ps = []")
  case True
  with assms show ?thesis by (cases "qs = []") (auto simp: path_Join_def pjoin_eq_Nil canon_simps)
next
  case ps: False
  show ?thesis
  proof (cases "qs = []")
    case True
    with ps assms show ?thesis
      by (simp add: path_Join_def pjoin_eq_Nil canon_simps [simplified])
  next
    case False
    with ps assms have "pjoin [pjoin ps, pjoin qs] = pjoin (ps @ qs)"
      by (simp add: Join_with_append)
    with ps False assms show ?thesis
      by (simp add: path_Join_def pjoin_eq_Nil path_Clean_canon)
  qed
qed

end
