(* ===== verification/Redis.thy ===== *)
theory Redis
  imports Go_Path
begin

section \<open>The Redis interface\<close>

text \<open>
  The go-redis client and the Redis server are not part of the sources. The storage code
  reaches them only through the operations of the record \<open>redis_api\<close>, a parameter of every
  definition that uses them. What the storage code relies on is the locale
  \<open>redis_server\<close>: on an open, healthy client a command answers and acts on the keyspace as
  the Redis documentation says (\<open>spec_Get\<close>, \<open>spec_ZAdd\<close>, ...), on a closed
  client it fails with the error of go-redis and changes nothing. The theory ends with an
  in-memory server that satisfies the locale.
\<close>

subsection \<open>Client options\<close>

text \<open>A \<open>time.Duration\<close> is a signed 64-bit number of nanoseconds.\<close>

type_synonym duration = "64 word"

definition second :: duration where "second = 1000000000"

record tls_config =
  InsecureSkipVerify :: bool
  RootCAs :: "bytes option"

record universal_options =
  Addrs :: "string list"
  opt_MasterName :: string
  opt_Username :: string
  opt_Password :: string
  opt_DB :: int
  opt_ClientName :: string
  DialTimeout :: duration
  ReadTimeout :: duration
  WriteTimeout :: duration
  opt_RouteByLatency :: bool
  opt_RouteRandomly :: bool
  TLSConfig :: "tls_config option"
  opt_SentinelPassword :: string

datatype client_kind = FailoverClusterClient | ClusterClient | SimpleClient

subsection \<open>Operations\<close>

text \<open>
  One field per client method, on client handles and an unspecified world \<open>'w\<close> that holds the
  server, the network and the clients. \<open>api_Ping\<close> is \<open>Ping\<close> on a simple client and
  \<open>ForEachShard\<close> of \<open>Ping\<close> on a cluster client. \<open>api_NilBytes\<close> says whether the byte slice
  that \<open>StringCmd.Bytes\<close> makes of an empty string (the value next to an error, too) is nil.
\<close>

record 'w redis_api =
  api_New :: "client_kind \<Rightarrow> universal_options \<Rightarrow> 'w \<Rightarrow> nat \<times> 'w"
  api_Close :: "nat \<Rightarrow> 'w \<Rightarrow> 'w"
  api_Ping :: "nat \<Rightarrow> 'w \<Rightarrow> (go_error + unit) \<times> 'w"
  api_Get :: "string \<Rightarrow> nat \<Rightarrow> 'w \<Rightarrow> (go_error + bytes) \<times> 'w"
  api_Set :: "string \<Rightarrow> bytes \<Rightarrow> nat \<Rightarrow> 'w \<Rightarrow> (go_error + unit) \<times> 'w"
  api_Del :: "string \<Rightarrow> nat \<Rightarrow> 'w \<Rightarrow> (go_error + int) \<times> 'w"
  api_Exists :: "string \<Rightarrow> nat \<Rightarrow> 'w \<Rightarrow> (go_error + int) \<times> 'w"
  api_ZAdd :: "string \<Rightarrow> int \<Rightarrow> string \<Rightarrow> nat \<Rightarrow> 'w \<Rightarrow> (go_error + int) \<times> 'w"
  api_ZRem :: "string \<Rightarrow> string \<Rightarrow> nat \<Rightarrow> 'w \<Rightarrow> (go_error + int) \<times> 'w"
  api_ZRange :: "string \<Rightarrow> nat \<Rightarrow> 'w \<Rightarrow> (go_error + string list) \<times> 'w"
  api_Type :: "string \<Rightarrow> nat \<Rightarrow> 'w \<Rightarrow> (go_error + string) \<times> 'w"
  api_Scan :: "nat \<Rightarrow> string \<Rightarrow> int \<Rightarrow> nat \<Rightarrow> 'w \<Rightarrow> (go_error + (string list \<times> nat)) \<times> 'w"
  api_NilBytes :: bool

text \<open>
  The running process: the package-level reconnect counter with its Prometheus mirror, and the
  world outside. A client variable may be nil; calling a method on it panics.
\<close>

record 'w proc =
  reconnectCount :: "64 word"
  reconnectMetric :: nat
  world :: 'w

definition call :: "(nat \<Rightarrow> 'w \<Rightarrow> (go_error + 'a) \<times> 'w) \<Rightarrow> nat option \<Rightarrow> ('w proc, 'a) prog" where
  "call f c = (\<lambda>s. case c of None \<Rightarrow> Some (Panic, s)
     | Some h \<Rightarrow> (case f h (world s) of
         (Inl e, w) \<Rightarrow> Some (Err e, s\<lparr>world := w\<rparr>)
       | (Inr x, w) \<Rightarrow> Some (Ok x, s\<lparr>world := w\<rparr>)))"

lemma call_simps [prog_simps]:
  "call f None s = Some (Panic, s)"
  "f h (world s) = (Inl e, w) \<Longrightarrow> call f (Some h) s = Some (Err e, s\<lparr>world := w\<rparr>)"
  "f h (world s) = (Inr x, w) \<Longrightarrow> call f (Some h) s = Some (Ok x, s\<lparr>world := w\<rparr>)"
  by (simp_all add: call_def)

subsection \<open>The documented behaviour of the commands\<close>

text \<open>
  A keyspace maps keys to strings or sorted sets. A sorted set is a list of members with their
  scores, in the order \<open>ZRANGE\<close> reports: by score, then by bytes. Scores are Unix times,
  which a 64-bit float holds exactly.
\<close>

datatype rval = RStr bytes | RZSet "(string \<times> int) list"

type_synonym rdb = "string \<rightharpoonup> rval"

fun bytes_less :: "string \<Rightarrow> string \<Rightarrow> bool" where
  "bytes_less _ [] = False"
| "bytes_less [] (_ # _) = True"
| "bytes_less (x # xs) (y # ys) = (byte x < byte y \<or> x = y \<and> bytes_less xs ys)"

definition z_before :: "string \<times> int \<Rightarrow> string \<times> int \<Rightarrow> bool" where
  "z_before a b = (snd a < snd b \<or> snd a = snd b \<and> bytes_less (fst a) (fst b))"

fun z_place :: "string \<times> int \<Rightarrow> (string \<times> int) list \<Rightarrow> (string \<times> int) list" where
  "z_place a [] = [a]"
| "z_place a (b # bs) = (if z_before a b then a # b # bs else b # z_place a bs)"

definition z_remove :: "string \<Rightarrow> (string \<times> int) list \<Rightarrow> (string \<times> int) list" where
  "z_remove m z = filter (\<lambda>a. fst a \<noteq> m) z"

definition z_insert :: "string \<Rightarrow> int \<Rightarrow> (string \<times> int) list \<Rightarrow> (string \<times> int) list" where
  "z_insert m sc z = z_place (m, sc) (z_remove m z)"

abbreviation members :: "(string \<times> int) list \<Rightarrow> string set" where
  "members z \<equiv> set (map fst z)"

lemma set_z_place [simp]: "set (z_place a z) = insert a (set z)"
  by (induction z) auto

lemma members_z_remove [simp]: "members (z_remove m z) = members z - {m}"
  by (auto simp: z_remove_def)

lemma members_z_insert [simp]: "members (z_insert m sc z) = insert m (members z)"
  using members_z_remove [of m z] by (auto simp: z_insert_def)

lemma distinct_z_place: "distinct (map fst z) \<Longrightarrow> fst a \<notin> members z \<Longrightarrow> distinct (map fst (z_place a z))"
  by (induction z) auto

lemma distinct_z_remove [simp]: "distinct (map fst z) \<Longrightarrow> distinct (map fst (z_remove m z))"
  by (simp add: z_remove_def distinct_map_filter)

lemma distinct_z_insert [simp]: "distinct (map fst z) \<Longrightarrow> distinct (map fst (z_insert m sc z))"
  unfolding z_insert_def by (rule distinct_z_place) (auto simp flip: set_map)

lemma z_insert_nonempty [simp]: "z_insert m sc z \<noteq> []"
  using members_z_insert [of m sc z] by (metis empty_iff empty_set insertI1 list.simps(8))

text \<open>The errors of the client library the sources look at.\<close>

definition redisNil :: go_error where
  "redisNil = \<lparr>err_msg = ''redis: nil'', err_chain = [RedisNil]\<rparr>"

definition closedErr :: go_error where
  "closedErr = \<lparr>err_msg = ''redis: client is closed'', err_chain = [RedisErrClosed]\<rparr>"

definition wrongType :: go_error where
  "wrongType = errors_New ''WRONGTYPE Operation against a key holding the wrong kind of value''"

definition spec_Ping :: "rdb \<Rightarrow> (go_error + unit) \<times> rdb" where
  "spec_Ping db = (Inr (), db)"

definition spec_Get :: "string \<Rightarrow> rdb \<Rightarrow> (go_error + bytes) \<times> rdb" where
  "spec_Get k db = (case db k of None \<Rightarrow> (Inl redisNil, db)
     | Some (RStr v) \<Rightarrow> (Inr v, db) | Some (RZSet z) \<Rightarrow> (Inl wrongType, db))"

definition spec_Set :: "string \<Rightarrow> bytes \<Rightarrow> rdb \<Rightarrow> (go_error + unit) \<times> rdb" where
  "spec_Set k v db = (Inr (), db(k \<mapsto> RStr v))"

definition spec_Del :: "string \<Rightarrow> rdb \<Rightarrow> (go_error + int) \<times> rdb" where
  "spec_Del k db = (Inr (if db k = None then 0 else 1), db(k := None))"

definition spec_Exists :: "string \<Rightarrow> rdb \<Rightarrow> (go_error + int) \<times> rdb" where
  "spec_Exists k db = (Inr (if db k = None then 0 else 1), db)"

definition spec_ZAdd :: "string \<Rightarrow> int \<Rightarrow> string \<Rightarrow> rdb \<Rightarrow> (go_error + int) \<times> rdb" where
  "spec_ZAdd k sc m db = (case db k of
       None \<Rightarrow> (Inr 1, db(k \<mapsto> RZSet [(m, sc)]))
     | Some (RZSet z) \<Rightarrow> (Inr (if m \<in> members z then 0 else 1), db(k \<mapsto> RZSet (z_insert m sc z)))
     | Some (RStr v) \<Rightarrow> (Inl wrongType, db))"

definition spec_ZRem :: "string \<Rightarrow> string \<Rightarrow> rdb \<Rightarrow> (go_error + int) \<times> rdb" where
  "spec_ZRem k m db = (case db k of
       None \<Rightarrow> (Inr 0, db)
     | Some (RZSet z) \<Rightarrow>
         (if m \<in> members z
          then (Inr 1, db(k := (if z_remove m z = [] then None else Some (RZSet (z_remove m z)))))
          else (Inr 0, db))
     | Some (RStr v) \<Rightarrow> (Inl wrongType, db))"

definition spec_ZRange :: "string \<Rightarrow> rdb \<Rightarrow> (go_error + string list) \<times> rdb" where
  "spec_ZRange k db = (case db k of
       None \<Rightarrow> (Inr [], db)
     | Some (RZSet z) \<Rightarrow> (Inr (map fst z), db)
     | Some (RStr v) \<Rightarrow> (Inl wrongType, db))"

definition spec_Type :: "string \<Rightarrow> rdb \<Rightarrow> (go_error + string) \<times> rdb" where
  "spec_Type k db = (case db k of
       None \<Rightarrow> (Inr ''none'', db)
     | Some (RZSet z) \<Rightarrow> (Inr ''zset'', db)
     | Some (RStr v) \<Rightarrow> (Inr ''string'', db))"

lemmas spec_defs = spec_Ping_def spec_Get_def spec_Set_def spec_Del_def spec_Exists_def
  spec_ZAdd_def spec_ZRem_def spec_ZRange_def spec_Type_def

subsection \<open>The contract of client and server\<close>

text \<open>
  \<open>serves\<close>: an operation on an open client answers and acts as specified; on a closed client it
  fails with \<^term>\<open>closedErr\<close>, and on a client that has no connection it fails in some way, both
  without effect; no operation opens or closes a client.
\<close>

definition serves :: "('w \<Rightarrow> rdb) \<Rightarrow> ('w \<Rightarrow> nat \<Rightarrow> bool) \<Rightarrow> ('w \<Rightarrow> nat \<Rightarrow> bool) \<Rightarrow> ('w \<Rightarrow> universal_options \<Rightarrow> bool)
    \<Rightarrow> (nat \<Rightarrow> 'w \<Rightarrow> (go_error + 'a) \<times> 'w) \<Rightarrow> (rdb \<Rightarrow> (go_error + 'a) \<times> rdb) \<Rightarrow> bool" where
  "serves view up closed reach f g \<longleftrightarrow>
     (\<forall>w c. up w c \<longrightarrow> (\<exists>w'. f c w = (fst (g (view w)), w') \<and> view w' = snd (g (view w))
        \<and> up w' = up w \<and> closed w' = closed w \<and> reach w' = reach w)) \<and>
     (\<forall>w c. closed w c \<longrightarrow> (\<exists>w'. f c w = (Inl closedErr, w') \<and> view w' = view w
        \<and> up w' = up w \<and> closed w' = closed w \<and> reach w' = reach w)) \<and>
     (\<forall>w c. \<not> up w c \<longrightarrow> \<not> closed w c \<longrightarrow> (\<exists>e w'. f c w = (Inl e, w') \<and> view w' = view w
        \<and> up w' = up w \<and> closed w' = closed w \<and> reach w' = reach w))"

text \<open>The counters and the connections of two process states are the same.\<close>

definition conn_same :: "('w \<Rightarrow> nat \<Rightarrow> bool) \<Rightarrow> ('w \<Rightarrow> nat \<Rightarrow> bool) \<Rightarrow> ('w \<Rightarrow> universal_options \<Rightarrow> bool)
    \<Rightarrow> 'w proc \<Rightarrow> 'w proc \<Rightarrow> bool" where
  "conn_same up closed reach s s' \<longleftrightarrow> reconnectCount s' = reconnectCount s \<and> reconnectMetric s' = reconnectMetric s
     \<and> up (world s') = up (world s) \<and> closed (world s') = closed (world s)
     \<and> reach (world s') = reach (world s)"

locale redis_server =
  fixes R :: "'w redis_api"
    and view :: "'w \<Rightarrow> rdb"
    and up :: "'w \<Rightarrow> nat \<Rightarrow> bool"
    and closed :: "'w \<Rightarrow> nat \<Rightarrow> bool"
    and reach :: "'w \<Rightarrow> universal_options \<Rightarrow> bool"
  assumes Ping: "serves view up closed reach (api_Ping R) spec_Ping"
    and Get: "serves view up closed reach (api_Get R k) (spec_Get k)"
    and Set: "serves view up closed reach (api_Set R k v) (spec_Set k v)"
    and Del: "serves view up closed reach (api_Del R k) (spec_Del k)"
    and Exists: "serves view up closed reach (api_Exists R k) (spec_Exists k)"
    and ZAdd: "serves view up closed reach (api_ZAdd R k sc m) (spec_ZAdd k sc m)"
    and ZRem: "serves view up closed reach (api_ZRem R k m) (spec_ZRem k m)"
    and ZRange: "serves view up closed reach (api_ZRange R k) (spec_ZRange k)"
    and Type: "serves view up closed reach (api_Type R k) (spec_Type k)"
    and New: "api_New R kd opts w = (c, w') \<Longrightarrow>
      \<not> up w c \<and> \<not> closed w c \<and> view w' = view w \<and> reach w' = reach w \<and> closed w' = closed w
      \<and> up w' = (up w)(c := reach w opts)"
    and Close: "view (api_Close R c w) = view w \<and> reach (api_Close R c w) = reach w
      \<and> up (api_Close R c w) = (up w)(c := False) \<and> closed (api_Close R c w) = (closed w)(c := True)"
    and up_open: "up w c \<Longrightarrow> \<not> closed w c"
begin

text \<open>What a client call does to the process: the two ways every call below is evaluated.\<close>

abbreviation conn :: "'w proc \<Rightarrow> 'w proc \<Rightarrow> bool" where
  "conn \<equiv> conn_same up closed reach"

lemmas conn_def = conn_same_def

lemma conn_refl [simp]: "conn s s"
  by (simp add: conn_def)

lemma conn_trans [trans]: "conn s s' \<Longrightarrow> conn s' s'' \<Longrightarrow> conn s s''"
  by (simp add: conn_def)

lemma conn_up: "conn s s' \<Longrightarrow> up (world s') c = up (world s) c"
  by (simp add: conn_def)

lemma call_up:
  assumes "serves view up closed reach f g" and "up (world s) h"
  obtains s' where "call f (Some h) s =
      Some (case fst (g (view (world s))) of Inl e \<Rightarrow> Err e | Inr x \<Rightarrow> Ok x, s')"
    and "view (world s') = snd (g (view (world s)))" and "conn s s'"
proof -
  from assms obtain w' where w': "f h (world s) = (fst (g (view (world s))), w')"
    "view w' = snd (g (view (world s)))"
    "up w' = up (world s)" "closed w' = closed (world s)" "reach w' = reach (world s)"
    unfolding serves_def by blast
  show thesis
    by (rule that [of "s\<lparr>world := w'\<rparr>"])
       (auto simp: call_def w' conn_def split: sum.split)
qed

lemma call_closed:
  assumes "serves view up closed reach f g" and "closed (world s) h"
  obtains s' where "call f (Some h) s = Some (Err closedErr, s')"
    and "view (world s') = view (world s)" and "conn s s'"
proof -
  from assms obtain w' where w': "f h (world s) = (Inl closedErr, w')" "view w' = view (world s)"
    "up w' = up (world s)" "closed w' = closed (world s)" "reach w' = reach (world s)"
    unfolding serves_def by blast
  show thesis
    by (rule that [of "s\<lparr>world := w'\<rparr>"]) (auto simp: call_def w' conn_def)
qed

lemma call_down:
  assumes "serves view up closed reach f g" and "\<not> up (world s) h" and "\<not> closed (world s) h"
  obtains e s' where "call f (Some h) s = Some (Err e, s')"
    and "view (world s') = view (world s)" and "conn s s'"
proof -
  from assms obtain e w' where w': "f h (world s) = (Inl e, w')" "view w' = view (world s)"
    "up w' = up (world s)" "closed w' = closed (world s)" "reach w' = reach (world s)"
    unfolding serves_def by blast
  show thesis
    by (rule that [of e "s\<lparr>world := w'\<rparr>"]) (auto simp: call_def w' conn_def)
qed

end

subsection \<open>Scanning the keyspace\<close>

text \<open>
  \<open>SCAN\<close> is called again with the cursor of its last answer until that is 0, while the keyspace
  may change in between. A trace records for every call the world it found and its answer. The
  documentation promises that a full iteration returns every key that was there from its start to
  its end, that only keys matching the pattern are returned, and that an iteration over a keyspace
  of bounded size ends. \<open>K\<close> are the keys for which the first promise is needed. In a pattern
  without special characters only the final star matches more than itself.
\<close>

fun scan_trace :: "(nat \<Rightarrow> 'w \<Rightarrow> (go_error + (string list \<times> nat)) \<times> 'w) \<Rightarrow> nat \<Rightarrow> ('w \<times> string list \<times> nat) list \<Rightarrow> bool" where
  "scan_trace f cur [] = True"
| "scan_trace f cur ((w, keys, cur') # tr) = (fst (f cur w) = Inr (keys, cur') \<and> (tr \<noteq> [] \<longrightarrow> cur' \<noteq> 0) \<and> scan_trace f cur' tr)"

definition next_cursor :: "('w \<times> string list \<times> nat) list \<Rightarrow> nat" where
  "next_cursor tr = (if tr = [] then 0 else snd (snd (last tr)))"

lemma scan_trace_snoc_from:
  "scan_trace f cur (tr @ [(w, keys, cur')]) \<longleftrightarrow> scan_trace f cur tr
     \<and> fst (f (if tr = [] then cur else snd (snd (last tr))) w) = Inr (keys, cur') \<and> (tr = [] \<or> snd (snd (last tr)) \<noteq> 0)"
  by (induction tr arbitrary: cur) auto

lemma scan_trace_snoc:
  "scan_trace f 0 tr \<Longrightarrow> fst (f (next_cursor tr) w) = Inr (keys, cur') \<Longrightarrow> tr = [] \<or> next_cursor tr \<noteq> 0 \<Longrightarrow>
    scan_trace f 0 (tr @ [(w, keys, cur')])"
  by (auto simp: scan_trace_snoc_from next_cursor_def split: if_splits)

definition plain_pattern :: "string \<Rightarrow> bool" where
  "plain_pattern p \<longleftrightarrow> set p \<inter> set ''*?['' = {} \<and> CHR 0x5C \<notin> set p"

locale redis_scan = redis_server R view up closed reach
  for R :: "'w redis_api" and view up closed reach +
  fixes K :: "string set"
  assumes Scan: "up w c \<Longrightarrow> plain_pattern p \<Longrightarrow> \<exists>keys cur' w'. api_Scan R cur (p @ ''*'') n c w = (Inr (keys, cur'), w')
      \<and> view w' = view w \<and> up w' = up w \<and> closed w' = closed w \<and> reach w' = reach w \<and> (\<forall>k \<in> set keys. HasPrefix k p)"
    and Scan_complete: "plain_pattern p \<Longrightarrow> scan_trace (\<lambda>cur. api_Scan R cur (p @ ''*'') n c) 0 tr \<Longrightarrow> tr \<noteq> [] \<Longrightarrow> next_cursor tr = 0 \<Longrightarrow>
      k \<in> K \<Longrightarrow> HasPrefix k p \<Longrightarrow> (\<And>w keys cur. (w, keys, cur) \<in> set tr \<Longrightarrow> view w k \<noteq> None) \<Longrightarrow>
      \<exists>w keys cur. (w, keys, cur) \<in> set tr \<and> k \<in> set keys"
    and Scan_ends: "\<exists>B. \<forall>tr. scan_trace (\<lambda>cur. api_Scan R cur (p @ ''*'') n c) 0 tr \<longrightarrow>
      (\<forall>(w, keys, cur) \<in> set tr. finite (dom (view w)) \<and> card (dom (view w)) \<le> N) \<longrightarrow> length tr \<le> B"

subsection \<open>An in-memory server\<close>

text \<open>
  A complete instance, in the role \<open>miniredis\<close> has in the tests: the keyspace, the clients
  by handle (open, closed, or opened while the server was unreachable), whether the server
  can be reached, and the locks of theory \<open>Lock\<close>.
\<close>

datatype cstatus = COpen | CClosed | CDown

record mem =
  mem_db :: rdb
  mem_clients :: "cstatus list"
  mem_reach :: bool
  mem_owner :: "string \<rightharpoonup> nat"
  mem_handles :: "(string \<times> nat) list"
  mem_expires :: "string \<rightharpoonup> int"
  mem_now :: int

definition mem_status :: "mem \<Rightarrow> nat \<Rightarrow> cstatus option" where
  "mem_status w c = (if c < length (mem_clients w) then Some (mem_clients w ! c) else None)"

definition mem_up :: "mem \<Rightarrow> nat \<Rightarrow> bool" where
  "mem_up w c = (mem_status w c = Some COpen)"

definition mem_closed :: "mem \<Rightarrow> nat \<Rightarrow> bool" where
  "mem_closed w c = (mem_status w c = Some CClosed)"

definition netErr :: go_error where
  "netErr = errors_New ''dial tcp: connection refused''"

definition mem_do :: "(rdb \<Rightarrow> (go_error + 'a) \<times> rdb) \<Rightarrow> nat \<Rightarrow> mem \<Rightarrow> (go_error + 'a) \<times> mem" where
  "mem_do g c w =
     (if mem_up w c then (fst (g (mem_db w)), w\<lparr>mem_db := snd (g (mem_db w))\<rparr>)
      else if mem_closed w c then (Inl closedErr, w) else (Inl netErr, w))"

definition mem_close :: "nat \<Rightarrow> mem \<Rightarrow> mem" where
  "mem_close c w =
     w\<lparr>mem_clients := (mem_clients w @ replicate (Suc c - length (mem_clients w)) CDown)[c := CClosed]\<rparr>"

definition mem_new :: "client_kind \<Rightarrow> universal_options \<Rightarrow> mem \<Rightarrow> nat \<times> mem" where
  "mem_new kd opts w =
     (length (mem_clients w), w\<lparr>mem_clients := mem_clients w @ [if mem_reach w then COpen else CDown]\<rparr>)"

text \<open>
  A scan that returns every key at once is a valid, if large, answer; the keys are listed in \<open>ks\<close>,
  and the pattern is a prefix and a star.
\<close>

definition mem_api :: "bool \<Rightarrow> string list \<Rightarrow> mem redis_api" where
  "mem_api nb ks = \<lparr>api_New = mem_new, api_Close = mem_close,
     api_Ping = mem_do spec_Ping,
     api_Get = (\<lambda>k. mem_do (spec_Get k)),
     api_Set = (\<lambda>k v. mem_do (spec_Set k v)),
     api_Del = (\<lambda>k. mem_do (spec_Del k)),
     api_Exists = (\<lambda>k. mem_do (spec_Exists k)),
     api_ZAdd = (\<lambda>k sc m. mem_do (spec_ZAdd k sc m)),
     api_ZRem = (\<lambda>k m. mem_do (spec_ZRem k m)),
     api_ZRange = (\<lambda>k. mem_do (spec_ZRange k)),
     api_Type = (\<lambda>k. mem_do (spec_Type k)),
     api_Scan = (\<lambda>cur pat n. mem_do (\<lambda>db. (Inr (filter (\<lambda>k. db k \<noteq> None \<and> HasPrefix k (butlast pat)) ks, 0), db))),
     api_NilBytes = nb\<rparr>"

abbreviation mem_reachable :: "mem \<Rightarrow> universal_options \<Rightarrow> bool" where
  "mem_reachable w opts \<equiv> mem_reach w"

lemma mem_status_db [simp]: "mem_status (w\<lparr>mem_db := db\<rparr>) = mem_status w"
  by (rule ext) (simp add: mem_status_def)

lemma mem_do_serves: "serves mem_db mem_up mem_closed mem_reachable (mem_do g) g"
  by (auto simp: serves_def mem_do_def mem_up_def mem_closed_def fun_eq_iff)

lemma mem_status_close_up: "mem_up (mem_close c w) = (mem_up w)(c := False)"
  by (auto simp: mem_up_def mem_status_def mem_close_def fun_eq_iff nth_append nth_list_update)

lemma mem_status_close_closed: "mem_closed (mem_close c w) = (mem_closed w)(c := True)"
  by (auto simp: mem_closed_def mem_status_def mem_close_def fun_eq_iff nth_append nth_list_update)

interpretation mem: redis_server "mem_api nb ks" mem_db mem_up mem_closed mem_reachable
proof (unfold_locales, goal_cases)
  case (10 kd opts w c w')
  then show ?case
    by (auto simp: mem_api_def mem_new_def mem_up_def mem_closed_def mem_status_def fun_eq_iff nth_append
        split: if_splits)
next
  case (11 c w)
  then show ?case by (simp add: mem_api_def mem_status_close_up mem_status_close_closed) (simp add: mem_close_def)
next
  case (12 w c)
  then show ?case by (simp add: mem_up_def mem_closed_def)
qed (simp_all add: mem_api_def mem_do_serves)


lemma mem_scan_answer:
  "fst (api_Scan (mem_api nb ks) cur (p @ ''*'') n c w) = Inr (keys, cur') \<Longrightarrow>
    keys = filter (\<lambda>k. mem_db w k \<noteq> None \<and> HasPrefix k p) ks \<and> cur' = 0"
  by (auto simp: mem_api_def mem_do_def split: if_splits)

interpretation mem_scan: redis_scan "mem_api nb ks" mem_db mem_up mem_closed mem_reachable "set ks"
proof (unfold_locales, goal_cases)
  case (1 w c p cur n)
  then show ?case by (simp add: mem_api_def mem_do_def mem_up_def mem_closed_def)
next
  case (2 p n c tr k)
  then obtain w keys cur tr' where tr: "tr = (w, keys, cur) # tr'" by (metis neq_Nil_conv prod_cases3)
  with 2 have "keys = filter (\<lambda>k. mem_db w k \<noteq> None \<and> HasPrefix k p) ks" by (auto dest: mem_scan_answer)
  with 2 tr show ?case by fastforce
next
  case (3 p n c N)
  have "length tr \<le> 1" if "scan_trace (\<lambda>cur. api_Scan (mem_api nb ks) cur (p @ ''*'') n c) 0 tr" for tr
  proof (cases tr)
    case (Cons a tr')
    obtain w keys cur where "a = (w, keys, cur)" by (cases a)
    with that Cons show ?thesis by (auto dest: mem_scan_answer)
  qed simp
  then show ?case by blast
qed

end
