(* ===== verification/Config.thy ===== *)
theory Config
  imports Redis
begin

section \<open>The storage module and its clients\<close>

text \<open>
  The struct \<open>RedisStorage\<close> with its defaults, the JSON forms of its fields, the redacted
  textual form, and the construction of Redis clients from a configuration
  (\<open>storage.go\<close>: \<open>New\<close>, \<open>UnmarshalJSON\<close>, \<open>String\<close>, \<open>initRedisClient\<close>,
  \<open>buildClient\<close>; \<open>caddyfile.go\<close>: \<open>Cleanup\<close>).
\<close>

subsection \<open>RedisStorage\<close>

text \<open>The lock map is state of the running instance (theory \<open>Lock\<close>); \<open>locks\<close> says whether it was allocated.\<close>

record RedisStorage =
  ClientType :: string
  Address :: "string list"
  Host :: "string list"
  Port :: "string list"
  DB :: string
  Timeout :: string
  Username :: string
  Password :: string
  SentinelPassword :: string
  MasterName :: string
  KeyPrefix :: string
  EncryptionKey :: string
  DecryptionKeys :: "string list"
  ClientName :: string
  Compression :: string
  TlsEnabled :: bool
  TlsInsecure :: bool
  TlsServerCertsPEM :: string
  TlsServerCertsPath :: string
  RouteByLatency :: bool
  RouteRandomly :: bool
  client :: "nat option"
  locker :: "nat option"
  locks :: bool

definition defaultClientType :: string where "defaultClientType = ''simple''"
definition defaultHost :: string where "defaultHost = ''127.0.0.1''"
definition defaultPort :: string where "defaultPort = ''6379''"
definition defaultDb :: string where "defaultDb = ''0''"
definition defaultKeyPrefix :: string where "defaultKeyPrefix = ''caddy''"

definition CompressionNone :: string where "CompressionNone = ''''"
definition CompressionFlate :: string where "CompressionFlate = ''flate''"
definition CompressionZlib :: string where "CompressionZlib = ''zlib''"

lemmas default_defs = defaultClientType_def defaultHost_def defaultPort_def defaultDb_def
  defaultKeyPrefix_def

lemmas compression_defs = CompressionNone_def CompressionFlate_def CompressionZlib_def

definition New :: RedisStorage where
  "New = \<lparr>ClientType = defaultClientType, Address = [], Host = [defaultHost], Port = [defaultPort],
     DB = defaultDb, Timeout = '''', Username = '''', Password = '''', SentinelPassword = '''',
     MasterName = '''', KeyPrefix = defaultKeyPrefix, EncryptionKey = '''', DecryptionKeys = [],
     ClientName = '''', Compression = CompressionNone, TlsEnabled = False, TlsInsecure = False,
     TlsServerCertsPEM = '''', TlsServerCertsPath = '''', RouteByLatency = False,
     RouteRandomly = False, client = None, locker = None, locks = False\<rparr>"

subsection \<open>JSON forms\<close>

text \<open>
  A JSON document as \<open>encoding/json\<close> sees it after its syntax check; a number keeps its literal.
\<close>

datatype json = JNull | JBool bool | JNum string | JStr string | JArr "json list"
  | JObj "(string \<times> json) list"

text \<open>\<open>json.Unmarshal\<close> into a \<open>bool\<close>, \<open>int\<close> or \<open>string\<close> variable that holds its zero value.\<close>

definition json_bool :: "json \<Rightarrow> bool option" where
  "json_bool j = (case j of JNull \<Rightarrow> Some False | JBool b \<Rightarrow> Some b | _ \<Rightarrow> None)"

definition json_int :: "json \<Rightarrow> int option" where
  "json_int j = (case j of JNull \<Rightarrow> Some 0 | JNum l \<Rightarrow> Atoi l | _ \<Rightarrow> None)"

definition json_string :: "json \<Rightarrow> string option" where
  "json_string j = (case j of JNull \<Rightarrow> Some '''' | JStr s \<Rightarrow> Some s | _ \<Rightarrow> None)"

definition CompressionMode_UnmarshalJSON :: "json \<Rightarrow> string option" where
  "CompressionMode_UnmarshalJSON data =
     (case json_bool data of
        Some b \<Rightarrow> Some (if b then CompressionFlate else CompressionNone)
      | None \<Rightarrow> json_string data)"

definition DBIndex_UnmarshalJSON :: "json \<Rightarrow> string option" where
  "DBIndex_UnmarshalJSON data =
     (case json_int data of
        Some n \<Rightarrow> Some (Itoa n)
      | None \<Rightarrow> json_string data)"

text \<open>
  \<open>json.Marshal\<close> of the struct: the tagged fields in order, two of them omitted when empty. A nil
  slice prints as null, an empty one as an empty array; \<open>nils\<close> are the names of the fields whose
  slice is nil, which the lists of the model do not show.
\<close>

definition json_strings :: "string list \<Rightarrow> json" where
  "json_strings xs = JArr (map JStr xs)"

definition json_slice :: "string list \<Rightarrow> string \<Rightarrow> string list \<Rightarrow> string \<times> json" where
  "json_slice nils name xs = (name, if xs = [] \<and> name \<in> set nils then JNull else json_strings xs)"

definition RedisStorage_MarshalJSON :: "string list \<Rightarrow> RedisStorage \<Rightarrow> json" where
  "RedisStorage_MarshalJSON nils rs = JObj (
     [(''client_type'', JStr (ClientType rs)), json_slice nils ''address'' (Address rs),
      json_slice nils ''host'' (Host rs), json_slice nils ''port'' (Port rs),
      (''db'', JStr (DB rs)), (''timeout'', JStr (Timeout rs)),
      (''username'', JStr (Username rs)), (''password'', JStr (Password rs)),
      (''sentinel_password'', JStr (SentinelPassword rs)), (''master_name'', JStr (MasterName rs)),
      (''key_prefix'', JStr (KeyPrefix rs)), (''encryption_key'', JStr (EncryptionKey rs))] @
     (if DecryptionKeys rs = [] then [] else [(''decryption_keys'', json_strings (DecryptionKeys rs))]) @
     (if ClientName rs = '''' then [] else [(''client_name'', JStr (ClientName rs))]) @
     [(''compression'', JStr (Compression rs)), (''tls_enabled'', JBool (TlsEnabled rs)),
      (''tls_insecure'', JBool (TlsInsecure rs)), (''tls_server_certs_pem'', JStr (TlsServerCertsPEM rs)),
      (''tls_server_certs_path'', JStr (TlsServerCertsPath rs)),
      (''route_by_latency'', JBool (RouteByLatency rs)), (''route_randomly'', JBool (RouteRandomly rs))])"

text \<open>\<open>String\<close> works on a copy of the struct with the secrets replaced.\<close>

definition redacted :: string where "redacted = ''REDACTED''"

definition RedisStorage_redact :: "RedisStorage \<Rightarrow> RedisStorage" where
  "RedisStorage_redact rs =
     (let rs = (if Password rs \<noteq> '''' then rs\<lparr>Password := redacted\<rparr> else rs);
          rs = (if SentinelPassword rs \<noteq> '''' then rs\<lparr>SentinelPassword := redacted\<rparr> else rs);
          rs = (if EncryptionKey rs \<noteq> '''' then rs\<lparr>EncryptionKey := redacted\<rparr> else rs);
          rs = (if length (DecryptionKeys rs) > 0
                then rs\<lparr>DecryptionKeys := map (\<lambda>_. redacted) (DecryptionKeys rs)\<rparr> else rs)
      in rs)"

definition RedisStorage_String :: "string list \<Rightarrow> RedisStorage \<Rightarrow> json" where
  "RedisStorage_String nils rs = RedisStorage_MarshalJSON nils (RedisStorage_redact rs)"

subsection \<open>Building clients\<close>

text \<open>
  Outside the sources: the Redis client library, the file system and the certificate parser
  (\<open>AppendCertsFromPEM\<close> tells whether it found a certificate).
\<close>

record 'w sysenv =
  redis :: "'w redis_api"
  ReadFile :: "string \<Rightarrow> go_error + bytes"
  AppendCertsFromPEM :: "bytes \<Rightarrow> bool"

definition base_options :: "RedisStorage \<Rightarrow> universal_options" where
  "base_options rs = \<lparr>Addrs = Address rs, opt_MasterName = MasterName rs, opt_Username = Username rs,
     opt_Password = Password rs, opt_DB = Atoi_val (DB rs), opt_ClientName = ClientName rs,
     DialTimeout = 0, ReadTimeout = 0, WriteTimeout = 0, opt_RouteByLatency = False,
     opt_RouteRandomly = False, TLSConfig = None, opt_SentinelPassword = ''''\<rparr>"

definition timeout_options :: "RedisStorage \<Rightarrow> universal_options \<Rightarrow> universal_options" where
  "timeout_options rs opts =
     (if Timeout rs \<noteq> ''''
      then let d = (of_int (Atoi_val (Timeout rs)) :: duration) * second
           in opts\<lparr>DialTimeout := d, ReadTimeout := d, WriteTimeout := d\<rparr>
      else opts)"

definition routing_options :: "RedisStorage \<Rightarrow> universal_options \<Rightarrow> universal_options" where
  "routing_options rs opts =
     (if RouteByLatency rs \<or> RouteRandomly rs
      then opts\<lparr>opt_RouteByLatency := RouteByLatency rs, opt_RouteRandomly := RouteRandomly rs\<rparr> else opts)"

definition tls_options :: "'w sysenv \<Rightarrow> RedisStorage \<Rightarrow> universal_options \<Rightarrow> go_error + universal_options" where
  "tls_options E rs opts =
     (if \<not> TlsEnabled rs then Inr opts
      else if TlsServerCertsPEM rs \<noteq> '''' \<and> TlsServerCertsPath rs \<noteq> ''''
      then Inl (errors_New ''Cannot specify TlsServerCertsPEM alongside TlsServerCertsPath'')
      else if TlsServerCertsPEM rs \<noteq> '''' \<or> TlsServerCertsPath rs \<noteq> ''''
      then (case (if TlsServerCertsPath rs \<noteq> '''' then ReadFile E (TlsServerCertsPath rs)
                  else Inr (TlsServerCertsPEM rs)) of
              Inl e \<Rightarrow> Inl (errorf_v (''Failed to load PEM server certs from file '' @ TlsServerCertsPath rs @ '': '') e)
            | Inr pem \<Rightarrow>
                if AppendCertsFromPEM E pem
                then Inr (opts\<lparr>TLSConfig := Some \<lparr>InsecureSkipVerify = TlsInsecure rs, RootCAs = Some pem\<rparr>\<rparr>)
                else Inl (errors_New ''Failed to load PEM server certs''))
      else Inr (opts\<lparr>TLSConfig := Some \<lparr>InsecureSkipVerify = TlsInsecure rs, RootCAs = None\<rparr>\<rparr>))"

text \<open>Create a client of the given kind and test it; a client that fails the test is closed.\<close>

definition closeClient :: "'w sysenv \<Rightarrow> nat \<Rightarrow> ('w proc, unit) prog" where
  "closeClient E c = (\<lambda>s. Some (Ok (), s\<lparr>world := api_Close (redis E) c (world s)\<rparr>))"

definition connect :: "'w sysenv \<Rightarrow> client_kind \<Rightarrow> universal_options \<Rightarrow> ('w proc, nat) prog" where
  "connect E kd opts = (\<lambda>s. case api_New (redis E) kd opts (world s) of (c, w) \<Rightarrow>
     handleP (bindP (call (api_Ping (redis E)) (Some c)) (\<lambda>_. ret c))
             (\<lambda>e. bindP (closeClient E c) (\<lambda>_. throw e)) (s\<lparr>world := w\<rparr>))"

definition buildClient :: "'w sysenv \<Rightarrow> RedisStorage \<Rightarrow> ('w proc, nat) prog" where
  "buildClient E rs =
     (case tls_options E rs (routing_options rs (timeout_options rs (base_options rs))) of
        Inl e \<Rightarrow> throw e
      | Inr opts \<Rightarrow>
          if ClientType rs = ''failover'' \<and> opt_MasterName opts = ''''
          then throw (errors_New (CHR 0x27 # ''master_name'' @ CHR 0x27 # '' is required when using '' @ CHR 0x27 # ''failover'' @ CHR 0x27 # '' client type''))
          else if ClientType rs = ''failover''
          then connect E FailoverClusterClient
                 (if SentinelPassword rs \<noteq> '''' then opts\<lparr>opt_SentinelPassword := SentinelPassword rs\<rparr> else opts)
          else if ClientType rs = ''cluster'' \<or> length (Addrs opts) > 1
          then connect E ClusterClient opts
          else connect E SimpleClient opts)"

text \<open>\<open>initRedisClient\<close> and \<open>Cleanup\<close>: both change the storage value.\<close>

definition initRedisClient :: "'w sysenv \<Rightarrow> RedisStorage \<Rightarrow> ('w proc, RedisStorage) prog" where
  "initRedisClient E rs =
     bindP (buildClient E rs)
       (\<lambda>c. ret (rs\<lparr>client := Some c, locker := Some c, locks := True\<rparr>))"

definition Cleanup :: "'w sysenv \<Rightarrow> RedisStorage \<Rightarrow> ('w proc, unit) prog" where
  "Cleanup E rs = (case client rs of None \<Rightarrow> ret () | Some c \<Rightarrow> closeClient E c)"

end
