(* ===== verification/Reconnect.thy ===== *)
theory Reconnect
  imports Config
begin

section \<open>Reconnecting after a closed client\<close>

text \<open>
  \<open>reconnect.go\<close>: a configuration reload closes the cached client of a storage instance that
  callers still hold. \<open>withReconnectOnClosed\<close> recognises the resulting error by its text, runs
  the operation once more on a one-shot client, counts the reconnect and closes the one-shot.
\<close>

subsection \<open>Definitions\<close>

definition isClientClosedErr :: "go_error \<Rightarrow> bool" where
  "isClientClosedErr err = Contains (err_msg err) ''client is closed''"

definition ReconnectCount :: "'w proc \<Rightarrow> 64 word" where
  "ReconnectCount s = reconnectCount s"

text \<open>\<open>reconnectCount.Add(1)\<close> and \<open>reconnectMetric.Inc()\<close>.\<close>

definition bumpReconnect :: "'w proc \<Rightarrow> 'w proc" where
  "bumpReconnect s = s\<lparr>reconnectCount := reconnectCount s + 1, reconnectMetric := Suc (reconnectMetric s)\<rparr>"

definition withReconnectOnClosed ::
    "'w sysenv \<Rightarrow> RedisStorage \<Rightarrow> (nat option \<Rightarrow> ('w proc, 'a) prog) \<Rightarrow> ('w proc, 'a) prog" where
  "withReconnectOnClosed E rs op =
     handleP (op (client rs)) (\<lambda>err.
       if \<not> isClientClosedErr err then throw err
       else bindP (wrapP (\<lambda>ferr. errorf_w (''redis storage: reconnect after closed client failed: ''
                       @ err_msg ferr @ '' (original op error: '') err '')'')
                     (buildClient E rs))
              (\<lambda>fresh. finallyP (bindP (updateP bumpReconnect) (\<lambda>_. op (Some fresh)))
                         (\<lambda>s. s\<lparr>world := api_Close (redis E) fresh (world s)\<rparr>)))"

text \<open>
  Registering the Prometheus counter with a context's registry: a nil registry and a counter
  that is already registered are silent, any other error is logged. The result is the warning.
\<close>

datatype register_error = AlreadyRegisteredError | OtherRegisterError go_error

definition registerMetrics :: "(unit \<Rightarrow> register_error option) option \<Rightarrow> go_error option" where
  "registerMetrics reg = (case reg of None \<Rightarrow> None
     | Some register \<Rightarrow> (case register () of
         None \<Rightarrow> None
       | Some AlreadyRegisteredError \<Rightarrow> None
       | Some (OtherRegisterError e) \<Rightarrow> Some e))"

subsection \<open>The closed-client error survives every wrapper\<close>

lemma isClientClosedErr_closedErr [simp]: "isClientClosedErr closedErr"
  by (simp add: isClientClosedErr_def closedErr_def HasPrefix_def)

lemma isClientClosedErr_errorf [simp]:
  "isClientClosedErr e \<Longrightarrow> isClientClosedErr (errorf_v pre e)"
  "isClientClosedErr e \<Longrightarrow> isClientClosedErr (errorf_w pre e post)"
  by (auto simp: isClientClosedErr_def intro: Contains_prepend Contains_append)

lemma isClientClosedErr_others [simp]:
  "\<not> isClientClosedErr redisNil" "\<not> isClientClosedErr wrongType"
  by (simp_all add: isClientClosedErr_def redisNil_def wrongType_def HasPrefix_def)

subsection \<open>Branches of withReconnectOnClosed\<close>

text \<open>The kind of client a configuration asks for and its options, or the configuration error.\<close>

definition client_plan :: "'w sysenv \<Rightarrow> RedisStorage \<Rightarrow> go_error + client_kind \<times> universal_options" where
  "client_plan E rs =
     (case tls_options E rs (routing_options rs (timeout_options rs (base_options rs))) of
        Inl e \<Rightarrow> Inl e
      | Inr opts \<Rightarrow>
          if ClientType rs = ''failover''
          then if MasterName rs = ''''
               then Inl (errors_New (CHR 0x27 # ''master_name'' @ CHR 0x27 # '' is required when using ''
                      @ CHR 0x27 # ''failover'' @ CHR 0x27 # '' client type''))
               else Inr (FailoverClusterClient, opts\<lparr>opt_SentinelPassword := SentinelPassword rs\<rparr>)
          else if ClientType rs = ''cluster'' \<or> length (Address rs) > 1
          then Inr (ClusterClient, opts) else Inr (SimpleClient, opts))"

lemma planned_options:
  assumes "tls_options E rs (routing_options rs (timeout_options rs (base_options rs))) = Inr opts"
  shows "opt_MasterName opts = MasterName rs" and "Addrs opts = Address rs"
    and "opt_SentinelPassword opts = ''''"
  using assms
  by (auto simp: tls_options_def routing_options_def timeout_options_def base_options_def Let_def
      split: if_splits sum.splits)

lemma buildClient_plan:
  "buildClient E rs = (case client_plan E rs of Inl e \<Rightarrow> throw e | Inr (kd, opts) \<Rightarrow> connect E kd opts)"
proof (cases "tls_options E rs (routing_options rs (timeout_options rs (base_options rs)))")
  case (Inl e)
  then show ?thesis by (simp add: buildClient_def client_plan_def)
next
  case (Inr opts)
  note o = planned_options [OF Inr]
  with Inr show ?thesis by (cases opts) (simp add: buildClient_def client_plan_def)
qed

lemma reconnect_passthrough:
  assumes "op (client rs) s = Some (r, s')" and "\<And>e. r = Err e \<Longrightarrow> \<not> isClientClosedErr e"
  shows "withReconnectOnClosed E rs op s = Some (r, s')"
  using assms by (cases r) (simp_all add: withReconnectOnClosed_def prog_simps)

text \<open>
  A storage value is usable when its client is open, or when it was closed and a new client can
  be made.
\<close>

definition usable_with :: "('w \<Rightarrow> nat \<Rightarrow> bool) \<Rightarrow> ('w \<Rightarrow> nat \<Rightarrow> bool) \<Rightarrow> ('w \<Rightarrow> universal_options \<Rightarrow> bool)
    \<Rightarrow> 'w sysenv \<Rightarrow> RedisStorage \<Rightarrow> 'w proc \<Rightarrow> bool" where
  "usable_with up closed reach E rs s \<longleftrightarrow> (\<exists>c. client rs = Some c \<and> (up (world s) c \<or> closed (world s) c
     \<and> (\<exists>kd opts. client_plan E rs = Inr (kd, opts) \<and> reach (world s) opts)))"

context redis_server
begin

lemma closeClient_conn:
  assumes "redis E = R"
  obtains s' where "closeClient E c s = Some (Ok (), s')" and "view (world s') = view (world s)"
    and "up (world s') = (up (world s))(c := False)" and "closed (world s') = (closed (world s))(c := True)"
    and "reach (world s') = reach (world s)"
    and "reconnectCount s' = reconnectCount s" and "reconnectMetric s' = reconnectMetric s"
  by (rule that [of "s\<lparr>world := api_Close R c (world s)\<rparr>"]) (simp_all add: closeClient_def assms Close)

text \<open>A client that the server accepts is returned open; one that it does not accept is closed again.\<close>

lemma connect_reach:
  assumes E: "redis E = R" and reach: "reach (world s) opts"
  obtains c s' where "connect E kd opts s = Some (Ok c, s')" and "view (world s') = view (world s)"
    and "\<not> up (world s) c" and "\<not> closed (world s) c" and "up (world s') = (up (world s))(c := True)"
    and "closed (world s') = closed (world s)" and "reach (world s') = reach (world s)"
    and "reconnectCount s' = reconnectCount s" and "reconnectMetric s' = reconnectMetric s"
proof -
  obtain c w where new: "api_New R kd opts (world s) = (c, w)" by fastforce
  note N = New [OF new]
  have "up (world (s\<lparr>world := w\<rparr>)) c" using N reach by simp
  from call_up [OF Ping this] obtain s' where s':
    "call (api_Ping R) (Some c) (s\<lparr>world := w\<rparr>) = Some (Ok (), s')"
    "view (world s') = view w" "conn (s\<lparr>world := w\<rparr>) s'"
    by (auto simp: spec_Ping_def)
  show thesis
  proof (rule that [of c s'])
    show "connect E kd opts s = Some (Ok c, s')" by (simp add: connect_def E new prog_simps s')
  qed (use s' N reach in \<open>auto simp: conn_def\<close>)
qed

lemma connect_unreach:
  assumes E: "redis E = R" and reach: "\<not> reach (world s) opts"
  obtains e s' where "connect E kd opts s = Some (Err e, s')" and "view (world s') = view (world s)"
    and "up (world s') = up (world s)" and "reach (world s') = reach (world s)"
    and "reconnectCount s' = reconnectCount s" and "reconnectMetric s' = reconnectMetric s"
proof -
  obtain c w where new: "api_New R kd opts (world s) = (c, w)" by fastforce
  note N = New [OF new]
  have "\<not> up (world (s\<lparr>world := w\<rparr>)) c" "\<not> closed (world (s\<lparr>world := w\<rparr>)) c" using N reach by simp_all
  from call_down [OF Ping this] obtain e s1 where s1:
    "call (api_Ping R) (Some c) (s\<lparr>world := w\<rparr>) = Some (Err e, s1)"
    "view (world s1) = view w" "conn (s\<lparr>world := w\<rparr>) s1" by auto
  obtain s' where s': "closeClient E c s1 = Some (Ok (), s')" "view (world s') = view (world s1)"
    "up (world s') = (up (world s1))(c := False)" "reach (world s') = reach (world s1)"
    "reconnectCount s' = reconnectCount s1" "reconnectMetric s' = reconnectMetric s1"
    by (rule closeClient_conn [OF E])
  show thesis
  proof (rule that [of e s'])
    show "connect E kd opts s = Some (Err e, s')" by (simp add: connect_def E new prog_simps s1 s')
  qed (use s' s1 N reach in \<open>auto simp: conn_def fun_upd_idem_iff\<close>)
qed

lemma buildClient_reach:
  assumes "redis E = R" and "client_plan E rs = Inr (kd, opts)" and "reach (world s) opts"
  obtains c s' where "buildClient E rs s = Some (Ok c, s')" and "view (world s') = view (world s)"
    and "\<not> up (world s) c" and "\<not> closed (world s) c" and "up (world s') = (up (world s))(c := True)"
    and "closed (world s') = closed (world s)" and "reach (world s') = reach (world s)"
    and "reconnectCount s' = reconnectCount s" and "reconnectMetric s' = reconnectMetric s"
  using connect_reach [OF assms(1,3), of kd thesis] assms(2) by (simp add: buildClient_plan)

text \<open>
  The retry: the first run failed because the client is closed; the second runs on a client that
  was not open before and is closed afterwards; the counter moves by one.
\<close>

lemma reconnect_retry:
  assumes E: "redis E = R" and plan: "client_plan E rs = Inr (kd, opts)"
    and first: "op (client rs) s = Some (Err e, s1)" "isClientClosedErr e" "view (world s1) = view (world s)" "conn s s1"
    and reach: "reach (world s) opts"
  obtains c s2 where "withReconnectOnClosed E rs op s =
      finallyP (op (Some c)) (\<lambda>t. t\<lparr>world := api_Close R c (world t)\<rparr>) s2"
    and "view (world s2) = view (world s)" and "\<not> up (world s) c" and "\<not> closed (world s) c"
    and "up (world s2) = (up (world s))(c := True)" and "closed (world s2) = closed (world s)"
    and "reach (world s2) = reach (world s)"
    and "reconnectCount s2 = reconnectCount s + 1" and "reconnectMetric s2 = Suc (reconnectMetric s)"
proof -
  have "reach (world s1) opts" using reach first(4) by (simp add: conn_def)
  from buildClient_reach [OF E plan this] obtain c s' where s':
    "buildClient E rs s1 = Some (Ok c, s')" "view (world s') = view (world s1)"
    "\<not> up (world s1) c" "\<not> closed (world s1) c" "up (world s') = (up (world s1))(c := True)"
    "closed (world s') = closed (world s1)" "reach (world s') = reach (world s1)"
    "reconnectCount s' = reconnectCount s1" "reconnectMetric s' = reconnectMetric s1" by metis
  show thesis
  proof (rule that [of c "bumpReconnect s'"])
    show "withReconnectOnClosed E rs op s =
        finallyP (op (Some c)) (\<lambda>t. t\<lparr>world := api_Close R c (world t)\<rparr>) (bumpReconnect s')"
      using first(1,2) s'(1) E
      by (simp add: withReconnectOnClosed_def prog_simps finallyP_def)
  qed (use s' first in \<open>auto simp: conn_def bumpReconnect_def\<close>)
qed

abbreviation usable :: "'w sysenv \<Rightarrow> RedisStorage \<Rightarrow> 'w proc \<Rightarrow> bool" where
  "usable \<equiv> usable_with up closed reach"

lemmas usable_def = usable_with_def

text \<open>What an operation guarantees on an open client it guarantees on a usable storage.\<close>

lemma with_reconnect:
  assumes E: "redis E = R" and use: "usable E rs s"
    and live: "\<And>c t. up (world t) c \<Longrightarrow> view (world t) = view (world s) \<Longrightarrow>
        \<exists>r t'. op (Some c) t = Some (r, t') \<and> conn t t' \<and> Q r (view (world t'))
          \<and> (\<forall>e. r = Err e \<longrightarrow> \<not> isClientClosedErr e)"
    and dead: "\<And>c t. closed (world t) c \<Longrightarrow> \<exists>e t'. op (Some c) t = Some (Err e, t') \<and> isClientClosedErr e
        \<and> conn t t' \<and> view (world t') = view (world t)"
  obtains r s' where "withReconnectOnClosed E rs op s = Some (r, s')" and "Q r (view (world s'))"
    and "up (world s') = up (world s)" and "usable E rs s'"
proof -
  from use obtain c where c: "client rs = Some c" by (auto simp: usable_def)
  show thesis
  proof (cases "up (world s) c")
    case True
    from live [OF this refl] obtain r t' where t': "op (Some c) s = Some (r, t')" "conn s t'"
      "Q r (view (world t'))" "\<forall>e. r = Err e \<longrightarrow> \<not> isClientClosedErr e" by blast
    show thesis
    proof (rule that [of r t'])
      show "withReconnectOnClosed E rs op s = Some (r, t')"
        using t' c by (intro reconnect_passthrough) auto
    qed (use t' use in \<open>auto simp: conn_def usable_def\<close>)
  next
    case False
    with use c obtain kd opts where cl: "closed (world s) c" "client_plan E rs = Inr (kd, opts)"
      "reach (world s) opts" by (auto simp: usable_def)
    from dead [OF cl(1)] obtain e s1 where s1: "op (client rs) s = Some (Err e, s1)"
      "isClientClosedErr e" "view (world s1) = view (world s)" "conn s s1" using c by auto
    obtain f s2 where s2: "withReconnectOnClosed E rs op s =
        finallyP (op (Some f)) (\<lambda>t. t\<lparr>world := api_Close R f (world t)\<rparr>) s2"
      "view (world s2) = view (world s)" "\<not> up (world s) f" "\<not> closed (world s) f"
      "up (world s2) = (up (world s))(f := True)" "closed (world s2) = closed (world s)"
      "reach (world s2) = reach (world s)"
      "reconnectCount s2 = reconnectCount s + 1" "reconnectMetric s2 = Suc (reconnectMetric s)"
      by (rule reconnect_retry [where op = op and rs = rs, OF E cl(2) s1 cl(3)])
    from live [of s2 f] s2 obtain r t' where t': "op (Some f) s2 = Some (r, t')" "conn s2 t'"
      "Q r (view (world t'))" by auto
    let ?s' = "t'\<lparr>world := api_Close R f (world t')\<rparr>"
    show thesis
    proof (rule that [of r ?s'])
      show "withReconnectOnClosed E rs op s = Some (r, ?s')" using s2(1) t'(1) by (simp add: prog_simps)
      show "up (world ?s') = up (world s)"
        using t'(2) s2 by (auto simp: conn_def Close fun_eq_iff)
      show "usable E rs ?s'"
        using t'(2) s2 use c by (auto simp: conn_def Close usable_def)
    qed (use t' in \<open>simp add: Close\<close>)
  qed
qed

end

end
