(* ===== verification/Dir_Index.thy ===== *)
theory Dir_Index
  imports Reconnect
begin

section \<open>The directory index\<close>

text \<open>
  \<open>storage.go\<close>: key prefixing, and the index of sorted sets that \<open>List\<close> walks. The set at a
  directory key holds one member per child, a directory child with a trailing slash.
  The main results: for a set \<open>F\<close> of stored files, \<open>index_of F\<close> says exactly which sorted
  sets exist and what they hold, and \<open>storeDirectoryRecord\<close> and
  \<open>deleteDirectoryRecord\<close> take the index of \<open>F\<close> to the index of \<open>insert p F\<close> and
  \<open>F - {p}\<close>.
\<close>

subsection \<open>Definitions\<close>

definition keyPathSeparator :: string where "keyPathSeparator = ''/''"

definition prefixKey :: "RedisStorage \<Rightarrow> string \<Rightarrow> string" where
  "prefixKey rs key = path_Join [KeyPrefix rs, key]"

definition prefixLock :: "RedisStorage \<Rightarrow> string \<Rightarrow> string" where
  "prefixLock rs key = prefixKey rs (path_Join [''locks'', key])"

definition trimKey :: "RedisStorage \<Rightarrow> string \<Rightarrow> string" where
  "trimKey rs key = TrimPrefix (TrimPrefix key (KeyPrefix rs)) keyPathSeparator"

definition splitDirectoryKey :: "string \<Rightarrow> bool \<Rightarrow> string \<times> string" where
  "splitDirectoryKey key baseIsDir =
     (let dir = path_Dir key; base = path_Base key
      in (dir, if baseIsDir then base @ keyPathSeparator else base))"

partial_function (option) storeDirectoryRecord ::
    "'w redis_api \<Rightarrow> nat option \<Rightarrow> string \<Rightarrow> int \<Rightarrow> bool \<Rightarrow> bool \<Rightarrow> ('w proc, unit) prog" where
  "storeDirectoryRecord R c key score repair baseIsDir s =
     (case splitDirectoryKey key baseIsDir of (dir, base) \<Rightarrow>
        if dir = ''.'' then Some (Ok (), s)
        else bindP (wrapP (errorf_v (''Unable to add '' @ base @ '' to Set '' @ dir @ '': ''))
                     (call (api_ZAdd R dir score base) c))
               (\<lambda>success s. if success > 0 \<or> repair
                            then storeDirectoryRecord R c dir score repair True s else ret () s) s)"

definition existsRawKey :: "'w redis_api \<Rightarrow> nat option \<Rightarrow> string \<Rightarrow> ('w proc, bool) prog" where
  "existsRawKey R c redisKey = bindP (call (api_Exists R redisKey) c) (\<lambda>n. ret (n > 0))"

definition existsKey :: "'w redis_api \<Rightarrow> RedisStorage \<Rightarrow> nat option \<Rightarrow> string \<Rightarrow> ('w proc, bool) prog" where
  "existsKey R rs c key =
     wrapP (errorf_v (''Unable to check existence for '' @ key @ '': '')) (existsRawKey R c (prefixKey rs key))"

partial_function (option) deleteDirectoryRecord ::
    "'w redis_api \<Rightarrow> nat option \<Rightarrow> string \<Rightarrow> bool \<Rightarrow> ('w proc, unit) prog" where
  "deleteDirectoryRecord R c key baseIsDir s =
     (case splitDirectoryKey key baseIsDir of (dir, base) \<Rightarrow>
        if dir = ''.'' then Some (Ok (), s)
        else bindP (wrapP (errorf_v (''Unable to remove '' @ base @ '' from Set '' @ dir @ '': ''))
                     (call (api_ZRem R dir base) c))
               (\<lambda>_. bindP (wrapP (errorf_v (''Unable to check existence for '' @ dir @ '': ''))
                             (existsRawKey R c dir))
                      (\<lambda>exists s. if \<not> exists then deleteDirectoryRecord R c dir True s else ret () s)) s)"

subsection \<open>Keys of canonical paths\<close>

lemma splitDirectoryKey_canon [canon_simps]:
  "canon (ps @ [b]) \<Longrightarrow> splitDirectoryKey (pjoin (ps @ [b])) d =
     (if ps = [] then ''.'' else pjoin ps, if d then b @ ''/'' else b)"
  by (simp add: splitDirectoryKey_def Let_def keyPathSeparator_def path_Dir_snoc path_Base_snoc)

lemma prefixKey_canon [canon_simps]:
  "KeyPrefix rs = pjoin pre \<Longrightarrow> canon pre \<Longrightarrow> canon k \<Longrightarrow> prefixKey rs (pjoin k) = pjoin (pre @ k)"
  by (simp add: prefixKey_def path_Join_canon)

lemma prefixLock_canon [canon_simps]:
  assumes "KeyPrefix rs = pjoin pre" and "canon pre" and "canon k"
  shows "prefixLock rs (pjoin k) = pjoin (pre @ ''locks'' # k)"
proof -
  have "path_Join [pjoin [''locks''], pjoin k] = pjoin ([''locks''] @ k)"
    using assms by (intro path_Join_canon) (simp_all add: seg_ok_def)
  with assms show ?thesis
    by (simp add: prefixLock_def prefixKey_canon seg_ok_def)
qed

text \<open>\<open>trimKey\<close> undoes \<open>prefixKey\<close>.\<close>

lemma trimKey_prefixKey:
  assumes "KeyPrefix rs = pjoin pre" and "canon pre" and "canon k"
  shows "trimKey rs (prefixKey rs (pjoin k)) = pjoin k"
proof (cases "pre = [] \<or> k = []")
  case True
  have "TrimPrefix (pjoin k) ''/'' = pjoin k"
    using pjoin_not_rooted [OF assms(3)] by (simp add: TrimPrefix_def)
  moreover have "TrimPrefix (pjoin pre) (pjoin pre) = []" using TrimPrefix_append [of "pjoin pre" "[]"] by simp
  moreover have "TrimPrefix s [] = s" for s by (simp add: TrimPrefix_def)
  ultimately show ?thesis
    using True assms by (auto simp: prefixKey_canon trimKey_def keyPathSeparator_def TrimPrefix_def HasPrefix_def)
next
  case False
  then have "pjoin (pre @ k) = pjoin pre @ ''/'' @ pjoin k" by (simp add: Join_with_append)
  with assms show ?thesis
    by (simp add: prefixKey_canon trimKey_def keyPathSeparator_def TrimPrefix_def HasPrefix_def)
qed

subsection \<open>The index of a set of files\<close>

text \<open>
  \<open>children F q\<close>: the members the set at directory \<open>q\<close> must have. \<open>index_of t F db\<close>: below
  the top segment \<open>t\<close>, exactly the directories of \<open>F\<close> have a sorted set, with these members.
\<close>

definition children :: "string list set \<Rightarrow> string list \<Rightarrow> string set" where
  "children F q = {b. q @ [b] \<in> F} \<union> {d @ ''/'' | d. \<exists>r. r \<noteq> [] \<and> q @ d # r \<in> F}"

definition dir_at :: "rdb \<Rightarrow> string list \<Rightarrow> string set \<Rightarrow> bool" where
  "dir_at db q M = (if M = {} then (\<forall>z. db (pjoin q) \<noteq> Some (RZSet z))
     else (\<exists>z. db (pjoin q) = Some (RZSet z) \<and> distinct (map fst z) \<and> members z = M))"

definition paths_under :: "string \<Rightarrow> string list set" where
  "paths_under t = {p. canon p \<and> p \<noteq> [] \<and> hd p = t}"

definition index_of :: "string \<Rightarrow> string list set \<Rightarrow> rdb \<Rightarrow> bool" where
  "index_of t F db \<longleftrightarrow> finite F \<and> F \<subseteq> {p \<in> paths_under t. length p \<ge> 2}
     \<and> (\<forall>q \<in> paths_under t. dir_at db q (children F q))"

text \<open>Two keyspaces hold the same strings.\<close>

definition strings_same :: "rdb \<Rightarrow> rdb \<Rightarrow> bool" where
  "strings_same db db' \<longleftrightarrow> (\<forall>k v. db' k = Some (RStr v) \<longleftrightarrow> db k = Some (RStr v))"

definition no_file_above :: "rdb \<Rightarrow> string list \<Rightarrow> bool" where
  "no_file_above db p \<longleftrightarrow> (\<forall>q r v. p = q @ r \<longrightarrow> q \<noteq> [] \<longrightarrow> r \<noteq> [] \<longrightarrow> db (pjoin q) \<noteq> Some (RStr v))"

lemma children_insert:
  "children (insert p F) q = children F q \<union>
     (if \<exists>b. p = q @ [b] then {last p} else {}) \<union>
     {d @ ''/'' | d. \<exists>r. r \<noteq> [] \<and> p = q @ d # r}"
  by (auto simp: children_def)

lemma children_empty_iff: "children F q = {} \<longleftrightarrow> (\<forall>r. r \<noteq> [] \<longrightarrow> q @ r \<notin> F)"
proof
  assume C: "children F q = {}"
  show "\<forall>r. r \<noteq> [] \<longrightarrow> q @ r \<notin> F"
  proof (intro allI impI notI)
    fix r assume "r \<noteq> []" and F: "q @ r \<in> F"
    then obtain d r' where r: "r = d # r'" by (cases r) auto
    with F have "(if r' = [] then d else d @ ''/'') \<in> children F q" by (auto simp: children_def)
    with C show False by simp
  qed
qed (auto simp: children_def)

lemma dir_member_unique:
  assumes "seg_ok d" and "seg_ok d'" and "(if a then d @ ''/'' else d) = (if a' then d' @ ''/'' else d')"
  shows "a = a' \<and> d = d'"
proof -
  have "last d \<noteq> CHR ''/''" if "seg_ok d" for d using that by (auto simp: seg_ok_def dest: last_in_set)
  with assms show ?thesis by (metis append1_eq_conv last_snoc)
qed

subsection \<open>Adding a record\<close>

definition zmem :: "rdb \<Rightarrow> string list \<Rightarrow> string set" where
  "zmem db q = (case db (pjoin q) of Some (RZSet z) \<Rightarrow> members z | _ \<Rightarrow> {})"

definition zdist :: "rdb \<Rightarrow> string list \<Rightarrow> bool" where
  "zdist db q = (case db (pjoin q) of Some (RZSet z) \<Rightarrow> distinct (map fst z) | _ \<Rightarrow> True)"

text \<open>Every directory above \<open>p\<close> is listed in its own parent.\<close>

definition linked :: "rdb \<Rightarrow> string list \<Rightarrow> bool" where
  "linked db p \<longleftrightarrow> (\<forall>q d r z. p = q @ d # r \<longrightarrow> q \<noteq> [] \<longrightarrow> r \<noteq> []
     \<longrightarrow> db (pjoin (q @ [d])) = Some (RZSet z) \<longrightarrow> d @ ''/'' \<in> zmem db q)"

text \<open>\<open>db'\<close> is \<open>db\<close> with the member for the next segment of \<open>p\<close> in the set of every directory above it.\<close>

definition added :: "bool \<Rightarrow> string list \<Rightarrow> rdb \<Rightarrow> rdb \<Rightarrow> bool" where
  "added isdir p db db' \<longleftrightarrow>
     (\<forall>k. (\<forall>q r. p = q @ r \<longrightarrow> q \<noteq> [] \<longrightarrow> r \<noteq> [] \<longrightarrow> k \<noteq> pjoin q) \<longrightarrow> db' k = db k) \<and>
     (\<forall>q b r. p = q @ b # r \<longrightarrow> q \<noteq> [] \<longrightarrow>
        (\<exists>z. db' (pjoin q) = Some (RZSet z) \<and> (zdist db q \<longrightarrow> distinct (map fst z))
           \<and> members z = insert (if r = [] \<and> \<not> isdir then b else b @ ''/'') (zmem db q)))"

lemma linked_chain:
  assumes "linked db (ps @ [b])" and "db (pjoin ps) = Some (RZSet z)"
  shows "ps = q @ d # r \<Longrightarrow> q \<noteq> [] \<Longrightarrow> d @ ''/'' \<in> zmem db q"
proof (induction r arbitrary: q d)
  case Nil
  then show ?case using assms by (auto simp: linked_def)
next
  case (Cons x r)
  then have "x @ ''/'' \<in> zmem db (q @ [d])" using Cons.IH [of "q @ [d]" x] by simp
  then obtain z' where "db (pjoin (q @ [d])) = Some (RZSet z')"
    by (auto simp: zmem_def split: option.splits rval.splits)
  with assms(1) Cons.prems show ?case by (auto simp: linked_def)
qed

lemma zmem_zset: "m \<in> zmem db q \<Longrightarrow> \<exists>z. db (pjoin q) = Some (RZSet z)"
  by (auto simp: zmem_def split: option.splits rval.splits)

lemma pjoin_upd_other:
  "canon p \<Longrightarrow> canon q \<Longrightarrow> p \<noteq> q \<Longrightarrow> (db(pjoin p := v)) (pjoin q) = db (pjoin q)"
  by (auto dest: pjoin_inj)

lemma zmem_upd_other: "canon p \<Longrightarrow> canon q \<Longrightarrow> p \<noteq> q \<Longrightarrow> zmem (db(pjoin p := v)) q = zmem db q"
  by (simp add: zmem_def pjoin_eq_iff)

lemma zdist_upd_other: "canon p \<Longrightarrow> canon q \<Longrightarrow> p \<noteq> q \<Longrightarrow> zdist (db(pjoin p := v)) q = zdist db q"
  by (simp add: zdist_def pjoin_eq_iff)

text \<open>Changing the set at \<open>ps\<close> does not affect what is required above \<open>ps\<close>.\<close>

lemma no_file_above_upd:
  "canon ps \<Longrightarrow> no_file_above db (ps @ [b]) \<Longrightarrow> no_file_above (db(pjoin ps := v)) ps"
  unfolding no_file_above_def
  by (auto simp: pjoin_upd_other) (metis append_assoc append_self_conv append_is_Nil_conv canon_simps_list(3) pjoin_inj)

lemma linked_upd:
  assumes "canon ps" and "linked db (ps @ [b])"
  shows "linked (db(pjoin ps := v)) ps"
  unfolding linked_def
proof (intro allI impI)
  fix q d r z
  assume p: "ps = q @ d # r" "q \<noteq> []" "r \<noteq> []" and z: "(db(pjoin ps := v)) (pjoin (q @ [d])) = Some (RZSet z)"
  have c: "canon q" "canon (q @ [d])" "q \<noteq> ps" "q @ [d] \<noteq> ps" using assms(1) p by auto
  have "db (pjoin (q @ [d])) = Some (RZSet z)" using z c assms(1) by (metis pjoin_upd_other)
  with assms(2) p have "d @ ''/'' \<in> zmem db q" by (auto simp: linked_def)
  with c assms(1) show "d @ ''/'' \<in> zmem (db(pjoin ps := v)) q" by (metis zmem_upd_other)
qed

text \<open>One more level: the set at \<open>ps\<close> got its member and the directories above \<open>ps\<close> theirs.\<close>

lemma added_snoc:
  assumes c: "canon (ps @ [b])" and ps: "ps \<noteq> []"
    and m: "m = (if isdir then b @ ''/'' else b)"
    and z: "members z1 = insert m (zmem db ps)" "zdist db ps \<longrightarrow> distinct (map fst z1)"
    and A: "added True ps (db(pjoin ps \<mapsto> RZSet z1)) db'"
  shows "added isdir (ps @ [b]) db db'"
  unfolding added_def
proof (intro conjI allI impI)
  fix k assume k: "\<forall>q r. ps @ [b] = q @ r \<longrightarrow> q \<noteq> [] \<longrightarrow> r \<noteq> [] \<longrightarrow> k \<noteq> pjoin q"
  with ps have "k \<noteq> pjoin ps" by blast
  moreover have "\<forall>q r. ps = q @ r \<longrightarrow> q \<noteq> [] \<longrightarrow> r \<noteq> [] \<longrightarrow> k \<noteq> pjoin q" using k by auto
  ultimately show "db' k = db k" using A by (simp add: added_def)
next
  fix q x r assume p: "ps @ [b] = q @ x # r" and q: "q \<noteq> []"
  show "\<exists>z. db' (pjoin q) = Some (RZSet z) \<and> (zdist db q \<longrightarrow> distinct (map fst z)) \<and>
      members z = insert (if r = [] \<and> \<not> isdir then x else x @ ''/'') (zmem db q)"
  proof (cases r rule: rev_cases)
    case Nil
    with p have eq: "q = ps" "x = b" by auto
    have "\<forall>q r. ps = q @ r \<longrightarrow> q \<noteq> [] \<longrightarrow> r \<noteq> [] \<longrightarrow> pjoin ps \<noteq> pjoin q"
      using c by (metis append_self_conv canon_simps_list(3) pjoin_inj)
    with A have "db' (pjoin ps) = Some (RZSet z1)" by (simp add: added_def)
    with z m eq Nil show ?thesis by auto
  next
    case (snoc r' y)
    with p have r: "ps = q @ x # r'" by auto
    with c have cq: "canon ps" "canon q" "ps \<noteq> q" by auto
    from A r q have "\<exists>z2. db' (pjoin q) = Some (RZSet z2)
      \<and> (zdist (db(pjoin ps \<mapsto> RZSet z1)) q \<longrightarrow> distinct (map fst z2))
      \<and> members z2 = insert (x @ ''/'') (zmem (db(pjoin ps \<mapsto> RZSet z1)) q)"
      unfolding added_def by simp
    with snoc cq show ?thesis by (simp add: zmem_upd_other zdist_upd_other)
  qed
qed

lemma added_strings: "no_file_above db p \<Longrightarrow> added isdir p db db' \<Longrightarrow> strings_same db db'"
  unfolding strings_same_def
proof (intro allI)
  fix k v assume nf: "no_file_above db p" and A: "added isdir p db db'"
  show "(db' k = Some (RStr v)) = (db k = Some (RStr v))"
  proof (cases "\<exists>q r. p = q @ r \<and> q \<noteq> [] \<and> r \<noteq> [] \<and> k = pjoin q")
    case True
    then obtain q b r where q: "p = q @ b # r" "q \<noteq> []" "k = pjoin q" by (metis list.exhaust)
    then have "db k \<noteq> Some (RStr v)" using nf unfolding no_file_above_def by blast
    moreover have "\<exists>z. db' k = Some (RZSet z)" using A q unfolding added_def by blast
    ultimately show ?thesis by auto
  next
    case False
    with A have "db' k = db k" unfolding added_def by blast
    then show ?thesis by simp
  qed
qed

lemma added_single: "added isdir [b] db db"
  unfolding added_def by (auto simp: Cons_eq_append_conv)

lemma added_stop:
  assumes c: "canon ps" and ps: "ps \<noteq> []" and chain: "\<And>q d r. ps = q @ d # r \<Longrightarrow> q \<noteq> [] \<Longrightarrow> d @ ''/'' \<in> zmem db q"
  shows "added True ps (db(pjoin ps := v)) (db(pjoin ps := v))"
  unfolding added_def
proof (intro conjI allI impI)
  fix q b r assume p: "ps = q @ b # r" "q \<noteq> []"
  with c have cq: "canon q" "ps \<noteq> q" by auto
  from chain [OF p] obtain z where z: "db (pjoin q) = Some (RZSet z)" by (auto dest: zmem_zset)
  with chain [OF p] cq c show "\<exists>z. (db(pjoin ps := v)) (pjoin q) = Some (RZSet z) \<and>
      (zdist (db(pjoin ps := v)) q \<longrightarrow> distinct (map fst z)) \<and>
      members z = insert (if r = [] \<and> \<not> True then b else b @ ''/'') (zmem (db(pjoin ps := v)) q)"
    by (auto simp: pjoin_eq_iff zdist_def zmem_def)
qed simp

lemma index_linked:
  assumes I: "index_of t F db" and p: "p \<in> paths_under t"
  shows "linked db p"
  unfolding linked_def
proof (intro allI impI)
  fix q d r z
  assume eq: "p = q @ d # r" "q \<noteq> []" "r \<noteq> []" and z: "db (pjoin (q @ [d])) = Some (RZSet z)"
  have under: "q \<in> paths_under t" "q @ [d] \<in> paths_under t" using p eq by (auto simp: paths_under_def)
  with I z have "children F (q @ [d]) \<noteq> {}" by (auto simp: index_of_def dir_at_def)
  then obtain r' where "r' \<noteq> []" "q @ d # r' \<in> F" by (auto simp: children_empty_iff)
  then have "d @ ''/'' \<in> children F q" by (auto simp: children_def)
  with I under(1) show "d @ ''/'' \<in> zmem db q" by (fastforce simp: index_of_def dir_at_def zmem_def split: if_splits)
qed

lemma index_zmem: "index_of t F db \<Longrightarrow> q \<in> paths_under t \<Longrightarrow> zmem db q = children F q \<and> zdist db q"
  by (fastforce simp: index_of_def dir_at_def zmem_def zdist_def split: if_splits option.splits rval.splits)

text \<open>The index of \<open>F\<close> with the records for \<open>p\<close> is the index of \<open>insert p F\<close>.\<close>

lemma index_insert:
  assumes I: "index_of t F db" and p: "p \<in> paths_under t" "length p \<ge> 2" and A: "added False p db db'"
  shows "index_of t (insert p F) db'"
  unfolding index_of_def
proof (intro conjI ballI)
  show "finite (insert p F)" "insert p F \<subseteq> {p \<in> paths_under t. length p \<ge> 2}"
    using I p by (auto simp: index_of_def)
  fix q assume q: "q \<in> paths_under t"
  note Z = index_zmem [OF I q]
  show "dir_at db' q (children (insert p F) q)"
  proof (cases "\<exists>b r. p = q @ b # r")
    case True
    then obtain b r where eq: "p = q @ b # r" by blast
    have "q \<noteq> []" using q by (simp add: paths_under_def)
    with A eq obtain z where z: "db' (pjoin q) = Some (RZSet z)" "distinct (map fst z)"
      "members z = insert (if r = [] then b else b @ ''/'') (children F q)"
      using Z unfolding added_def by (metis (no_types, lifting))
    have "children (insert p F) q = insert (if r = [] then b else b @ ''/'') (children F q)"
      using eq by (auto simp: children_def)
    with z show ?thesis by (auto simp: dir_at_def)
  next
    case False
    have "children (insert p F) q = children F q" using False by (auto simp: children_def)
    moreover have "db' (pjoin q) = db (pjoin q)"
    proof -
      have "pjoin q \<noteq> pjoin q'" if "p = q' @ r" "r \<noteq> []" for q' r
      proof -
        have "canon q'" "canon q" "q \<noteq> q'"
          using that False p q by (auto simp: paths_under_def neq_Nil_conv)
        then show ?thesis by (simp add: pjoin_eq_iff)
      qed
      with A show ?thesis by (simp add: added_def)
    qed
    moreover have "dir_at db q (children F q)" using I q by (simp add: index_of_def)
    ultimately show ?thesis by (simp only: dir_at_def)
  qed
qed

context redis_server
begin

text \<open>
  The record of a file below which no file is in the way: the call succeeds, and every directory
  above the file now lists the next segment. The early stop, which repairing does without, is right
  because of \<open>linked\<close>.
\<close>

lemma storeDirectoryRecord_added:
  assumes "canon p" and "p \<noteq> []" and "up (world s) c"
    and "no_file_above (view (world s)) p" and "repair \<or> linked (view (world s)) p"
  shows "\<exists>s'. storeDirectoryRecord R (Some c) (pjoin p) sc repair isdir s = Some (Ok (), s')
    \<and> conn s s' \<and> added isdir p (view (world s)) (view (world s'))"
  using assms
proof (induction p arbitrary: isdir s rule: rev_induct)
  case Nil
  then show ?case by simp
next
  case (snoc b ps)
  let ?db = "view (world s)" and ?m = "if isdir then b @ ''/'' else b"
  note split = splitDirectoryKey_canon [OF snoc.prems(1), of isdir]
  show ?case
  proof (cases "ps = []")
    case True
    have "storeDirectoryRecord R (Some c) (pjoin (ps @ [b])) sc repair isdir s = Some (Ok (), s)"
      using split True by (subst storeDirectoryRecord.simps) simp
    moreover have "added isdir (ps @ [b]) ?db ?db" using True by (simp add: added_single)
    ultimately show ?thesis by auto
  next
    case False
    have cps: "canon ps" using snoc.prems(1) by simp
    note dot = pjoin_neq_dot [OF cps]
    obtain s1 where s1: "call (api_ZAdd R (pjoin ps) sc ?m) (Some c) s =
        Some (case fst (spec_ZAdd (pjoin ps) sc ?m ?db) of Inl e \<Rightarrow> Err e | Inr x \<Rightarrow> Ok x, s1)"
      "view (world s1) = snd (spec_ZAdd (pjoin ps) sc ?m ?db)" "conn s s1"
      using call_up [OF ZAdd snoc.prems(3)] by blast
    have nofile: "\<forall>v. ?db (pjoin ps) \<noteq> Some (RStr v)"
      using snoc.prems(4) False unfolding no_file_above_def by blast
    define z1 where "z1 = (case ?db (pjoin ps) of Some (RZSet z) \<Rightarrow> z_insert ?m sc z | _ \<Rightarrow> [(?m, sc)])"
    define n where "n = (if ?m \<in> zmem ?db ps then 0 else 1 :: int)"
    have eff: "fst (spec_ZAdd (pjoin ps) sc ?m ?db) = Inr n"
        "snd (spec_ZAdd (pjoin ps) sc ?m ?db) = ?db(pjoin ps \<mapsto> RZSet z1)"
      using nofile by (auto simp: spec_ZAdd_def z1_def n_def zmem_def split: option.splits rval.splits)
    have z1: "members z1 = insert ?m (zmem ?db ps)" "zdist ?db ps \<longrightarrow> distinct (map fst z1)"
      unfolding z1_def using nofile
      by (auto simp: zmem_def zdist_def simp flip: set_map split: option.splits rval.splits)
    have run: "storeDirectoryRecord R (Some c) (pjoin (ps @ [b])) sc repair isdir s =
        (if n > 0 \<or> repair then storeDirectoryRecord R (Some c) (pjoin ps) sc repair True s1 else Some (Ok (), s1))"
      using split False dot s1(1) eff by (subst storeDirectoryRecord.simps) (simp add: prog_simps)
    have v1: "view (world s1) = ?db(pjoin ps \<mapsto> RZSet z1)" using s1(2) eff by simp
    have "\<exists>s'. storeDirectoryRecord R (Some c) (pjoin (ps @ [b])) sc repair isdir s = Some (Ok (), s')
        \<and> conn s1 s' \<and> added True ps (view (world s1)) (view (world s'))"
    proof (cases "?m \<in> zmem ?db ps \<and> \<not> repair")
      case True
      then obtain z where "?db (pjoin ps) = Some (RZSet z)" and "linked ?db (ps @ [b])"
        using snoc.prems(5) by (auto dest: zmem_zset)
      from linked_chain [OF this(2,1)]
      have "added True ps (view (world s1)) (view (world s1))"
        unfolding v1 by (intro added_stop [OF cps False])
      with True run show ?thesis by (simp add: n_def)
    next
      case notin: False
      have "up (world s1) c" using snoc.prems(3) s1(3) by (simp add: conn_up)
      moreover have "no_file_above (view (world s1)) ps"
        unfolding v1 by (rule no_file_above_upd [OF cps snoc.prems(4)])
      moreover have "repair \<or> linked (view (world s1)) ps"
        unfolding v1 using linked_upd [OF cps] snoc.prems(5) by blast
      ultimately have "\<exists>s'. storeDirectoryRecord R (Some c) (pjoin ps) sc repair True s1 = Some (Ok (), s')
          \<and> conn s1 s' \<and> added True ps (view (world s1)) (view (world s'))"
        by (rule snoc.IH [OF cps False])
      with notin run show ?thesis by (auto simp: n_def)
    qed
    then obtain s' where s': "storeDirectoryRecord R (Some c) (pjoin (ps @ [b])) sc repair isdir s = Some (Ok (), s')"
      "conn s1 s'" "added True ps (view (world s1)) (view (world s'))" by blast
    have "added isdir (ps @ [b]) ?db (view (world s'))"
      by (rule added_snoc [OF snoc.prems(1) False refl z1]) (use s'(3) v1 in simp)
    with s' s1(3) show ?thesis by (blast intro: conn_trans)
  qed
qed

end

subsection \<open>Removing a record\<close>

lemma seg_ok_no_slash: "seg_ok b \<Longrightarrow> b \<noteq> d @ ''/''"
  by (auto simp: seg_ok_def)

lemma children_remove:
  assumes p: "p = ps @ b # v" and seg: "seg_ok b" and F: "\<forall>p \<in> F. canon p"
    and gone: "v \<noteq> [] \<Longrightarrow> children (F - {p}) (ps @ [b]) = {}"
    and m: "m = (if v = [] then b else b @ ''/'')"
  shows "children (F - {p}) ps = children F ps - {m}"
proof (cases "v = []")
  case True
  with p m seg show ?thesis by (auto simp: children_def dest: seg_ok_no_slash)
next
  case False
  have no: "ps @ b # r \<notin> F - {p}" if "r \<noteq> []" for r
    using gone [OF False] that by (auto simp: children_empty_iff)
  have "m \<notin> children (F - {p}) ps"
  proof
    assume "m \<in> children (F - {p}) ps"
    then consider "ps @ [b @ ''/''] \<in> F" | "\<exists>r. r \<noteq> [] \<and> ps @ b # r \<in> F - {p}"
      using False m by (auto simp: children_def)
    then show False using F no by cases (auto simp: seg_ok_def)
  qed
  with False p m show ?thesis by (auto simp: children_def)
qed

lemma children_keep:
  assumes "p = (q @ d # r) @ w" and "w \<noteq> []" and "children (F - {p}) (q @ d # r) \<noteq> {}"
  shows "children (F - {p}) q = children F q"
proof -
  from assms(3) obtain w' where w': "w' \<noteq> []" "q @ d # (r @ w') \<in> F - {p}" by (auto simp: children_empty_iff)
  have "x \<in> children (F - {p}) q" if "x \<in> children F q" for x
  proof -
    from that consider "q @ [x] \<in> F" | d' r' where "x = d' @ ''/''" "r' \<noteq> []" "q @ d' # r' \<in> F"
      by (auto simp: children_def)
    then show ?thesis
    proof cases
      case 1
      with assms(1,2) show ?thesis by (auto simp: children_def)
    next
      case 2
      show ?thesis
      proof (cases "q @ d' # r' = p")
        case True
        with assms(1) have "d' = d" by simp
        with 2 w' show ?thesis by (auto simp: children_def intro!: exI [of _ "r @ w'"])
      next
        case False
        with 2 show ?thesis by (auto simp: children_def)
      qed
    qed
  qed
  then show ?thesis by (auto simp: children_def)
qed

lemma zrem_dir:
  assumes "dir_at db ps M" and "\<forall>v. db (pjoin ps) \<noteq> Some (RStr v)"
  shows "\<exists>n v. fst (spec_ZRem (pjoin ps) m db) = Inr n \<and> snd (spec_ZRem (pjoin ps) m db) = db(pjoin ps := v)
    \<and> dir_at (db(pjoin ps := v)) ps (M - {m}) \<and> (v = None \<longleftrightarrow> M - {m} = {})
    \<and> (\<forall>x. v \<noteq> Some (RStr x))"
proof (cases "M = {}")
  case True
  with assms have "db (pjoin ps) = None" by (cases "db (pjoin ps)") (auto simp: dir_at_def, metis rval.exhaust)
  with True show ?thesis by (auto simp: spec_ZRem_def dir_at_def fun_upd_idem intro!: exI [of _ None])
next
  case False
  with assms obtain z where z: "db (pjoin ps) = Some (RZSet z)" "distinct (map fst z)" "members z = M"
    by (auto simp: dir_at_def)
  have rem: "z_remove m z = [] \<longleftrightarrow> M - {m} = {}" using z(3) members_z_remove [of m z] by (metis empty_set list.map_disc_iff set_empty)
  show ?thesis
  proof (cases "m \<in> M")
    case True
    define v where "v = (if z_remove m z = [] then None else Some (RZSet (z_remove m z)))"
    have "spec_ZRem (pjoin ps) m db = (Inr 1, db(pjoin ps := v))"
      using z True by (simp add: spec_ZRem_def v_def)
    moreover have "dir_at (db(pjoin ps := v)) ps (M - {m})"
      using z rem members_z_remove [of m z] distinct_z_remove [of z m]
      by (auto simp: dir_at_def v_def simp del: members_z_remove distinct_z_remove)
    moreover have "v = None \<longleftrightarrow> M - {m} = {}" "\<forall>x. v \<noteq> Some (RStr x)"
      using rem by (simp_all add: v_def)
    ultimately show ?thesis by (intro exI [of _ "1::int"] exI [of _ v]) simp
  next
    case False
    then have "spec_ZRem (pjoin ps) m db = (Inr 0, db(pjoin ps := Some (RZSet z)))"
      using z by (auto simp: spec_ZRem_def fun_upd_idem)
    moreover have "M - {m} = M" using False by simp
    ultimately show ?thesis using z \<open>M \<noteq> {}\<close> by (auto simp: dir_at_def)
  qed
qed

text \<open>The index of \<open>F - {p}\<close>, except that the directories strictly above \<open>u\<close> are still those of \<open>F\<close>.\<close>

definition half_index :: "string \<Rightarrow> string list set \<Rightarrow> string list \<Rightarrow> string list \<Rightarrow> rdb \<Rightarrow> bool" where
  "half_index t F p u db \<longleftrightarrow> (\<forall>q \<in> paths_under t.
     dir_at db q (children (if \<exists>r. r \<noteq> [] \<and> u = q @ r then F else F - {p}) q))"

lemma dir_at_upd_other:
  "canon ps \<Longrightarrow> canon q \<Longrightarrow> ps \<noteq> q \<Longrightarrow> dir_at (db(pjoin ps := v)) q M = dir_at db q M"
  by (simp add: dir_at_def pjoin_eq_iff)

lemma half_index_up:
  assumes H: "half_index t F p (ps @ [b]) db" and c: "canon ps"
    and D: "dir_at (db(pjoin ps := v)) ps (children (F - {p}) ps)"
  shows "half_index t F p ps (db(pjoin ps := v))"
  unfolding half_index_def
proof
  fix q assume q: "q \<in> paths_under t"
  show "dir_at (db(pjoin ps := v)) q (children (if \<exists>r. r \<noteq> [] \<and> ps = q @ r then F else F - {p}) q)"
  proof (cases "q = ps")
    case True
    with D show ?thesis by simp
  next
    case False
    then have "(\<exists>r. r \<noteq> [] \<and> ps @ [b] = q @ r) \<longleftrightarrow> (\<exists>r. r \<noteq> [] \<and> ps = q @ r)"
      by (metis append_assoc append_is_Nil_conv append_Nil2 append_eq_append_conv2 butlast_append butlast_snoc)
    moreover have "dir_at db q (children (if \<exists>r. r \<noteq> [] \<and> ps @ [b] = q @ r then F else F - {p}) q)"
      using H q unfolding half_index_def by (rule bspec)
    ultimately show ?thesis using False c q by (simp only: dir_at_upd_other paths_under_def mem_Collect_eq)
  qed
qed

lemma half_index_stop:
  assumes "half_index t F p ps db" and "p = ps @ w" "w \<noteq> []" and "children (F - {p}) ps \<noteq> {}"
  shows "\<forall>q \<in> paths_under t. dir_at db q (children (F - {p}) q)"
proof
  fix q assume q: "q \<in> paths_under t"
  show "dir_at db q (children (F - {p}) q)"
  proof (cases "\<exists>r. r \<noteq> [] \<and> ps = q @ r")
    case True
    then obtain d r where "ps = q @ d # r" by (auto simp: neq_Nil_conv)
    with assms have "children (F - {p}) q = children F q" by (intro children_keep) auto
    with assms(1) q True show ?thesis by (auto simp: half_index_def)
  next
    case False
    have "dir_at db q (children (if \<exists>r. r \<noteq> [] \<and> ps = q @ r then F else F - {p}) q)"
      using assms(1) q unfolding half_index_def by (rule bspec)
    then show ?thesis unfolding if_not_P [OF False] .
  qed
qed

context redis_server
begin

lemma deleteDirectoryRecord_half:
  assumes "u \<in> paths_under t" and "p = u @ v" and "up (world s) c"
    and "no_file_above (view (world s)) u" and "\<forall>p \<in> F. canon p"
    and "half_index t F p u (view (world s))" and "v \<noteq> [] \<Longrightarrow> children (F - {p}) u = {}"
  shows "\<exists>s'. deleteDirectoryRecord R (Some c) (pjoin u) (v \<noteq> []) s = Some (Ok (), s') \<and> conn s s'
    \<and> (\<forall>q \<in> paths_under t. dir_at (view (world s')) q (children (F - {p}) q))
    \<and> (\<forall>k. (\<forall>q r. u = q @ r \<longrightarrow> q \<noteq> [] \<longrightarrow> r \<noteq> [] \<longrightarrow> k \<noteq> pjoin q) \<longrightarrow> view (world s') k = view (world s) k)
    \<and> strings_same (view (world s)) (view (world s'))"
  using assms
proof (induction u arbitrary: v s rule: rev_induct)
  case Nil
  then show ?case by (simp add: paths_under_def)
next
  case (snoc b ps)
  let ?db = "view (world s)"
  define m where "m = (if v = [] then b else b @ ''/'')"
  have c: "canon (ps @ [b])" using snoc.prems(1) by (simp add: paths_under_def)
  have split: "splitDirectoryKey (pjoin (ps @ [b])) (v \<noteq> []) = (if ps = [] then ''.'' else pjoin ps, m)"
    using splitDirectoryKey_canon [OF c, of "v \<noteq> []"] by (simp add: m_def)
  show ?case
  proof (cases "ps = []")
    case True
    have "deleteDirectoryRecord R (Some c) (pjoin (ps @ [b])) (v \<noteq> []) s = Some (Ok (), s)"
      using split True by (subst deleteDirectoryRecord.simps) simp
    moreover have "\<forall>q \<in> paths_under t. dir_at ?db q (children (F - {p}) q)"
      using snoc.prems(6) True unfolding half_index_def paths_under_def by (auto simp: Cons_eq_append_conv)
    ultimately show ?thesis by (auto simp: strings_same_def)
  next
    case ps: False
    have cps: "canon ps" "ps \<in> paths_under t" using snoc.prems(1) ps by (auto simp: paths_under_def)
    note dot = pjoin_neq_dot [OF cps(1)]
    have nofile: "\<forall>v. ?db (pjoin ps) \<noteq> Some (RStr v)"
      using snoc.prems(4) ps unfolding no_file_above_def by blast
    have rem: "children (F - {p}) ps = children F ps - {m}"
      using snoc.prems c by (intro children_remove [of p ps b v]) (auto simp: m_def)
    have "dir_at ?db ps (children F ps)"
      using snoc.prems(6) cps(2) unfolding half_index_def by fastforce
    from zrem_dir [OF this nofile, of m] obtain n x where x:
      "fst (spec_ZRem (pjoin ps) m ?db) = Inr n" "snd (spec_ZRem (pjoin ps) m ?db) = ?db(pjoin ps := x)"
      "dir_at (?db(pjoin ps := x)) ps (children (F - {p}) ps)" "x = None \<longleftrightarrow> children (F - {p}) ps = {}"
      "\<forall>y. x \<noteq> Some (RStr y)"
      unfolding rem by blast
    obtain s1 where s1: "call (api_ZRem R (pjoin ps) m) (Some c) s = Some (Ok n, s1)"
      "view (world s1) = ?db(pjoin ps := x)" "conn s s1"
      using call_up [OF ZRem snoc.prems(3), of "pjoin ps" m] x by auto
    have up1: "up (world s1) c" using snoc.prems(3) s1(3) by (simp add: conn_up)
    obtain s2 where s2: "call (api_Exists R (pjoin ps)) (Some c) s1 = Some (Ok (if x = None then 0 else 1), s2)"
      "view (world s2) = ?db(pjoin ps := x)" "conn s1 s2"
      using call_up [OF Exists up1, of "pjoin ps"] s1(2) by (auto simp: spec_Exists_def)
    have run: "deleteDirectoryRecord R (Some c) (pjoin (ps @ [b])) (v \<noteq> []) s =
        (if x = None then deleteDirectoryRecord R (Some c) (pjoin ps) True s2 else Some (Ok (), s2))"
      using split ps dot s1(1) s2(1)
      by (subst deleteDirectoryRecord.simps) (simp add: existsRawKey_def prog_simps)
    have H: "half_index t F p ps (view (world s2))"
      unfolding s2(2) by (rule half_index_up [OF snoc.prems(6) cps(1) x(3)])
    have frame: "view (world s2) k = ?db k" if "k \<noteq> pjoin ps" for k using that s2(2) by simp
    have str: "strings_same ?db (view (world s2))"
      unfolding s2(2) strings_same_def using nofile x(5) by simp
    show ?thesis
    proof (cases "x = None")
      case True
      have "no_file_above (view (world s2)) ps"
        unfolding s2(2) by (rule no_file_above_upd [OF cps(1) snoc.prems(4)])
      moreover have "up (world s2) c" using up1 s2(3) by (simp add: conn_up)
      moreover have "p = ps @ (b # v)" using snoc.prems(2) by simp
      ultimately obtain s' where s': "deleteDirectoryRecord R (Some c) (pjoin ps) True s2 = Some (Ok (), s')"
        "conn s2 s'" "\<forall>q \<in> paths_under t. dir_at (view (world s')) q (children (F - {p}) q)"
        "\<forall>k. (\<forall>q r. ps = q @ r \<longrightarrow> q \<noteq> [] \<longrightarrow> r \<noteq> [] \<longrightarrow> k \<noteq> pjoin q) \<longrightarrow> view (world s') k = view (world s2) k"
        "strings_same (view (world s2)) (view (world s'))"
        using snoc.IH [OF cps(2), of "b # v" s2] snoc.prems(5) H True x(4) by auto
      have "\<forall>k. (\<forall>q r. ps @ [b] = q @ r \<longrightarrow> q \<noteq> [] \<longrightarrow> r \<noteq> [] \<longrightarrow> k \<noteq> pjoin q) \<longrightarrow> view (world s') k = ?db k"
      proof (intro allI impI)
        fix k assume k: "\<forall>q r. ps @ [b] = q @ r \<longrightarrow> q \<noteq> [] \<longrightarrow> r \<noteq> [] \<longrightarrow> k \<noteq> pjoin q"
        with ps have "k \<noteq> pjoin ps" by blast
        moreover have "\<forall>q r. ps = q @ r \<longrightarrow> q \<noteq> [] \<longrightarrow> r \<noteq> [] \<longrightarrow> k \<noteq> pjoin q" using k by auto
        ultimately show "view (world s') k = ?db k" using s'(4) frame by simp
      qed
      moreover have "strings_same ?db (view (world s'))"
        using str s'(5) by (simp add: strings_same_def)
      ultimately show ?thesis using s' run True s1(3) s2(3) by (auto intro: conn_trans)
    next
      case False
      have "\<forall>q \<in> paths_under t. dir_at (view (world s2)) q (children (F - {p}) q)"
        using half_index_stop [OF H, of "b # v"] snoc.prems(2) False x(4) by simp
      moreover have "\<forall>k. (\<forall>q r. ps @ [b] = q @ r \<longrightarrow> q \<noteq> [] \<longrightarrow> r \<noteq> [] \<longrightarrow> k \<noteq> pjoin q) \<longrightarrow> view (world s2) k = ?db k"
        using ps frame by blast
      ultimately show ?thesis using run False s1(3) s2(3) str by (auto intro: conn_trans)
    qed
  qed
qed

text \<open>Store and delete of a record, on the index of a set of files.\<close>

lemma storeDirectoryRecord_index:
  assumes "index_of t F (view (world s))" and "p \<in> paths_under t" "length p \<ge> 2" and "up (world s) c"
    and "no_file_above (view (world s)) p"
  obtains s' where "storeDirectoryRecord R (Some c) (pjoin p) sc False False s = Some (Ok (), s')"
    and "conn s s'" and "index_of t (insert p F) (view (world s'))"
    and "added False p (view (world s)) (view (world s'))"
proof -
  have "canon p" "p \<noteq> []" using assms(2) by (simp_all add: paths_under_def)
  from storeDirectoryRecord_added [OF this assms(4,5) disjI2 [OF index_linked [OF assms(1,2)]]]
  show thesis using that index_insert [OF assms(1-3)] by blast
qed

lemma deleteDirectoryRecord_index:
  assumes I: "index_of t F (view (world s))" and p: "p \<in> paths_under t" and "up (world s) c"
    and "no_file_above (view (world s)) p"
  obtains s' where "deleteDirectoryRecord R (Some c) (pjoin p) False s = Some (Ok (), s')"
    and "conn s s'" and "index_of t (F - {p}) (view (world s'))"
    and "\<forall>k. (\<forall>q r. p = q @ r \<longrightarrow> q \<noteq> [] \<longrightarrow> r \<noteq> [] \<longrightarrow> k \<noteq> pjoin q) \<longrightarrow> view (world s') k = view (world s) k"
    and "strings_same (view (world s)) (view (world s'))"
proof -
  have H: "half_index t F p p (view (world s))"
    unfolding half_index_def
  proof
    fix q assume q: "q \<in> paths_under t"
    have "children (F - {p}) q = children F q" if "\<nexists>r. r \<noteq> [] \<and> p = q @ r"
      using that by (auto simp: children_def)
    with I q show "dir_at (view (world s)) q (children (if \<exists>r. r \<noteq> [] \<and> p = q @ r then F else F - {p}) q)"
      by (auto simp: index_of_def)
  qed
  have "\<forall>p \<in> F. canon p" using I by (auto simp: index_of_def paths_under_def)
  from deleteDirectoryRecord_half [OF p, of p "[]" s c F] assms(3,4) H this
  obtain s' where "deleteDirectoryRecord R (Some c) (pjoin p) False s = Some (Ok (), s')" "conn s s'"
    "\<forall>q \<in> paths_under t. dir_at (view (world s')) q (children (F - {p}) q)"
    "\<forall>k. (\<forall>q r. p = q @ r \<longrightarrow> q \<noteq> [] \<longrightarrow> r \<noteq> [] \<longrightarrow> k \<noteq> pjoin q) \<longrightarrow> view (world s') k = view (world s) k"
    "strings_same (view (world s)) (view (world s'))"
    by auto
  with I show thesis by (intro that [of s']) (auto simp: index_of_def)
qed

end

end
