(* ===== verification/Crypto.thy ===== *)
theory Crypto
  imports Config
begin

section \<open>Encryption of values\<close>

text \<open>
  \<open>crypto.go\<close>. The AES-GCM primitive is a parameter (\<open>Seal\<close> and \<open>Open\<close> under a key and a
  nonce); the key-length check of \<open>aes.NewCipher\<close>, the nonce prefix, the length guard and the
  order in which keys are tried are modelled. The lemmas show the round trip, that reading falls
  back to the additional keys exactly on authentication failures, and which error is reported.
\<close>

subsection \<open>Definitions\<close>

record aead =
  Seal :: "bytes \<Rightarrow> bytes \<Rightarrow> bytes \<Rightarrow> bytes"
  Open :: "bytes \<Rightarrow> bytes \<Rightarrow> bytes \<Rightarrow> bytes option"

definition NonceSize :: nat where "NonceSize = 12"
definition Overhead :: nat where "Overhead = 16"

text \<open>\<open>aes.NewCipher\<close> followed by \<open>cipher.NewGCM\<close>, which accepts every AES block.\<close>

definition NewCipher :: "bytes \<Rightarrow> go_error + bytes" where
  "NewCipher key = (if length key \<in> {16, 24, 32} then Inr key
     else Inl (errors_New (''crypto/aes: invalid key size '' @ Itoa (int (length key)))))"

text \<open>\<open>encrypt\<close>: \<open>rnd\<close> is what reading a nonce from the random source gives.\<close>

definition encrypt :: "aead \<Rightarrow> RedisStorage \<Rightarrow> go_error + bytes \<Rightarrow> bytes \<Rightarrow> go_error + bytes" where
  "encrypt A rs rnd bytes = (case NewCipher (EncryptionKey rs) of
       Inl e \<Rightarrow> Inl (errorf_v ''Unable to create AES cipher: '' e)
     | Inr k \<Rightarrow> (case rnd of
         Inl e \<Rightarrow> Inl (errorf_v ''Unable to generate nonce: '' e)
       | Inr nonce \<Rightarrow> Inr (nonce @ Seal A k nonce bytes)))"

definition authFailure :: go_error where
  "authFailure = \<lparr>err_msg = ''Decryption failure: cipher: message authentication failed'',
     err_chain = [ErrDecryptionFailure]\<rparr>"

definition decryptWithKey :: "aead \<Rightarrow> string \<Rightarrow> bytes \<Rightarrow> go_error + bytes" where
  "decryptWithKey A key bytes = (case NewCipher key of
       Inl e \<Rightarrow> Inl (errorf_v ''Unable to create AES cipher: '' e)
     | Inr k \<Rightarrow>
         if length bytes < NonceSize + Overhead then Inl (errors_New ''Invalid encrypted data'')
         else (case Open A k (take NonceSize bytes) (drop NonceSize bytes) of
             None \<Rightarrow> Inl authFailure
           | Some out \<Rightarrow> Inr out))"

fun tryKeys :: "aead \<Rightarrow> string list \<Rightarrow> bytes \<Rightarrow> bytes option" where
  "tryKeys A [] bytes = None"
| "tryKeys A (key # keys) bytes = (case decryptWithKey A key bytes of
      Inr fallback \<Rightarrow> Some fallback | Inl _ \<Rightarrow> tryKeys A keys bytes)"

definition decrypt :: "aead \<Rightarrow> RedisStorage \<Rightarrow> bytes \<Rightarrow> go_error + bytes" where
  "decrypt A rs bytes = (case decryptWithKey A (EncryptionKey rs) bytes of
       Inr out \<Rightarrow> Inr out
     | Inl err \<Rightarrow>
         if \<not> errors_Is err ErrDecryptionFailure then Inl err
         else (case tryKeys A (DecryptionKeys rs) bytes of
             Some fallback \<Rightarrow> Inr fallback
           | None \<Rightarrow> Inl err))"

subsection \<open>Lemmas\<close>

text \<open>What is used of AES-GCM: opening undoes sealing, and the tag has sixteen bytes.\<close>

definition gcm_laws :: "aead \<Rightarrow> bool" where
  "gcm_laws A \<longleftrightarrow> (\<forall>k n p. length k \<in> {16, 24, 32} \<longrightarrow> length n = NonceSize \<longrightarrow>
     Open A k n (Seal A k n p) = Some p \<and> length (Seal A k n p) = length p + Overhead)"

text \<open>The sealed form of a value under a key, as \<open>encrypt\<close> writes it.\<close>

definition sealed :: "aead \<Rightarrow> string \<Rightarrow> bytes \<Rightarrow> bytes \<Rightarrow> bytes" where
  "sealed A key nonce p = nonce @ Seal A key nonce p"

lemma encrypt_sealed:
  "length (EncryptionKey rs) = 32 \<Longrightarrow> encrypt A rs (Inr nonce) p = Inr (sealed A (EncryptionKey rs) nonce p)"
  by (simp add: encrypt_def NewCipher_def sealed_def)

lemma decryptWithKey_sealed:
  assumes "gcm_laws A" and "length key = 32" and "length nonce = NonceSize"
  shows "decryptWithKey A key (sealed A key nonce p) = Inr p"
  using assms by (simp add: decryptWithKey_def NewCipher_def sealed_def gcm_laws_def)

lemma decryptWithKey_long:
  "length key = 32 \<Longrightarrow> length bytes \<ge> NonceSize + Overhead \<Longrightarrow>
   decryptWithKey A key bytes = (case Open A key (take NonceSize bytes) (drop NonceSize bytes) of
     None \<Rightarrow> Inl authFailure | Some out \<Rightarrow> Inr out)"
  by (simp add: decryptWithKey_def NewCipher_def)

lemma authFailure_Is [simp]: "errors_Is authFailure ErrDecryptionFailure"
  by (simp add: authFailure_def errors_Is_def)

lemma decryptWithKey_errors:
  "decryptWithKey A key bytes = Inl e \<Longrightarrow> errors_Is e ErrDecryptionFailure \<longleftrightarrow> e = authFailure"
  by (auto simp: decryptWithKey_def NewCipher_def errors_Is_def errorf_v_def errors_New_def
      split: sum.splits if_splits option.splits) (simp_all add: authFailure_def)

lemma tryKeys_skip:
  "\<forall>k \<in> set before. \<exists>e. decryptWithKey A k bytes = Inl e \<Longrightarrow>
   tryKeys A (before @ keys) bytes = tryKeys A keys bytes"
  by (induction before) auto

lemma tryKeys_sound: "tryKeys A keys bytes = Some out \<Longrightarrow> \<exists>k \<in> set keys. decryptWithKey A k bytes = Inr out"
  by (induction keys) (auto split: sum.splits)

lemma tryKeys_None: "tryKeys A keys bytes = None \<longleftrightarrow> (\<forall>k \<in> set keys. \<exists>e. decryptWithKey A k bytes = Inl e)"
  by (induction keys) (auto split: sum.split)

text \<open>Reading with the encryption key first and then each additional key, as one search.\<close>

lemma decrypt_first_key:
  assumes "decryptWithKey A key bytes = Inr out"
    and "EncryptionKey rs # DecryptionKeys rs = before @ key # after"
    and "\<forall>k \<in> set before. decryptWithKey A k bytes = Inl authFailure"
  shows "decrypt A rs bytes = Inr out"
proof (cases before)
  case Nil
  with assms show ?thesis by (simp add: decrypt_def)
next
  case (Cons k ks)
  with assms have "tryKeys A (DecryptionKeys rs) bytes = Some out"
    using tryKeys_skip [of ks A bytes "key # after"] by auto
  with Cons assms show ?thesis by (simp add: decrypt_def)
qed

end
