(* ===== verification/Compress.thy ===== *)
theory Compress
  imports Config
begin

section \<open>Compression of values\<close>

text \<open>
  \<open>compression.go\<close>. The compressors of the Go library are parameters: a writer that may fail when
  it is created, written or closed, and a reader that yields bytes and then ends or fails. The
  choice of the algorithm, the error branches and the size limit are modelled.
\<close>

subsection \<open>Definitions\<close>

text \<open>A compressing writer over a buffer, fed one slice and closed; \<open>w_output\<close> is the buffer then.\<close>

record compressor =
  w_Write :: "bytes \<Rightarrow> go_error option"
  w_Close :: "bytes \<Rightarrow> go_error option"
  w_output :: "bytes \<Rightarrow> bytes"

text \<open>What a reader yields until it ends, and the error it ends with (\<^term>\<open>None\<close> for end of file).\<close>

type_synonym reader = "bytes \<times> go_error option"

record codecs =
  zlib_NewWriter :: compressor
  flate_NewWriter :: "go_error + compressor"
  zlib_NewReader :: "bytes \<Rightarrow> go_error + reader"
  flate_NewReader :: "bytes \<Rightarrow> reader"

definition maxDecompressedBytes :: nat where "maxDecompressedBytes = 4 * 2 ^ 20"

definition storageCompressionNone :: int where "storageCompressionNone = 0"
definition storageCompressionFlate :: int where "storageCompressionFlate = 1"
definition storageCompressionZlib :: int where "storageCompressionZlib = 2"

lemmas flag_defs = storageCompressionNone_def storageCompressionFlate_def storageCompressionZlib_def

definition compressWriter :: "bytes \<Rightarrow> go_error + compressor \<Rightarrow> go_error + bytes" where
  "compressWriter input newWriter = (case newWriter of
       Inl e \<Rightarrow> Inl e
     | Inr w \<Rightarrow> (case w_Write w input of
         Some e \<Rightarrow> Inl e
       | None \<Rightarrow> (case w_Close w input of
           Some e \<Rightarrow> Inl e
         | None \<Rightarrow> Inr (w_output w input))))"

definition compress :: "codecs \<Rightarrow> RedisStorage \<Rightarrow> bytes \<Rightarrow> go_error + bytes" where
  "compress Z rs input =
     (if Compression rs = CompressionZlib then compressWriter input (Inr (zlib_NewWriter Z))
      else compressWriter input (flate_NewWriter Z))"

text \<open>\<open>io.ReadAll\<close> of \<open>io.LimitReader(reader, n)\<close>.\<close>

definition ReadAll_limited :: "reader \<Rightarrow> nat \<Rightarrow> go_error + bytes" where
  "ReadAll_limited r n =
     (if n \<le> length (fst r) then Inr (take n (fst r))
      else case snd r of None \<Rightarrow> Inr (fst r) | Some e \<Rightarrow> Inl e)"

definition decompressReader :: "reader \<Rightarrow> go_error + bytes" where
  "decompressReader reader = (case ReadAll_limited reader (maxDecompressedBytes + 1) of
       Inl e \<Rightarrow> Inl e
     | Inr output \<Rightarrow>
         if length output > maxDecompressedBytes
         then Inl (errors_New (''decompressed value exceeds limit ('' @ Itoa (int maxDecompressedBytes) @ '' bytes)''))
         else Inr output)"

definition decompress :: "codecs \<Rightarrow> bytes \<Rightarrow> int \<Rightarrow> go_error + bytes" where
  "decompress Z input compressionFlag =
     (if compressionFlag = storageCompressionZlib
      then (case zlib_NewReader Z input of
              Inl e \<Rightarrow> Inl e
            | Inr reader \<Rightarrow> decompressReader reader)
      else decompressReader (flate_NewReader Z input))"

subsection \<open>Lemmas\<close>

text \<open>What is used of the compressors: a reader yields what went into the matching writer.\<close>

definition codec_laws :: "codecs \<Rightarrow> bool" where
  "codec_laws Z \<longleftrightarrow>
     (\<forall>x. zlib_NewReader Z (w_output (zlib_NewWriter Z) x) = Inr (x, None)) \<and>
     (\<forall>w x. flate_NewWriter Z = Inr w \<longrightarrow> flate_NewReader Z (w_output w x) = (x, None))"

text \<open>The flag \<open>Store\<close> records for the configured algorithm.\<close>

definition mode_flag :: "RedisStorage \<Rightarrow> int" where
  "mode_flag rs = (if Compression rs = CompressionZlib then storageCompressionZlib else storageCompressionFlate)"

lemma compressWriter_Inr:
  "compressWriter x nw = Inr y \<Longrightarrow> \<exists>w. nw = Inr w \<and> y = w_output w x"
  by (auto simp: compressWriter_def split: sum.splits option.splits)

lemma decompressReader_whole:
  "decompressReader (x, None) =
     (if length x \<le> maxDecompressedBytes then Inr x
      else Inl (errors_New (''decompressed value exceeds limit ('' @ Itoa (int maxDecompressedBytes) @ '' bytes)'')))"
  by (simp add: decompressReader_def ReadAll_limited_def not_le)

text \<open>Never more than the limit comes out, whatever the reader yields.\<close>

lemma decompressReader_bound: "decompressReader r = Inr out \<Longrightarrow> length out \<le> maxDecompressedBytes"
  by (auto simp: decompressReader_def split: sum.splits if_splits)

lemma decompress_bound: "decompress Z input flag = Inr out \<Longrightarrow> length out \<le> maxDecompressedBytes"
  by (auto simp: decompress_def split: sum.splits if_splits dest: decompressReader_bound)

lemma decompress_compress_any:
  assumes "codec_laws Z" and "compress Z rs x = Inr y"
  shows "decompress Z y (mode_flag rs) = decompressReader (x, None)"
  using assms
  by (auto simp: compress_def decompress_def mode_flag_def flag_defs codec_laws_def
      split: if_splits dest!: compressWriter_Inr)

lemma mode_flag_pos: "mode_flag rs > storageCompressionNone"
  by (simp add: mode_flag_def flag_defs)

end
