(* ===== verification/Storage.thy ===== *)
theory Storage
  imports Dir_Index Crypto Compress
begin

section \<open>The storage operations\<close>

text \<open>
  \<open>storage.go\<close>: \<open>Store\<close>, \<open>Load\<close>, \<open>Delete\<close>, \<open>Exists\<close>, \<open>List\<close>, \<open>Stat\<close> and
  \<open>Repair\<close>, on top of the directory index, encryption, compression and the reconnect wrapper.
  Contexts are not modelled: a cancelled context shows as an error of a client call.
\<close>

subsection \<open>Values\<close>

text \<open>A point in time, in nanoseconds since the epoch, and \<open>Time.Unix\<close>.\<close>

type_synonym time = int

definition Unix :: "time \<Rightarrow> int" where "Unix t = t div 1000000000"

record StorageData =
  Value :: bytes
  Modified :: time
  Size :: int
  sd_Compression :: int
  Encryption :: int

text \<open>\<open>encoding/json\<close> on \<open>StorageData\<close>: printing and reading the stored text.\<close>

record json_codec =
  sd_Marshal :: "StorageData \<Rightarrow> go_error + bytes"
  sd_Unmarshal :: "bytes \<Rightarrow> go_error + StorageData"

record 'w deps =
  sys :: "'w sysenv"
  gcm :: aead
  zs :: codecs
  js :: json_codec

abbreviation rapi :: "'w deps \<Rightarrow> 'w redis_api" where
  "rapi D \<equiv> redis (sys D)"

text \<open>The value as \<open>Store\<close> writes it: compressed when that makes it smaller, then encrypted.\<close>

definition storageValue ::
    "'w deps \<Rightarrow> RedisStorage \<Rightarrow> time \<Rightarrow> go_error + bytes \<Rightarrow> string \<Rightarrow> bytes \<Rightarrow> go_error + StorageData" where
  "storageValue D rs now rnd key val =
     (case (if Compression rs \<noteq> CompressionNone
            then (case compress (zs D) rs val of
                    Inl e \<Rightarrow> Inl (errorf_v (''Unable to compress value for '' @ key @ '': '') e)
                  | Inr compressedValue \<Rightarrow>
                      if length val > length compressedValue
                      then Inr (compressedValue,
                             if Compression rs = CompressionZlib then storageCompressionZlib
                             else storageCompressionFlate)
                      else Inr (val, storageCompressionNone))
            else Inr (val, storageCompressionNone)) of
        Inl e \<Rightarrow> Inl e
      | Inr (v, compressionFlag) \<Rightarrow>
          (case (if EncryptionKey rs \<noteq> ''''
                 then (case encrypt (gcm D) rs rnd v of
                         Inl e \<Rightarrow> Inl (errorf_v (''Unable to encrypt value for '' @ key @ '': '') e)
                       | Inr encryptedValue \<Rightarrow> Inr (encryptedValue, 1))
                 else Inr (v, 0)) of
             Inl e \<Rightarrow> Inl e
           | Inr (v, encryptionFlag) \<Rightarrow>
               Inr \<lparr>Value = v, Modified = now, Size = int (length val),
                    sd_Compression = compressionFlag, Encryption = encryptionFlag\<rparr>))"

text \<open>The closure \<open>Store\<close> runs on a client: the directory records first, then the value.\<close>

definition storeOp :: "'w deps \<Rightarrow> string \<Rightarrow> string \<Rightarrow> int \<Rightarrow> bytes \<Rightarrow> nat option \<Rightarrow> ('w proc, unit) prog" where
  "storeOp D key prefixedKey score jsonValue c =
     bindP (wrapP (errorf_v (''Unable to create directory for key '' @ key @ '': ''))
              (storeDirectoryRecord (rapi D) c prefixedKey score False False))
       (\<lambda>_. wrapP (errorf_v (''Unable to set value for '' @ key @ '': ''))
              (call (api_Set (rapi D) prefixedKey jsonValue) c))"

definition Store ::
    "'w deps \<Rightarrow> RedisStorage \<Rightarrow> time \<Rightarrow> go_error + bytes \<Rightarrow> string \<Rightarrow> bytes \<Rightarrow> ('w proc, unit) prog" where
  "Store D rs now rnd key val =
     (case storageValue D rs now rnd key val of
        Inl e \<Rightarrow> throw e
      | Inr sd \<Rightarrow>
          (case sd_Marshal (js D) sd of
             Inl e \<Rightarrow> throw (errorf_v (''Unable to marshal value for '' @ key @ '': '') e)
           | Inr jsonValue \<Rightarrow>
               let prefixedKey = prefixKey rs key; score = Unix (Modified sd)
               in withReconnectOnClosed (sys D) rs (storeOp D key prefixedKey score jsonValue)))"

definition errNotExist :: go_error where
  "errNotExist = \<lparr>err_msg = ''file does not exist'', err_chain = [ErrNotExist]\<rparr>"

text \<open>\<open>loadStorageData\<close>: the nil check on the data comes before the check of the error.\<close>

definition loadStorageData ::
    "'w deps \<Rightarrow> RedisStorage \<Rightarrow> nat option \<Rightarrow> string \<Rightarrow> ('w proc, StorageData) prog" where
  "loadStorageData D rs c key = (\<lambda>s.
     case call (api_Get (rapi D) (prefixKey rs key)) c s of
       None \<Rightarrow> None
     | Some (Panic, s') \<Rightarrow> Some (Panic, s')
     | Some (Err e, s') \<Rightarrow>
         if api_NilBytes (rapi D) \<or> errors_Is e RedisNil then throw errNotExist s'
         else throw (errorf_v (''Unable to get data for '' @ key @ '': '') e) s'
     | Some (Ok data, s') \<Rightarrow>
         if data = [] \<and> api_NilBytes (rapi D) then throw errNotExist s'
         else (case sd_Unmarshal (js D) data of
                 Inl e \<Rightarrow> throw (errorf_v (''Unable to unmarshal value for '' @ key @ '': '') e) s'
               | Inr sd \<Rightarrow> ret sd s'))"

text \<open>The value that \<open>Load\<close> recovers from the stored data: decrypted, then decompressed.\<close>

definition loadedValue :: "'w deps \<Rightarrow> RedisStorage \<Rightarrow> string \<Rightarrow> StorageData \<Rightarrow> go_error + bytes" where
  "loadedValue D rs key sd =
     (case (if Encryption sd > 0
            then (case decrypt (gcm D) rs (Value sd) of
                    Inl e \<Rightarrow> Inl (errorf_v (''Unable to decrypt value for '' @ key @ '': '') e)
                  | Inr v \<Rightarrow> Inr v)
            else Inr (Value sd)) of
        Inl e \<Rightarrow> Inl e
      | Inr v \<Rightarrow>
          if sd_Compression sd > storageCompressionNone
          then (case decompress (zs D) v (sd_Compression sd) of
                  Inl e \<Rightarrow> Inl (errorf_v (''Unable to decompress value for '' @ key @ '': '') e)
                | Inr v \<Rightarrow> Inr v)
          else Inr v)"

text \<open>
  \<open>observeCertificateLoad\<close>: the context may carry an observer of successful loads. It gets the slice
  that \<open>Load\<close> returns and only reads it.
\<close>

definition observeCertificateLoad ::
    "(string \<Rightarrow> bytes \<Rightarrow> 'w proc \<Rightarrow> 'w proc) option \<Rightarrow> string \<Rightarrow> bytes \<Rightarrow> 'w proc \<Rightarrow> 'w proc" where
  "observeCertificateLoad obs key val s = (case obs of None \<Rightarrow> s | Some o' \<Rightarrow> o' key val s)"

definition Load ::
    "'w deps \<Rightarrow> RedisStorage \<Rightarrow> (string \<Rightarrow> bytes \<Rightarrow> 'w proc \<Rightarrow> 'w proc) option \<Rightarrow> string \<Rightarrow> ('w proc, bytes) prog" where
  "Load D rs obs key =
     bindP (withReconnectOnClosed (sys D) rs (\<lambda>client. loadStorageData D rs client key))
       (\<lambda>sd. bindP (pureP (loadedValue D rs key sd))
         (\<lambda>v. bindP (updateP (observeCertificateLoad obs key v)) (\<lambda>_. ret v)))"

definition deleteOp :: "'w deps \<Rightarrow> string \<Rightarrow> string \<Rightarrow> nat option \<Rightarrow> ('w proc, unit) prog" where
  "deleteOp D key prefixedKey c =
     bindP (wrapP (errorf_v (''Unable to delete directory for key '' @ key @ '': ''))
              (deleteDirectoryRecord (rapi D) c prefixedKey False))
       (\<lambda>_. wrapP (errorf_v (''Unable to delete key '' @ key @ '': ''))
              (bindP (call (api_Del (rapi D) prefixedKey) c) (\<lambda>_. ret ())))"

definition Delete :: "'w deps \<Rightarrow> RedisStorage \<Rightarrow> string \<Rightarrow> ('w proc, unit) prog" where
  "Delete D rs key =
     (let prefixedKey = prefixKey rs key
      in withReconnectOnClosed (sys D) rs (deleteOp D key prefixedKey))"

definition Exists :: "'w deps \<Rightarrow> RedisStorage \<Rightarrow> string \<Rightarrow> ('w proc, bool) prog" where
  "Exists D rs key =
     handleP (withReconnectOnClosed (sys D) rs (\<lambda>client. existsKey (rapi D) rs client key))
       (\<lambda>err. ret False)"

fun list_children ::
    "(string \<Rightarrow> ('s, string list) prog) \<Rightarrow> string \<Rightarrow> bool \<Rightarrow> string list \<Rightarrow> string list \<Rightarrow> ('s, string list) prog" where
  "list_children rec dir recursive [] keyList = ret keyList"
| "list_children rec dir recursive (k # keys) keyList =
     (let trimmedKey = TrimSuffix k keyPathSeparator; fullPathKey = path_Join [dir, trimmedKey]
      in if recursive \<and> k \<noteq> trimmedKey
         then bindP (rec fullPathKey)
                (\<lambda>childKeys. list_children rec dir recursive keys (keyList @ childKeys))
         else list_children rec dir recursive keys (keyList @ [fullPathKey]))"

lemma list_children_mono [partial_function_mono]:
  assumes "\<And>d s. mono_option (\<lambda>F. B F d s)"
  shows "mono_option (\<lambda>F. list_children (B F) dir recursive keys keyList s)"
proof (induction keys arbitrary: keyList s)
  case Nil
  show ?case by (simp add: monotoneI flat_ord_def)
next
  case (Cons k keys)
  show ?case
  proof (cases "recursive \<and> k \<noteq> TrimSuffix k keyPathSeparator")
    case True
    show ?thesis
      unfolding list_children.simps Let_def if_P [OF True] by (rule bindP_mono [OF assms Cons])
  next
    case False
    show ?thesis unfolding list_children.simps Let_def if_not_P [OF False] by (rule Cons)
  qed
qed

text \<open>The keys that the source returns next to an error are left out.\<close>

partial_function (option) List_keys ::
    "'w deps \<Rightarrow> RedisStorage \<Rightarrow> string \<Rightarrow> bool \<Rightarrow> ('w proc, string list) prog" where
  "List_keys D rs dir recursive s =
     bindP (withReconnectOnClosed (sys D) rs (\<lambda>client.
              wrapP (errorf_v (''Unable to get range on sorted set '' @ CHR 0x27 # prefixKey rs dir @ CHR 0x27 # '': ''))
                (call (api_ZRange (rapi D) (prefixKey rs dir)) client)))
       (\<lambda>keys s. list_children (\<lambda>d s. List_keys D rs d recursive s) dir recursive keys [] s) s"

record KeyInfo =
  Key :: string
  ki_Modified :: time
  ki_Size :: int
  IsTerminal :: bool

definition Stat :: "'w deps \<Rightarrow> RedisStorage \<Rightarrow> string \<Rightarrow> ('w proc, KeyInfo) prog" where
  "Stat D rs key =
     bindP (withReconnectOnClosed (sys D) rs (\<lambda>client. loadStorageData D rs client key))
       (\<lambda>sd. ret \<lparr>Key = key, ki_Modified = Modified sd, ki_Size = Size sd, IsTerminal = True\<rparr>)"

subsection \<open>Repair\<close>

text \<open>
  The scan over all keys under the prefix rebuilds the records of every string that holds storage
  data; the traversal then removes members whose key does not exist. \<open>Type(...).Val()\<close> ignores
  the error of the command and gives the empty string then.
\<close>

fun repair_keys :: "'w deps \<Rightarrow> RedisStorage \<Rightarrow> string list \<Rightarrow> ('w proc, unit) prog" where
  "repair_keys D rs [] = ret ()"
| "repair_keys D rs (key # keys) =
     bindP (handleP (call (api_Type (rapi D) key) (client rs)) (\<lambda>_. ret ''''))
       (\<lambda>keyType. if keyType \<noteq> ''string'' then repair_keys D rs keys
         else bindP (handleP (bindP (loadStorageData D rs (client rs) (trimKey rs key)) (\<lambda>sd. ret (Some sd)))
                       (\<lambda>_. ret None))
                (\<lambda>r. case r of
                    None \<Rightarrow> repair_keys D rs keys
                  | Some sd \<Rightarrow>
                      bindP (wrapP (\<lambda>_. errors_New (''Unable to repair directory index for key ''
                                          @ CHR 0x27 # trimKey rs key @ [CHR 0x27]))
                               (storeDirectoryRecord (rapi D) (client rs) key (Unix (Modified sd)) True False))
                        (\<lambda>_. repair_keys D rs keys)))"

partial_function (option) repair_scan ::
    "'w deps \<Rightarrow> RedisStorage \<Rightarrow> string \<Rightarrow> nat \<Rightarrow> ('w proc, unit) prog" where
  "repair_scan D rs currKey pointer s =
     bindP (wrapP (errorf_v (''Unable to scan path '' @ currKey @ '': ''))
              (call (api_Scan (rapi D) pointer (currKey @ ''*'') 500) (client rs)))
       (\<lambda>r s. case r of (keys, nextPointer) \<Rightarrow>
          bindP (repair_keys D rs keys)
            (\<lambda>_ s. if nextPointer = 0 then ret () s else repair_scan D rs currKey nextPointer s) s) s"

fun repair_children ::
    "'w deps \<Rightarrow> RedisStorage \<Rightarrow> (string \<Rightarrow> ('w proc, unit) prog) \<Rightarrow> string \<Rightarrow> string list \<Rightarrow> ('w proc, unit) prog" where
  "repair_children D rs rec dir [] = ret ()"
| "repair_children D rs rec dir (k # keys) =
     (let trimmedKey = TrimSuffix k keyPathSeparator; fullPathKey = path_Join [dir, trimmedKey];
          currKey = prefixKey rs dir
      in bindP (existsKey (rapi D) rs (client rs) fullPathKey)
           (\<lambda>exists.
              if \<not> exists
              then bindP (wrapP (errorf_v (''Unable to remove stale record '' @ CHR 0x27 # k @ CHR 0x27 #
                                   '' from directory '' @ CHR 0x27 # currKey @ CHR 0x27 # '': ''))
                            (call (api_ZRem (rapi D) currKey k) (client rs)))
                     (\<lambda>_. repair_children D rs rec dir keys)
              else if k \<noteq> trimmedKey
              then bindP (rec fullPathKey) (\<lambda>_. repair_children D rs rec dir keys)
              else repair_children D rs rec dir keys))"

lemma repair_children_mono [partial_function_mono]:
  fixes B :: "('x \<Rightarrow> 'y option) \<Rightarrow> string \<Rightarrow> ('w proc, unit) prog" and D :: "'w deps"
  assumes "\<And>d s. mono_option (\<lambda>F. B F d s)"
  shows "mono_option (\<lambda>F. repair_children D rs (B F) dir keys s)"
proof (induction keys arbitrary: s)
  case Nil
  show ?case by (simp add: monotoneI flat_ord_def)
next
  case (Cons k keys)
  let ?t = "TrimSuffix k keyPathSeparator"
  have const: "mono_option (\<lambda>F :: 'x \<Rightarrow> 'y option. f s)" for f :: "'w proc \<Rightarrow> ('z outcome \<times> 'w proc) option" and s
    by (simp add: monotoneI flat_ord_def)
  have inner: "mono_option (\<lambda>F. (if \<not> ex then bindP g (\<lambda>_. repair_children D rs (B F) dir keys)
      else if k \<noteq> ?t then bindP (B F (path_Join [dir, ?t])) (\<lambda>_. repair_children D rs (B F) dir keys)
      else repair_children D rs (B F) dir keys) s')" for ex s' and g :: "('w proc, int) prog"
  proof (cases ex)
    case True
    then show ?thesis
      using Cons bindP_mono [of "\<lambda>F. B F (path_Join [dir, ?t])" "\<lambda>F _. repair_children D rs (B F) dir keys", OF assms Cons]
      by (cases "k \<noteq> ?t") simp_all
  next
    case False
    then show ?thesis using bindP_mono [of "\<lambda>_. g" "\<lambda>F _. repair_children D rs (B F) dir keys", OF const [of g] Cons] by simp
  qed
  show ?case
    unfolding repair_children.simps Let_def by (rule bindP_mono, rule const, rule inner)
qed

partial_function (option) Repair :: "'w deps \<Rightarrow> RedisStorage \<Rightarrow> string \<Rightarrow> ('w proc, unit) prog" where
  "Repair D rs dir s =
     bindP (if dir = '''' then repair_scan D rs (prefixKey rs dir) 0 else ret ())
       (\<lambda>_ s. bindP (wrapP (errorf_v (''Unable to get range on sorted set '' @ CHR 0x27 # prefixKey rs dir @ CHR 0x27 # '': ''))
                       (call (api_ZRange (rapi D) (prefixKey rs dir)) (client rs)))
                (\<lambda>keys s. repair_children D rs (\<lambda>d s. Repair D rs d s) dir keys s) s) s"

end
