(* ===== verification/Storage_Spec.thy ===== *)
theory Storage_Spec
  imports Storage
begin

section \<open>The storage operations refine a map from paths to values\<close>

text \<open>
  The abstract state is a finite set \<open>F\<close> of stored paths with their strings. \<open>store_inv\<close> ties it
  to the keyspace: the index is that of \<open>F\<close> and every path of \<open>F\<close> holds a string. The lemmas of
  the locale \<open>redis_server\<close> show what each operation does to it, on an open client and through the
  reconnect wrapper.
\<close>

subsection \<open>Round trip of values\<close>

text \<open>What \<open>storageValue\<close> put into the data, before encryption.\<close>

definition packed :: "'w deps \<Rightarrow> RedisStorage \<Rightarrow> bytes \<Rightarrow> (bytes \<times> int) option" where
  "packed D rs val =
     (if Compression rs = CompressionNone then Some (val, storageCompressionNone)
      else case compress (zs D) rs val of Inl e \<Rightarrow> None
        | Inr y \<Rightarrow> Some (if length y < length val then (y, mode_flag rs) else (val, storageCompressionNone)))"

lemma storageValue_packed:
  assumes "storageValue D rs now (Inr nonce) key val = Inr sd"
    and "EncryptionKey rs = '''' \<or> length (EncryptionKey rs) = 32"
  obtains v where "packed D rs val = Some (v, sd_Compression sd)"
    and "Size sd = int (length val)" and "Modified sd = now"
    and "EncryptionKey rs = '''' \<Longrightarrow> Value sd = v \<and> Encryption sd = 0"
    and "EncryptionKey rs \<noteq> '''' \<Longrightarrow> Value sd = sealed (gcm D) (EncryptionKey rs) nonce v \<and> Encryption sd = 1"
  using assms
  by (auto simp: storageValue_def packed_def mode_flag_def encrypt_sealed split: sum.splits if_splits)

text \<open>A reader whose keys lead to the writer's key gets the value back, up to the size limit.\<close>

definition reads_key :: "aead \<Rightarrow> RedisStorage \<Rightarrow> string \<Rightarrow> bytes \<Rightarrow> bool" where
  "reads_key A rs' key bytes \<longleftrightarrow> (\<exists>before after. EncryptionKey rs' # DecryptionKeys rs' = before @ key # after
     \<and> (\<forall>k \<in> set before. decryptWithKey A k bytes = Inl authFailure))"

lemma loadedValue_packed:
  assumes "gcm_laws (gcm D)" and "length nonce = NonceSize"
    and "storageValue D rs now (Inr nonce) key val = Inr sd"
    and "EncryptionKey rs = '''' \<or> length (EncryptionKey rs) = 32 \<and> reads_key (gcm D) rs' (EncryptionKey rs) (Value sd)"
    and "packed D rs val = Some (v, flag)"
  shows "loadedValue D rs' key' sd =
    (if flag > storageCompressionNone
     then (case decompress (zs D) v flag of
             Inl e \<Rightarrow> Inl (errorf_v (''Unable to decompress value for '' @ key' @ '': '') e) | Inr w \<Rightarrow> Inr w)
     else Inr v)"
proof -
  from assms(4) have "EncryptionKey rs = '''' \<or> length (EncryptionKey rs) = 32" by auto
  from storageValue_packed [OF assms(3) this] obtain v' where v':
    "packed D rs val = Some (v', sd_Compression sd)"
    "EncryptionKey rs = '''' \<Longrightarrow> Value sd = v' \<and> Encryption sd = 0"
    "EncryptionKey rs \<noteq> '''' \<Longrightarrow> Value sd = sealed (gcm D) (EncryptionKey rs) nonce v' \<and> Encryption sd = 1"
    by metis
  with assms(5) have eq: "v' = v" "flag = sd_Compression sd" by auto
  show ?thesis
  proof (cases "EncryptionKey rs = ''''")
    case True
    with v' eq show ?thesis by (simp add: loadedValue_def)
  next
    case False
    with assms(4) obtain before after where
      ks: "EncryptionKey rs' # DecryptionKeys rs' = before @ EncryptionKey rs # after"
        "\<forall>k \<in> set before. decryptWithKey (gcm D) k (Value sd) = Inl authFailure" and len: "length (EncryptionKey rs) = 32"
      by (auto simp: reads_key_def)
    have "decryptWithKey (gcm D) (EncryptionKey rs) (Value sd) = Inr v"
      using v'(3) [OF False] eq decryptWithKey_sealed [OF assms(1) len assms(2), of v] by simp
    from decrypt_first_key [OF this ks] have "decrypt (gcm D) rs' (Value sd) = Inr v" .
    with v'(3) [OF False] eq show ?thesis by (simp add: loadedValue_def)
  qed
qed

lemma unpack_packed:
  assumes "codec_laws (zs D)" and "packed D rs val = Some (v, flag)"
  shows "flag > storageCompressionNone \<Longrightarrow> decompress (zs D) v flag = decompressReader (val, None)"
    and "\<not> flag > storageCompressionNone \<Longrightarrow> v = val"
  using assms decompress_compress_any [OF assms(1), of rs val] mode_flag_pos [of rs]
  by (auto simp: packed_def split: if_splits sum.splits)

lemma load_stored_value:
  assumes "gcm_laws (gcm D)" and "codec_laws (zs D)" and "length nonce = NonceSize"
    and "storageValue D rs now (Inr nonce) key val = Inr sd"
    and "EncryptionKey rs = '''' \<or> length (EncryptionKey rs) = 32 \<and> reads_key (gcm D) rs' (EncryptionKey rs) (Value sd)"
    and "length val \<le> maxDecompressedBytes"
  shows "loadedValue D rs' key' sd = Inr val"
proof -
  from assms(5) have "EncryptionKey rs = '''' \<or> length (EncryptionKey rs) = 32" by auto
  from storageValue_packed [OF assms(4) this] obtain v where v: "packed D rs val = Some (v, sd_Compression sd)"
    by metis
  show ?thesis
    unfolding loadedValue_packed [OF assms(1,3,4,5) v]
    using unpack_packed [OF assms(2) v] assms(6) by (auto simp: decompressReader_whole)
qed

lemma reads_own_key: "reads_key A rs (EncryptionKey rs) bytes"
  unfolding reads_key_def by (rule exI [of _ "[]"]) simp

subsection \<open>The invariant\<close>

definition store_inv :: "string \<Rightarrow> string list set \<Rightarrow> rdb \<Rightarrow> bool" where
  "store_inv t F db \<longleftrightarrow> index_of t F db \<and> (\<forall>p \<in> F. \<exists>v. db (pjoin p) = Some (RStr v))"

text \<open>
  A normalized key prefix of at least one segment, as the default one is. \<open>normalizeKeyPrefix\<close> also
  lets the empty prefix pass; theory \<open>Listing\<close> says what happens then.
\<close>

definition prefixed :: "RedisStorage \<Rightarrow> string list \<Rightarrow> bool" where
  "prefixed rs pre \<longleftrightarrow> KeyPrefix rs = pjoin pre \<and> canon pre \<and> pre \<noteq> []"

text \<open>No stored file is in the way: none above the path, and no directory at the path.\<close>

definition placeable :: "rdb \<Rightarrow> string list \<Rightarrow> bool" where
  "placeable db p \<longleftrightarrow> no_file_above db p \<and> (\<forall>z. db (pjoin p) \<noteq> Some (RZSet z))"

lemma prefixed_path:
  assumes "prefixed rs pre" and "canon k" and "k \<noteq> []"
  shows "prefixKey rs (pjoin k) = pjoin (pre @ k)" and "pre @ k \<in> paths_under (hd pre)" and "length (pre @ k) \<ge> 2"
proof -
  show "prefixKey rs (pjoin k) = pjoin (pre @ k)" "pre @ k \<in> paths_under (hd pre)"
    using assms by (auto simp: prefixed_def prefixKey_canon paths_under_def)
  have "length pre > 0" "length k > 0" using assms by (auto simp: prefixed_def)
  then show "length (pre @ k) \<ge> 2" unfolding length_append by linarith
qed

lemma index_dir_at: "index_of t F db \<Longrightarrow> q \<in> paths_under t \<Longrightarrow> dir_at db q (children F q)"
  by (simp add: index_of_def)

lemma children_file_empty: "index_of t F db \<Longrightarrow> p \<in> paths_under t \<Longrightarrow>
   \<forall>z. db (pjoin p) \<noteq> Some (RZSet z) \<Longrightarrow> children F p = {}"
  by (drule (1) index_dir_at) (auto simp: dir_at_def split: if_splits)

lemma index_of_string_upd:
  assumes I: "index_of t F db" and p: "p \<in> paths_under t" and noz: "\<forall>z. db (pjoin p) \<noteq> Some (RZSet z)"
    and v: "\<forall>z. v \<noteq> Some (RZSet z)"
  shows "index_of t F (db(pjoin p := v))"
proof -
  have "dir_at (db(pjoin p := v)) q (children F q)" if q: "q \<in> paths_under t" for q
  proof (cases "q = p")
    case True
    with I q noz have "children F p = {}" by (simp add: children_file_empty)
    with True v show ?thesis by (simp add: dir_at_def)
  next
    case False
    with I p q show ?thesis by (simp add: dir_at_upd_other index_of_def paths_under_def)
  qed
  with I show ?thesis by (simp add: index_of_def)
qed

text \<open>\<open>db'\<close> is \<open>db\<close> after storing the string \<open>j\<close> at \<open>p\<close>, after removing \<open>p\<close>.\<close>

definition stored :: "string \<Rightarrow> string list set \<Rightarrow> string list \<Rightarrow> bytes \<Rightarrow> rdb \<Rightarrow> rdb \<Rightarrow> bool" where
  "stored t F p j db db' \<longleftrightarrow> store_inv t (insert p F) db' \<and> db' (pjoin p) = Some (RStr j)
     \<and> (\<forall>k v. k \<noteq> pjoin p \<longrightarrow> db' k = Some (RStr v) \<longleftrightarrow> db k = Some (RStr v))"

definition removed :: "string \<Rightarrow> string list set \<Rightarrow> string list \<Rightarrow> rdb \<Rightarrow> rdb \<Rightarrow> bool" where
  "removed t F p db db' \<longleftrightarrow> store_inv t (F - {p}) db' \<and> db' (pjoin p) = None
     \<and> (\<forall>k v. k \<noteq> pjoin p \<longrightarrow> db' k = Some (RStr v) \<longleftrightarrow> db k = Some (RStr v))"

lemma paths_under_canon: "p \<in> paths_under t \<Longrightarrow> canon p"
  by (simp add: paths_under_def)

lemma store_inv_paths: "store_inv t F db \<Longrightarrow> p \<in> F \<Longrightarrow> p \<in> paths_under t"
  by (auto simp: store_inv_def index_of_def)

text \<open>What reading a key gives, by what the keyspace holds there.\<close>

definition loadResult :: "'w deps \<Rightarrow> string \<Rightarrow> rval option \<Rightarrow> StorageData outcome" where
  "loadResult D key r = (case r of
       None \<Rightarrow> Err errNotExist
     | Some (RZSet z) \<Rightarrow> (if api_NilBytes (rapi D) then Err errNotExist
                         else Err (errorf_v (''Unable to get data for '' @ key @ '': '') wrongType))
     | Some (RStr v) \<Rightarrow> (if v = [] \<and> api_NilBytes (rapi D) then Err errNotExist
         else case sd_Unmarshal (js D) v of
             Inl e \<Rightarrow> Err (errorf_v (''Unable to unmarshal value for '' @ key @ '': '') e)
           | Inr sd \<Rightarrow> Ok sd))"

text \<open>
  When the client library pairs an error with a nil slice, only an open client can be read:
  on a closed one the nil check hides the error from the reconnect wrapper.
\<close>

definition readable_with :: "('w \<Rightarrow> nat \<Rightarrow> bool) \<Rightarrow> ('w \<Rightarrow> nat \<Rightarrow> bool) \<Rightarrow> ('w \<Rightarrow> universal_options \<Rightarrow> bool)
    \<Rightarrow> 'w sysenv \<Rightarrow> RedisStorage \<Rightarrow> 'w proc \<Rightarrow> bool" where
  "readable_with up closed reach E rs s \<longleftrightarrow> usable_with up closed reach E rs s
     \<and> (api_NilBytes (redis E) \<longrightarrow> (\<exists>c. client rs = Some c \<and> up (world s) c))"

lemma errors_Is_redisNil [simp]: "errors_Is redisNil RedisNil" "\<not> errors_Is wrongType RedisNil" "\<not> errors_Is closedErr RedisNil"
  by (simp_all add: errors_Is_def redisNil_def wrongType_def closedErr_def errors_New_def)

lemma not_closed_errNotExist [simp]: "\<not> isClientClosedErr errNotExist"
  by (simp add: isClientClosedErr_def errNotExist_def HasPrefix_def)

context redis_server
begin

lemma storeOp_live:
  assumes D: "rapi D = R" and up: "up (world s) c" and inv: "store_inv t F (view (world s))"
    and p: "p \<in> paths_under t" "length p \<ge> 2" and place: "placeable (view (world s)) p"
  shows "\<exists>s'. storeOp D key (pjoin p) sc j (Some c) s = Some (Ok (), s') \<and> conn s s'
    \<and> stored t F p j (view (world s)) (view (world s'))"
proof -
  let ?db = "view (world s)"
  have nf: "no_file_above ?db p" and noz: "\<forall>z. ?db (pjoin p) \<noteq> Some (RZSet z)"
    using place by (simp_all add: placeable_def)
  from inv have "index_of t F ?db" by (simp add: store_inv_def)
  from storeDirectoryRecord_index [OF this p up nf] obtain s1 where s1:
    "storeDirectoryRecord R (Some c) (pjoin p) sc False False s = Some (Ok (), s1)" "conn s s1"
    "index_of t (insert p F) (view (world s1))" "added False p ?db (view (world s1))" .
  note str = added_strings [OF nf s1(4)]
  have "\<forall>q r. p = q @ r \<longrightarrow> q \<noteq> [] \<longrightarrow> r \<noteq> [] \<longrightarrow> pjoin p \<noteq> pjoin q"
    using p(1) by (metis append_self_conv canon_simps_list(3) paths_under_canon pjoin_inj)
  then have at_p: "view (world s1) (pjoin p) = ?db (pjoin p)" using s1(4) by (simp add: added_def)
  have "up (world s1) c" using up s1(2) by (simp add: conn_up)
  from call_up [OF Set this, of "pjoin p" j] obtain s2 where s2:
    "call (api_Set R (pjoin p) j) (Some c) s1 = Some (Ok (), s2)"
    "view (world s2) = (view (world s1))(pjoin p \<mapsto> RStr j)" "conn s1 s2"
    by (auto simp: spec_Set_def)
  have "index_of t (insert p F) (view (world s2))"
    unfolding s2(2) using at_p noz by (intro index_of_string_upd s1(3) p) auto
  moreover have "\<exists>v. view (world s2) (pjoin q) = Some (RStr v)" if "q \<in> insert p F" for q
    using that inv str by (cases "q = p") (auto simp: s2(2) store_inv_def strings_same_def)
  ultimately have "stored t F p j ?db (view (world s2))"
    using str by (auto simp: stored_def store_inv_def s2(2) strings_same_def)
  moreover have "storeOp D key (pjoin p) sc j (Some c) s = Some (Ok (), s2)"
    by (simp add: storeOp_def D prog_simps s1(1) s2(1))
  ultimately show ?thesis using conn_trans [OF s1(2) s2(3)] by blast
qed

lemma deleteOp_live:
  assumes D: "rapi D = R" and up: "up (world s) c" and inv: "store_inv t F (view (world s))"
    and p: "p \<in> paths_under t" and place: "placeable (view (world s)) p"
  shows "\<exists>s'. deleteOp D key (pjoin p) (Some c) s = Some (Ok (), s') \<and> conn s s'
    \<and> removed t F p (view (world s)) (view (world s'))"
proof -
  let ?db = "view (world s)"
  have nf: "no_file_above ?db p" and noz: "\<forall>z. ?db (pjoin p) \<noteq> Some (RZSet z)"
    using place by (simp_all add: placeable_def)
  from inv have "index_of t F ?db" by (simp add: store_inv_def)
  from deleteDirectoryRecord_index [OF this p up nf] obtain s1 where s1:
    "deleteDirectoryRecord R (Some c) (pjoin p) False s = Some (Ok (), s1)" "conn s s1"
    "index_of t (F - {p}) (view (world s1))"
    "\<forall>k. (\<forall>q r. p = q @ r \<longrightarrow> q \<noteq> [] \<longrightarrow> r \<noteq> [] \<longrightarrow> k \<noteq> pjoin q) \<longrightarrow> view (world s1) k = ?db k"
    "strings_same ?db (view (world s1))" .
  have "\<forall>q r. p = q @ r \<longrightarrow> q \<noteq> [] \<longrightarrow> r \<noteq> [] \<longrightarrow> pjoin p \<noteq> pjoin q"
    using p by (metis append_self_conv canon_simps_list(3) paths_under_canon pjoin_inj)
  then have at_p: "view (world s1) (pjoin p) = ?db (pjoin p)" using s1(4) by blast
  have "up (world s1) c" using up s1(2) by (simp add: conn_up)
  from call_up [OF Del this, of "pjoin p"] obtain s2 where s2:
    "call (api_Del R (pjoin p)) (Some c) s1 = Some (Ok (if view (world s1) (pjoin p) = None then 0 else 1), s2)"
    "view (world s2) = (view (world s1))(pjoin p := None)" "conn s1 s2"
    by (auto simp: spec_Del_def)
  have "index_of t (F - {p}) (view (world s2))"
    unfolding s2(2) using at_p noz by (intro index_of_string_upd s1(3) p) auto
  moreover have "\<exists>v. view (world s2) (pjoin q) = Some (RStr v)" if "q \<in> F - {p}" for q
  proof -
    from that inv have "pjoin q \<noteq> pjoin p"
      using p by (metis Diff_iff insertI1 paths_under_canon pjoin_inj store_inv_paths)
    with that inv s1(5) show ?thesis by (auto simp: s2(2) store_inv_def strings_same_def)
  qed
  ultimately have "removed t F p ?db (view (world s2))"
    using s1(5) by (auto simp: removed_def store_inv_def s2(2) strings_same_def)
  moreover have "deleteOp D key (pjoin p) (Some c) s = Some (Ok (), s2)"
    by (simp add: deleteOp_def D prog_simps s1(1) s2(1))
  ultimately show ?thesis using conn_trans [OF s1(2) s2(3)] by blast
qed

text \<open>On a closed client every operation fails at its first call, with an error that still shows it.\<close>

lemma storeOp_dead:
  assumes D: "rapi D = R" and cl: "closed (world s) c" and p: "canon p" "length p \<ge> 2"
  shows "\<exists>e s'. storeOp D key (pjoin p) sc j (Some c) s = Some (Err e, s') \<and> isClientClosedErr e
    \<and> conn s s' \<and> view (world s') = view (world s)"
proof -
  obtain ps b where ps: "p = ps @ [b]" "ps \<noteq> []" using p(2) by (cases p rule: rev_cases) fastforce+
  from call_closed [OF ZAdd cl, of "pjoin ps" sc b] obtain s1 where s1:
    "call (api_ZAdd R (pjoin ps) sc b) (Some c) s = Some (Err closedErr, s1)"
    "view (world s1) = view (world s)" "conn s s1" .
  have "storeDirectoryRecord R (Some c) (pjoin p) sc False False s =
      Some (Err (errorf_v (''Unable to add '' @ b @ '' to Set '' @ pjoin ps @ '': '') closedErr), s1)"
    using p ps s1(1) splitDirectoryKey_canon [of ps b False] pjoin_neq_dot [of ps]
    by (subst storeDirectoryRecord.simps) (simp add: prog_simps)
  with s1 D show ?thesis by (simp add: storeOp_def prog_simps)
qed

lemma deleteOp_dead:
  assumes D: "rapi D = R" and cl: "closed (world s) c" and p: "canon p" "length p \<ge> 2"
  shows "\<exists>e s'. deleteOp D key (pjoin p) (Some c) s = Some (Err e, s') \<and> isClientClosedErr e
    \<and> conn s s' \<and> view (world s') = view (world s)"
proof -
  obtain ps b where ps: "p = ps @ [b]" "ps \<noteq> []" using p(2) by (cases p rule: rev_cases) fastforce+
  from call_closed [OF ZRem cl, of "pjoin ps" b] obtain s1 where s1:
    "call (api_ZRem R (pjoin ps) b) (Some c) s = Some (Err closedErr, s1)"
    "view (world s1) = view (world s)" "conn s s1" .
  have "deleteDirectoryRecord R (Some c) (pjoin p) False s =
      Some (Err (errorf_v (''Unable to remove '' @ b @ '' from Set '' @ pjoin ps @ '': '') closedErr), s1)"
    using p ps s1(1) splitDirectoryKey_canon [of ps b False] pjoin_neq_dot [of ps]
    by (subst deleteDirectoryRecord.simps) (simp add: prog_simps)
  with s1 D show ?thesis by (simp add: deleteOp_def prog_simps)
qed

subsection \<open>Operations on a usable storage\<close>

lemma Store_usable:
  assumes D: "rapi D = R" and use: "usable (sys D) rs s" and pre: "prefixed rs pre" and k: "canon k" "k \<noteq> []"
    and inv: "store_inv (hd pre) F (view (world s))" and place: "placeable (view (world s)) (pre @ k)"
    and sd: "storageValue D rs now rnd (pjoin k) val = Inr sd" and j: "sd_Marshal (js D) sd = Inr j"
  obtains s' where "Store D rs now rnd (pjoin k) val s = Some (Ok (), s')"
    and "stored (hd pre) F (pre @ k) j (view (world s)) (view (world s'))"
    and "up (world s') = up (world s)" and "usable (sys D) rs s'"
proof -
  note P = prefixed_path [OF pre k]
  let ?op = "storeOp D (pjoin k) (pjoin (pre @ k)) (Unix (Modified sd)) j"
  let ?Q = "\<lambda>r db'. r = Ok () \<and> stored (hd pre) F (pre @ k) j (view (world s)) db'"
  have "\<exists>r t'. ?op (Some c) t = Some (r, t') \<and> conn t t' \<and> ?Q r (view (world t'))
      \<and> (\<forall>e. r = Err e \<longrightarrow> \<not> isClientClosedErr e)"
    if "up (world t) c" "view (world t) = view (world s)" for c t
    using storeOp_live [OF D that(1), of "hd pre" F "pre @ k"] that(2) inv place P by auto
  moreover have "\<exists>e t'. ?op (Some c) t = Some (Err e, t') \<and> isClientClosedErr e \<and> conn t t'
      \<and> view (world t') = view (world t)" if "closed (world t) c" for c t
    using storeOp_dead [OF D that _ P(3)] P(2) by (simp add: paths_under_def)
  ultimately obtain r s' where s': "withReconnectOnClosed (sys D) rs ?op s = Some (r, s')"
    "?Q r (view (world s'))" "up (world s') = up (world s)" "usable (sys D) rs s'"
    using with_reconnect [OF D use, of ?op ?Q thesis] by blast
  show thesis
    by (rule that [of s']) (use s' sd j P(1) in \<open>auto simp: Store_def\<close>)
qed

lemma Delete_usable:
  assumes D: "rapi D = R" and use: "usable (sys D) rs s" and pre: "prefixed rs pre" and k: "canon k" "k \<noteq> []"
    and inv: "store_inv (hd pre) F (view (world s))" and place: "placeable (view (world s)) (pre @ k)"
  obtains s' where "Delete D rs (pjoin k) s = Some (Ok (), s')"
    and "removed (hd pre) F (pre @ k) (view (world s)) (view (world s'))"
    and "up (world s') = up (world s)" and "usable (sys D) rs s'"
proof -
  note P = prefixed_path [OF pre k]
  let ?op = "deleteOp D (pjoin k) (pjoin (pre @ k))"
  let ?Q = "\<lambda>r db'. r = Ok () \<and> removed (hd pre) F (pre @ k) (view (world s)) db'"
  have "\<exists>r t'. ?op (Some c) t = Some (r, t') \<and> conn t t' \<and> ?Q r (view (world t'))
      \<and> (\<forall>e. r = Err e \<longrightarrow> \<not> isClientClosedErr e)"
    if "up (world t) c" "view (world t) = view (world s)" for c t
    using deleteOp_live [OF D that(1), of "hd pre" F "pre @ k"] that(2) inv place P by auto
  moreover have "\<exists>e t'. ?op (Some c) t = Some (Err e, t') \<and> isClientClosedErr e \<and> conn t t'
      \<and> view (world t') = view (world t)" if "closed (world t) c" for c t
    using deleteOp_dead [OF D that _ P(3)] P(2) by (simp add: paths_under_def)
  ultimately obtain r s' where s': "withReconnectOnClosed (sys D) rs ?op s = Some (r, s')"
    "?Q r (view (world s'))" "up (world s') = up (world s)" "usable (sys D) rs s'"
    using with_reconnect [OF D use, of ?op ?Q thesis] by blast
  show thesis
    by (rule that [of s']) (use s' P(1) in \<open>auto simp: Delete_def\<close>)
qed

lemma loadStorageData_live:
  assumes D: "rapi D = R" and up: "up (world s) c"
  shows "\<exists>s'. loadStorageData D rs (Some c) key s = Some (loadResult D key (view (world s) (prefixKey rs key)), s')
    \<and> conn s s' \<and> view (world s') = view (world s)"
proof -
  from call_up [OF Get up, of "prefixKey rs key"] obtain s1 where s1:
    "call (api_Get R (prefixKey rs key)) (Some c) s =
       Some (case fst (spec_Get (prefixKey rs key) (view (world s))) of Inl e \<Rightarrow> Err e | Inr x \<Rightarrow> Ok x, s1)"
    "view (world s1) = snd (spec_Get (prefixKey rs key) (view (world s)))" "conn s s1" .
  moreover have "snd (spec_Get k db) = db" for k db
    by (simp add: spec_Get_def split: option.split rval.split)
  ultimately have v1: "view (world s1) = view (world s)" by simp
  have "loadStorageData D rs (Some c) key s = Some (loadResult D key (view (world s) (prefixKey rs key)), s1)"
  proof (cases "view (world s) (prefixKey rs key)")
    case None
    with s1(1) D show ?thesis by (simp add: loadStorageData_def loadResult_def spec_Get_def)
  next
    case (Some x)
    with s1(1) D show ?thesis
      by (cases x) (simp_all add: loadStorageData_def loadResult_def spec_Get_def split: sum.split)
  qed
  with s1(3) v1 show ?thesis by blast
qed

lemma loadStorageData_dead:
  assumes D: "rapi D = R" and nn: "\<not> api_NilBytes R" and cl: "closed (world s) c"
  shows "\<exists>e s'. loadStorageData D rs (Some c) key s = Some (Err e, s') \<and> isClientClosedErr e
    \<and> conn s s' \<and> view (world s') = view (world s)"
proof -
  from call_closed [OF Get cl, of "prefixKey rs key"] obtain s1 where s1:
    "call (api_Get R (prefixKey rs key)) (Some c) s = Some (Err closedErr, s1)"
    "view (world s1) = view (world s)" "conn s s1" .
  then show ?thesis using D nn by (simp add: loadStorageData_def)
qed

text \<open>
  Reading on a readable storage, for a result without the phrase that marks a closed client.
\<close>

abbreviation readable :: "'w sysenv \<Rightarrow> RedisStorage \<Rightarrow> 'w proc \<Rightarrow> bool" where
  "readable \<equiv> readable_with up closed reach"

lemma load_retry:
  assumes D: "rapi D = R" and nn: "\<not> api_NilBytes R" and use: "usable (sys D) rs s"
    and res: "loadResult D key (view (world s) (prefixKey rs key)) = r" "\<forall>e. r = Err e \<longrightarrow> \<not> isClientClosedErr e"
  obtains s' where "withReconnectOnClosed (sys D) rs (\<lambda>c. loadStorageData D rs c key) s = Some (r, s')"
    and "view (world s') = view (world s)" and "up (world s') = up (world s)" and "usable (sys D) rs s'"
proof -
  let ?op = "\<lambda>c. loadStorageData D rs c key"
  let ?Q = "\<lambda>r' db'. r' = r \<and> db' = view (world s)"
  have "\<exists>r' t'. ?op (Some c) t = Some (r', t') \<and> conn t t' \<and> ?Q r' (view (world t'))
      \<and> (\<forall>e. r' = Err e \<longrightarrow> \<not> isClientClosedErr e)"
    if "up (world t) c" "view (world t) = view (world s)" for c t
    using loadStorageData_live [OF D that(1), of rs key] that(2) res by auto
  moreover have "\<exists>e t'. ?op (Some c) t = Some (Err e, t') \<and> isClientClosedErr e \<and> conn t t'
      \<and> view (world t') = view (world t)" if "closed (world t) c" for c t
    using loadStorageData_dead [OF D nn that] by blast
  ultimately obtain r' s' where "withReconnectOnClosed (sys D) rs ?op s = Some (r', s')"
    "?Q r' (view (world s'))" "up (world s') = up (world s)" "usable (sys D) rs s'"
    using with_reconnect [OF D use, of ?op ?Q thesis] by blast
  then show thesis by (intro that [of s']) auto
qed

lemma load_readable:
  assumes D: "rapi D = R" and use: "readable (sys D) rs s"
    and res: "loadResult D key (view (world s) (prefixKey rs key)) = r" "\<forall>e. r = Err e \<longrightarrow> \<not> isClientClosedErr e"
  obtains s' where "withReconnectOnClosed (sys D) rs (\<lambda>c. loadStorageData D rs c key) s = Some (r, s')"
    and "view (world s') = view (world s)" and "up (world s') = up (world s)" and "usable (sys D) rs s'"
proof (cases "api_NilBytes R")
  case True
  with use D obtain c where c: "client rs = Some c" "up (world s) c" by (auto simp: readable_with_def)
  from loadStorageData_live [OF D c(2), of rs key] res obtain s' where s':
    "loadStorageData D rs (client rs) key s = Some (r, s')" "conn s s'" "view (world s') = view (world s)"
    using c by auto
  show thesis
  proof (rule that [of s'])
    show "withReconnectOnClosed (sys D) rs (\<lambda>c. loadStorageData D rs c key) s = Some (r, s')"
      using s'(1) res(2) by (intro reconnect_passthrough) auto
  qed (use s' use in \<open>auto simp: conn_def usable_def readable_with_def\<close>)
next
  case False
  with use show thesis using load_retry [OF D False _ res] that by (auto simp: readable_with_def)
qed

lemma readable_kept:
  "readable E rs s \<Longrightarrow> up (world s') = up (world s) \<Longrightarrow> usable E rs s' \<Longrightarrow> readable E rs s'"
  by (simp add: readable_with_def)

lemma readable_usable: "readable E rs s \<Longrightarrow> usable E rs s"
  by (simp add: readable_with_def)

lemma exists_usable:
  assumes D: "rapi D = R" and use: "usable (sys D) rs s"
  obtains s' where "Exists D rs key s = Some (Ok (view (world s) (prefixKey rs key) \<noteq> None), s')"
    and "view (world s') = view (world s)" and "up (world s') = up (world s)" and "usable (sys D) rs s'"
proof -
  let ?op = "\<lambda>c. existsKey R rs c key" and ?k = "prefixKey rs key"
  let ?Q = "\<lambda>r db'. r = Ok (view (world s) ?k \<noteq> None) \<and> db' = view (world s)"
  have "\<exists>r t'. ?op (Some c) t = Some (r, t') \<and> conn t t' \<and> ?Q r (view (world t'))
      \<and> (\<forall>e. r = Err e \<longrightarrow> \<not> isClientClosedErr e)"
    if up: "up (world t) c" and v: "view (world t) = view (world s)" for c t
  proof -
    from call_up [OF Exists up, of ?k] obtain t' where
      "call (api_Exists R ?k) (Some c) t = Some (Ok (if view (world s) ?k = None then 0 else 1), t')"
      "view (world t') = view (world s)" "conn t t'" using v by (auto simp: spec_Exists_def)
    then show ?thesis by (simp add: existsKey_def existsRawKey_def prog_simps)
  qed
  moreover have "\<exists>e t'. ?op (Some c) t = Some (Err e, t') \<and> isClientClosedErr e \<and> conn t t'
      \<and> view (world t') = view (world t)" if cl: "closed (world t) c" for c t
  proof -
    from call_closed [OF Exists cl, of ?k] obtain t' where
      "call (api_Exists R ?k) (Some c) t = Some (Err closedErr, t')"
      "view (world t') = view (world t)" "conn t t'" .
    then show ?thesis by (simp add: existsKey_def existsRawKey_def prog_simps)
  qed
  ultimately obtain r s' where s': "withReconnectOnClosed (sys D) rs ?op s = Some (r, s')"
    "?Q r (view (world s'))" "up (world s') = up (world s)" "usable (sys D) rs s'"
    using with_reconnect [OF D use, of ?op ?Q thesis] by blast
  show thesis
    by (rule that [of s']) (use s' D in \<open>auto simp: Exists_def prog_simps\<close>)
qed

end

end
