(* ===== verification/Listing.thy ===== *)
theory Listing
  imports Storage_Spec
begin

section \<open>Listing a directory\<close>

text \<open>
  \<open>List\<close> on the index of a set of files: it returns, and what it returns are exactly the stored
  keys below the directory (recursively) or the names of its children (not recursively), each once.
\<close>

subsection \<open>Children of a directory\<close>

lemma children_cases:
  assumes "k \<in> children F q" and "\<forall>p \<in> F. canon p"
  obtains (leaf) b where "k = b" "seg_ok b" "q @ [b] \<in> F"
    | (subdir) d r where "k = d @ ''/''" "seg_ok d" "r \<noteq> []" "q @ d # r \<in> F"
  using assms unfolding children_def by (auto dest: bspec)

lemma seg_ok_no_suffix: "seg_ok b \<Longrightarrow> \<not> HasSuffix b ''/''"
  by (metis HasSuffix_char last_in_set seg_ok_def)

lemma TrimSuffix_seg: "seg_ok b \<Longrightarrow> TrimSuffix b keyPathSeparator = b"
  by (simp add: TrimSuffix_id keyPathSeparator_def seg_ok_no_suffix)

lemma TrimSuffix_dir: "TrimSuffix (d @ ''/'') keyPathSeparator = d"
  by (simp add: keyPathSeparator_def)

lemma join_child: "canon d \<Longrightarrow> seg_ok x \<Longrightarrow> path_Join [pjoin d, x] = pjoin (d @ [x])"
  using path_Join_canon [of d "[x]"] by simp

text \<open>The paths, relative to the prefix, that the member \<open>k\<close> of the set at \<open>q\<close> stands for.\<close>

definition below :: "string list set \<Rightarrow> string list \<Rightarrow> string list \<Rightarrow> string \<Rightarrow> string list set" where
  "below F q d k = (if HasSuffix k ''/'' then {d @ butlast k # r | r. r \<noteq> [] \<and> q @ butlast k # r \<in> F} else {d @ [k]})"

lemma below_file: "seg_ok b \<Longrightarrow> below F q d b = {d @ [b]}"
  by (simp add: below_def seg_ok_no_suffix)

lemma below_dir: "below F q d (x @ ''/'') = {d @ x # r | r. r \<noteq> [] \<and> q @ x # r \<in> F}"
  by (simp add: below_def HasSuffix_char)

text \<open>A member that the listing can follow: the name of a file, or a directory with its slash.\<close>

definition entry :: "string list set \<Rightarrow> string list \<Rightarrow> string \<Rightarrow> bool" where
  "entry F q k \<longleftrightarrow> (\<exists>x. seg_ok x \<and> (k = x \<and> q @ [x] \<in> F \<or> k = x @ ''/''))"

lemma entry_cases:
  assumes "entry F q k"
  obtains (leaf) b where "k = b" "seg_ok b" "q @ [b] \<in> F" | (subdir) x where "k = x @ ''/''" "seg_ok x"
  using assms by (auto simp: entry_def)

lemma children_entry: "k \<in> children F q \<Longrightarrow> \<forall>p \<in> F. canon p \<Longrightarrow> entry F q k"
  by (erule children_cases) (auto simp: entry_def)

lemma below_disjoint: "entry F q k \<Longrightarrow> entry F q k' \<Longrightarrow> k \<noteq> k' \<Longrightarrow> below F q d k \<inter> below F q d k' = {}"
  by (erule entry_cases; erule entry_cases) (auto simp: below_file below_dir)

lemma below_all:
  assumes F: "\<forall>p \<in> F. canon p" and M: "children F q \<subseteq> M" "\<forall>k \<in> M. entry F q k"
  shows "(\<Union>k \<in> M. below F q d k) = {d @ r | r. r \<noteq> [] \<and> q @ r \<in> F}"
proof (intro set_eqI iffI)
  fix p assume "p \<in> (\<Union>k \<in> M. below F q d k)"
  then obtain k where k: "entry F q k" "p \<in> below F q d k" using M(2) by blast
  from k(1) show "p \<in> {d @ r | r. r \<noteq> [] \<and> q @ r \<in> F}"
    by (cases rule: entry_cases) (use k(2) in \<open>auto simp: below_file below_dir\<close>)
next
  fix p assume "p \<in> {d @ r | r. r \<noteq> [] \<and> q @ r \<in> F}"
  then obtain x r where p: "p = d @ x # r" "q @ x # r \<in> F" by (auto simp: neq_Nil_conv)
  with F have "seg_ok x" by fastforce
  then have "\<exists>k \<in> children F q. p \<in> below F q d k"
    using p by (cases "r = []") (force simp: children_def below_file, force simp: children_def below_dir)
  then show "p \<in> (\<Union>k \<in> M. below F q d k)" using M(1) by blast
qed

subsection \<open>The loop over the children\<close>

lemma list_children_recursive:
  assumes d: "canon d"
    and rec: "\<And>x s. x @ ''/'' \<in> M \<Longrightarrow> seg_ok x \<Longrightarrow> ok s \<Longrightarrow>
      \<exists>ps s'. rec (pjoin (d @ [x])) s = Some (Ok (map pjoin ps), s') \<and> ok s' \<and> distinct ps
        \<and> set ps = {d @ x # r | r. r \<noteq> [] \<and> q @ x # r \<in> F}"
    and M: "\<And>k. k \<in> M \<Longrightarrow> entry F q k"
  shows "set keys \<subseteq> M \<Longrightarrow> distinct keys \<Longrightarrow> ok s \<Longrightarrow>
    \<exists>ps s'. list_children rec (pjoin d) True keys acc s = Some (Ok (acc @ map pjoin ps), s') \<and> ok s'
      \<and> distinct ps \<and> set ps = (\<Union>k \<in> set keys. below F q d k)"
proof (induction keys arbitrary: acc s)
  case Nil
  then show ?case by (auto intro!: exI [of _ "[]"])
next
  case (Cons k keys)
  have dis: "below F q d k \<inter> (\<Union>k' \<in> set keys. below F q d k') = {}"
    using Cons.prems(1,2) below_disjoint [OF M M, of k _ d] by fastforce
  have IH: "\<exists>ps s'. list_children rec (pjoin d) True keys acc' s1 = Some (Ok (acc' @ map pjoin ps), s') \<and> ok s'
      \<and> distinct ps \<and> set ps = (\<Union>k \<in> set keys. below F q d k)" if "ok s1" for acc' s1
    using Cons.IH [OF _ _ that] Cons.prems by auto
  have k: "k \<in> M" using Cons.prems(1) by simp
  from M [OF this] show ?case
  proof (cases rule: entry_cases)
    case (leaf b)
    from IH [OF Cons.prems(3), of "acc @ [pjoin (d @ [b])]"] obtain ps s' where ps:
      "list_children rec (pjoin d) True keys (acc @ [pjoin (d @ [b])]) s = Some (Ok ((acc @ [pjoin (d @ [b])]) @ map pjoin ps), s')"
      "ok s'" "distinct ps" "set ps = (\<Union>k \<in> set keys. below F q d k)" by blast
    have "list_children rec (pjoin d) True (k # keys) acc s = Some (Ok (acc @ map pjoin ((d @ [b]) # ps)), s')"
      using leaf ps(1) d by (simp add: TrimSuffix_seg join_child)
    moreover have "distinct ((d @ [b]) # ps)" "set ((d @ [b]) # ps) = (\<Union>k \<in> set (k # keys). below F q d k)"
      using leaf ps dis by (auto simp: below_file)
    ultimately show ?thesis using ps(2) by blast
  next
    case (subdir x)
    from rec [OF k [unfolded subdir(1)] subdir(2) Cons.prems(3)] obtain ps1 s1 where s1:
      "rec (pjoin (d @ [x])) s = Some (Ok (map pjoin ps1), s1)" "ok s1" "distinct ps1"
      "set ps1 = below F q d k" unfolding subdir(1) below_dir by blast
    from IH [OF s1(2), of "acc @ map pjoin ps1"] obtain ps s' where ps:
      "list_children rec (pjoin d) True keys (acc @ map pjoin ps1) s1 = Some (Ok ((acc @ map pjoin ps1) @ map pjoin ps), s')"
      "ok s'" "distinct ps" "set ps = (\<Union>k \<in> set keys. below F q d k)" by blast
    have "list_children rec (pjoin d) True (k # keys) acc s = Some (Ok (acc @ map pjoin (ps1 @ ps)), s')"
      using subdir ps(1) s1(1) d by (simp add: TrimSuffix_dir join_child prog_simps)
    moreover have "distinct (ps1 @ ps)" "set (ps1 @ ps) = (\<Union>k \<in> set (k # keys). below F q d k)"
      using s1 ps dis by auto
    ultimately show ?thesis using ps(2) by blast
  qed
qed

lemma list_children_flat:
  assumes F: "\<forall>p \<in> F. canon p" and d: "canon d"
  shows "set keys \<subseteq> children F q \<Longrightarrow>
    list_children rec (pjoin d) False keys acc s =
      Some (Ok (acc @ map (\<lambda>k. pjoin (d @ [TrimSuffix k keyPathSeparator])) keys), s)"
proof (induction keys arbitrary: acc)
  case (Cons k keys)
  have "k \<in> children F q" using Cons.prems by simp
  then have "seg_ok (TrimSuffix k keyPathSeparator)" using F
    by (cases rule: children_cases) (auto simp: TrimSuffix_seg TrimSuffix_dir)
  with Cons d show ?case by (simp add: join_child)
qed simp

subsection \<open>Directories in order\<close>

text \<open>
  The set at \<open>q\<close> lists all files and directories of \<open>F\<close> below \<open>q\<close>, and otherwise only directories,
  for which the same holds and which satisfy \<open>A\<close>: those may be empty. The index of \<open>F\<close> is in order
  everywhere, without such directories.
\<close>

inductive tidy :: "rdb \<Rightarrow> string list set \<Rightarrow> (string list \<Rightarrow> bool) \<Rightarrow> string list \<Rightarrow> bool" for db F A where
  tidyI: "(\<And>v. db (pjoin q) \<noteq> Some (RStr v)) \<Longrightarrow> zdist db q \<Longrightarrow> children F q \<subseteq> zmem db q \<Longrightarrow>
    (\<And>k. k \<in> zmem db q \<Longrightarrow> \<exists>x. seg_ok x \<and> (k = x \<and> q @ [x] \<in> F \<or> k = x @ ''/'' \<and> A (q @ [x]) \<and> tidy db F A (q @ [x]))) \<Longrightarrow> tidy db F A q"

inductive_simps tidy_iff: "tidy db F A q"

lemma index_tidy:
  assumes I: "index_of t F db"
  shows "q \<in> paths_under t \<Longrightarrow> \<forall>v. db (pjoin q) \<noteq> Some (RStr v) \<Longrightarrow> \<forall>r. q @ r \<in> F \<longrightarrow> length r \<le> n \<Longrightarrow> tidy db F (\<lambda>_. True) q"
proof (induction n arbitrary: q rule: less_induct)
  case (less n)
  have F: "\<forall>p \<in> F. canon p" using I by (auto simp: index_of_def paths_under_def)
  note Z = index_zmem [OF I less.prems(1)]
  show ?case
  proof (rule tidyI)
    fix k assume "k \<in> zmem db q"
    then have "k \<in> children F q" using Z by simp
    then show "\<exists>x. seg_ok x \<and> (k = x \<and> q @ [x] \<in> F \<or> k = x @ ''/'' \<and> True \<and> tidy db F (\<lambda>_. True) (q @ [x]))" using F
    proof (cases rule: children_cases)
      case (subdir d r)
      have qd: "q @ [d] \<in> paths_under t" using less.prems(1) subdir(2) by (auto simp: paths_under_def)
      have "children F (q @ [d]) \<noteq> {}" using subdir by (auto simp: children_empty_iff)
      then have "\<forall>v. db (pjoin (q @ [d])) \<noteq> Some (RStr v)" using index_dir_at [OF I qd] by (auto simp: dir_at_def)
      moreover have "length (d # r) \<le> n" using less.prems(3) subdir by blast
      then have "n - 1 < n" by simp
      moreover have "\<forall>r. (q @ [d]) @ r \<in> F \<longrightarrow> length r \<le> n - 1" using less.prems(3) by fastforce
      ultimately show ?thesis using less.IH [OF _ qd] subdir by blast
    qed blast
  qed (use less.prems(2) Z in auto)
qed

subsection \<open>List\<close>

context redis_server
begin

lemma range_usable:
  assumes D: "rapi D = R" and use: "usable (sys D) rs s" and key: "\<forall>v. view (world s) key \<noteq> Some (RStr v)"
  obtains s' where "withReconnectOnClosed (sys D) rs (\<lambda>c. wrapP (errorf_v m) (call (api_ZRange R key) c)) s =
      Some (Ok (case view (world s) key of Some (RZSet z) \<Rightarrow> map fst z | _ \<Rightarrow> []), s')"
    and "view (world s') = view (world s)" and "up (world s') = up (world s)" and "usable (sys D) rs s'"
proof -
  let ?op = "\<lambda>c. wrapP (errorf_v m) (call (api_ZRange R key) c)"
  let ?r = "case view (world s) key of Some (RZSet z) \<Rightarrow> map fst z | _ \<Rightarrow> []"
  let ?Q = "\<lambda>r db'. r = Ok ?r \<and> db' = view (world s)"
  have spec: "spec_ZRange key (view (world s)) = (Inr ?r, view (world s))"
    using key by (auto simp: spec_ZRange_def split: option.split rval.split)
  have "\<exists>r t'. ?op (Some c) t = Some (r, t') \<and> conn t t' \<and> ?Q r (view (world t'))
      \<and> (\<forall>e. r = Err e \<longrightarrow> \<not> isClientClosedErr e)"
    if up: "up (world t) c" and v: "view (world t) = view (world s)" for c t
  proof -
    from call_up [OF ZRange up, of key] obtain t' where
      "call (api_ZRange R key) (Some c) t = Some (Ok ?r, t')" "view (world t') = view (world s)" "conn t t'"
      using v spec by auto
    then show ?thesis by (simp add: prog_simps)
  qed
  moreover have "\<exists>e t'. ?op (Some c) t = Some (Err e, t') \<and> isClientClosedErr e \<and> conn t t'
      \<and> view (world t') = view (world t)" if cl: "closed (world t) c" for c t
  proof -
    from call_closed [OF ZRange cl, of key] obtain t' where
      "call (api_ZRange R key) (Some c) t = Some (Err closedErr, t')"
      "view (world t') = view (world t)" "conn t t'" .
    then show ?thesis by (simp add: prog_simps)
  qed
  ultimately obtain r s' where "withReconnectOnClosed (sys D) rs ?op s = Some (r, s')"
    "?Q r (view (world s'))" "up (world s') = up (world s)" "usable (sys D) rs s'"
    using with_reconnect [OF D use, of ?op ?Q thesis] by blast
  then show thesis by (intro that [of s']) auto
qed

lemma List_tidy:
  assumes D: "rapi D = R" and pre: "prefixed rs pre" and F: "\<forall>p \<in> F. canon p" and "tidy db F A q"
  shows "q = pre @ d \<Longrightarrow> canon d \<Longrightarrow> usable (sys D) rs s \<and> view (world s) = db \<and> up (world s) = U \<Longrightarrow>
    \<exists>ps s'. List_keys D rs (pjoin d) True s = Some (Ok (map pjoin ps), s')
      \<and> (usable (sys D) rs s' \<and> view (world s') = db \<and> up (world s') = U)
      \<and> distinct ps \<and> set ps = {d @ r | r. r \<noteq> [] \<and> q @ r \<in> F}"
  using assms(4)
proof (induction arbitrary: d s)
  case (tidyI q)
  let ?ok = "\<lambda>s. usable (sys D) rs s \<and> view (world s) = db \<and> up (world s) = U"
  let ?keys = "case db (pjoin q) of Some (RZSet z) \<Rightarrow> map fst z | _ \<Rightarrow> []"
  have pk: "prefixKey rs (pjoin d) = pjoin q" using pre tidyI.prems by (simp add: prefixed_def prefixKey_canon)
  have use: "usable (sys D) rs s" and v: "view (world s) = db" and u: "up (world s) = U" using tidyI.prems(3) by simp_all
  have nostr: "\<forall>v. view (world s) (pjoin q) \<noteq> Some (RStr v)" using tidyI.hyps(1) v by simp
  obtain s1 where s1: "withReconnectOnClosed (sys D) rs (\<lambda>c. wrapP (errorf_v
        (''Unable to get range on sorted set '' @ CHR 0x27 # pjoin q @ CHR 0x27 # '': '')) (call (api_ZRange R (pjoin q)) c)) s =
      Some (Ok ?keys, s1)" "view (world s1) = db" "up (world s1) = up (world s)" "usable (sys D) rs s1"
    by (rule range_usable [OF D use nostr, unfolded v])
  have K: "set ?keys = zmem db q" "distinct ?keys"
    using tidyI.hyps(2) by (auto simp: zmem_def zdist_def split: option.splits rval.splits)
  have M: "entry F q k" if "k \<in> zmem db q" for k using tidyI.IH [OF that] by (auto simp: entry_def)
  have rec: "\<exists>ps s'. List_keys D rs (pjoin (d @ [x])) True s = Some (Ok (map pjoin ps), s') \<and> ?ok s' \<and> distinct ps
      \<and> set ps = {d @ x # r | r. r \<noteq> [] \<and> q @ x # r \<in> F}"
    if x: "x @ ''/'' \<in> zmem db q" "seg_ok x" "?ok s" for x s
  proof -
    from tidyI.IH [OF x(1)] show ?thesis
    proof (elim exE conjE disjE)
      fix y assume "seg_ok y" "x @ ''/'' = y"
      then show ?thesis using seg_ok_no_slash [of y x] by simp
    next
      fix y
      assume y: "x @ ''/'' = y @ ''/''" and IH: "\<forall>d. q @ [y] = pre @ d \<longrightarrow> canon d \<longrightarrow> (\<forall>s. ?ok s \<longrightarrow>
        (\<exists>ps s'. List_keys D rs (pjoin d) True s = Some (Ok (map pjoin ps), s') \<and> ?ok s' \<and> distinct ps
          \<and> set ps = {d @ r | r. r \<noteq> [] \<and> (q @ [y]) @ r \<in> F}))"
      from IH [rule_format, of "d @ [x]" s] show ?thesis using x tidyI.prems(1,2) y by simp
    qed
  qed
  have ks: "set ?keys \<subseteq> zmem db q" and ok1: "?ok s1" using K(1) s1(2-4) u by simp_all
  have "\<exists>ps s'. list_children (\<lambda>d. List_keys D rs d True) (pjoin d) True ?keys [] s1 = Some (Ok ([] @ map pjoin ps), s')
      \<and> ?ok s' \<and> distinct ps \<and> set ps = (\<Union>k \<in> set ?keys. below F q d k)"
    by (rule list_children_recursive [where ok = ?ok and M = "zmem db q", OF tidyI.prems(2) _ _ ks K(2) ok1]) (rule rec, assumption+, rule M)
  then obtain ps s' where ps: "list_children (\<lambda>d. List_keys D rs d True) (pjoin d) True ?keys [] s1 = Some (Ok (map pjoin ps), s')"
    "?ok s'" "distinct ps" "set ps = (\<Union>k \<in> set ?keys. below F q d k)" unfolding append_Nil by blast
  have "List_keys D rs (pjoin d) True s = Some (Ok (map pjoin ps), s')"
    using s1(1) ps(1) D by (subst List_keys.simps) (simp add: pk prog_simps)
  moreover have "set ps = {d @ r | r. r \<noteq> [] \<and> q @ r \<in> F}"
    unfolding ps(4) K(1) using below_all [OF F tidyI.hyps(3)] M by simp
  ultimately show ?case using ps by blast
qed

lemma index_range:
  assumes "index_of t F db" and "q \<in> paths_under t"
  defines "keys \<equiv> (case db (pjoin q) of Some (RZSet z) \<Rightarrow> map fst z | _ \<Rightarrow> [])"
  shows "set keys = children F q" and "distinct keys"
  using index_zmem [OF assms(1,2)]
  by (auto simp: keys_def zmem_def zdist_def split: option.splits rval.splits)

text \<open>Without recursion: the direct children, directories without their slash.\<close>

lemma List_flat:
  assumes D: "rapi D = R" and pre: "prefixed rs pre" and I: "index_of (hd pre) F (view (world s))" and d: "canon d"
    and nostr: "\<forall>v. view (world s) (pjoin (pre @ d)) \<noteq> Some (RStr v)" and use: "usable (sys D) rs s"
  shows "\<exists>keys s'. List_keys D rs (pjoin d) False s =
      Some (Ok (map (\<lambda>k. pjoin (d @ [TrimSuffix k keyPathSeparator])) keys), s')
    \<and> usable (sys D) rs s' \<and> view (world s') = view (world s) \<and> up (world s') = up (world s) \<and> distinct keys \<and> set keys = children F (pre @ d)"
proof -
  let ?q = "pre @ d"
  let ?keys = "case view (world s) (pjoin ?q) of Some (RZSet z) \<Rightarrow> map fst z | _ \<Rightarrow> []"
  have F: "\<forall>p \<in> F. canon p" using I by (auto simp: index_of_def paths_under_def)
  have q: "?q \<in> paths_under (hd pre)" and pk: "prefixKey rs (pjoin d) = pjoin ?q"
    using pre d by (auto simp: prefixed_def paths_under_def prefixKey_canon)
  note K = index_range [OF I q]
  obtain s1 where s1: "withReconnectOnClosed (sys D) rs (\<lambda>c. wrapP (errorf_v
        (''Unable to get range on sorted set '' @ CHR 0x27 # pjoin ?q @ CHR 0x27 # '': '')) (call (api_ZRange R (pjoin ?q)) c)) s =
      Some (Ok ?keys, s1)" "view (world s1) = view (world s)" "up (world s1) = up (world s)" "usable (sys D) rs s1"
    by (rule range_usable [OF D use nostr])
  have "List_keys D rs (pjoin d) False s =
      Some (Ok (map (\<lambda>k. pjoin (d @ [TrimSuffix k keyPathSeparator])) ?keys), s1)"
    using s1(1) D list_children_flat [OF F d, of ?keys ?q _ "[]"] K(1)
    by (subst List_keys.simps) (simp add: pk prog_simps)
  then show ?thesis using K s1 by blast
qed

text \<open>
  The empty prefix: no operation of \<open>Store\<close> touches the key that \<open>List\<close> reads for the root, which
  is the empty string. The climb ends at the first segment of the key.
\<close>

lemma spec_ZAdd_other: "k \<noteq> x \<Longrightarrow> snd (spec_ZAdd k sc m db) x = db x"
  by (auto simp: spec_ZAdd_def split: option.split rval.split)

lemma storeDirectoryRecord_root:
  assumes "canon p" and "p \<noteq> []" and "up (world s) c" and "no_file_above (view (world s)) p"
  shows "\<exists>s'. storeDirectoryRecord R (Some c) (pjoin p) sc rep isdir s = Some (Ok (), s') \<and> conn s s'
    \<and> view (world s') [] = view (world s) []"
  using assms
proof (induction p arbitrary: isdir s rule: rev_induct)
  case (snoc b ps)
  note split = splitDirectoryKey_canon [OF snoc.prems(1), of isdir]
  show ?case
  proof (cases "ps = []")
    case True
    then show ?thesis using split by (subst storeDirectoryRecord.simps) simp
  next
    case False
    let ?b = "if isdir then b @ ''/'' else b" and ?db = "view (world s)"
    have ps: "canon ps" "pjoin ps \<noteq> ''.''" "pjoin ps \<noteq> []"
      using snoc.prems(1) False by (simp_all add: pjoin_neq_dot pjoin_eq_Nil)
    have nofile: "\<forall>v. ?db (pjoin ps) \<noteq> Some (RStr v)"
      using snoc.prems(4) False unfolding no_file_above_def by blast
    then have "\<exists>n v. spec_ZAdd (pjoin ps) sc ?b ?db = (Inr n, ?db(pjoin ps := v))"
      unfolding spec_ZAdd_def by (cases "?db (pjoin ps)") (auto split: rval.split)
    then obtain n v where eff: "spec_ZAdd (pjoin ps) sc ?b ?db = (Inr n, ?db(pjoin ps := v))" by blast
    with call_up [OF ZAdd snoc.prems(3), of "pjoin ps" sc ?b] obtain s1 where
      s1: "call (api_ZAdd R (pjoin ps) sc ?b) (Some c) s = Some (Ok n, s1)" "view (world s1) = ?db(pjoin ps := v)" "conn s s1"
      by auto
    have run: "storeDirectoryRecord R (Some c) (pjoin (ps @ [b])) sc rep isdir s =
        (if n > 0 \<or> rep then storeDirectoryRecord R (Some c) (pjoin ps) sc rep True s1 else Some (Ok (), s1))"
      using split False ps(2) s1(1) by (subst storeDirectoryRecord.simps) (simp add: prog_simps)
    have up1: "up (world s1) c" using s1(3) snoc.prems(3) by (simp add: conn_up)
    have above: "no_file_above (view (world s1)) ps" unfolding s1(2) by (rule no_file_above_upd [OF ps(1) snoc.prems(4)])
    from snoc.IH [OF ps(1) False up1 above, of True] run s1(2,3) ps(3) show ?thesis
      by (auto intro: conn_trans)
  qed
qed simp

lemma storeOp_root_live:
  assumes D: "rapi D = R" and k: "canon k" "k \<noteq> []" and up: "up (world s) c" and above: "no_file_above (view (world s)) k"
  shows "\<exists>s'. storeOp D key (pjoin k) sc j (Some c) s = Some (Ok (), s') \<and> conn s s'
    \<and> view (world s') [] = view (world s) [] \<and> view (world s') (pjoin k) = Some (RStr j)"
proof -
  from storeDirectoryRecord_root [OF k up above, of sc False False] obtain s1 where s1:
    "storeDirectoryRecord R (Some c) (pjoin k) sc False False s = Some (Ok (), s1)" "conn s s1"
    "view (world s1) [] = view (world s) []" by blast
  have up1: "up (world s1) c" using s1(2) up by (simp add: conn_up)
  from call_up [OF Set up1, of "pjoin k" j] obtain s2 where s2: "call (api_Set R (pjoin k) j) (Some c) s1 = Some (Ok (), s2)"
    "view (world s2) = (view (world s1))(pjoin k \<mapsto> RStr j)" "conn s1 s2" by (auto simp: spec_Set_def)
  have "pjoin k \<noteq> []" using k by (simp add: pjoin_eq_Nil)
  with s1 s2 conn_trans [OF s1(2) s2(3)] D show ?thesis by (auto simp: storeOp_def prog_simps)
qed

lemma storeOp_root_dead:
  assumes D: "rapi D = R" and k: "canon k" "k \<noteq> []" and cl: "closed (world s) c"
  shows "\<exists>e s'. storeOp D key (pjoin k) sc j (Some c) s = Some (Err e, s') \<and> isClientClosedErr e
    \<and> conn s s' \<and> view (world s') = view (world s)"
proof (cases "length k \<ge> 2")
  case True
  then show ?thesis using storeOp_dead [OF D cl k(1)] by blast
next
  case False
  with k(2) obtain b where b: "k = [] @ [b]" by (cases k) (auto simp: not_le less_Suc_eq)
  from call_closed [OF Set cl, of "pjoin k" j] obtain s1 where s1: "call (api_Set R (pjoin k) j) (Some c) s = Some (Err closedErr, s1)"
    "view (world s1) = view (world s)" "conn s s1" .
  have "storeDirectoryRecord R (Some c) (pjoin k) sc False False s = Some (Ok (), s)"
    using splitDirectoryKey_canon [of "[]" b False] k(1) b by (subst storeDirectoryRecord.simps) simp
  with s1 D show ?thesis by (simp add: storeOp_def prog_simps)
qed

lemma Store_root:
  assumes D: "rapi D = R" and use: "usable (sys D) rs s" and pre: "KeyPrefix rs = ''''" and k: "canon k" "k \<noteq> []"
    and above: "no_file_above (view (world s)) k"
    and sd: "storageValue D rs now rnd (pjoin k) v = Inr sd" "sd_Marshal (js D) sd = Inr j"
  shows "\<exists>s'. Store D rs now rnd (pjoin k) v s = Some (Ok (), s') \<and> usable (sys D) rs s'
    \<and> view (world s') '''' = view (world s) '''' \<and> view (world s') (pjoin k) = Some (RStr j)"
proof -
  have pk: "prefixKey rs (pjoin k) = pjoin k" using prefixKey_canon [of rs "[]" k] pre k by simp
  let ?op = "storeOp D (pjoin k) (pjoin k) (Unix (Modified sd)) j"
  let ?Q = "\<lambda>r db'. r = Ok () \<and> db' [] = view (world s) [] \<and> db' (pjoin k) = Some (RStr j)"
  have "\<exists>r t'. ?op (Some c) t = Some (r, t') \<and> conn t t' \<and> ?Q r (view (world t'))
      \<and> (\<forall>e. r = Err e \<longrightarrow> \<not> isClientClosedErr e)"
    if "up (world t) c" "view (world t) = view (world s)" for c t
    using storeOp_root_live [OF D k that(1), of "pjoin k" "Unix (Modified sd)" j] that(2) above by auto
  moreover have "\<exists>e t'. ?op (Some c) t = Some (Err e, t') \<and> isClientClosedErr e \<and> conn t t'
      \<and> view (world t') = view (world t)" if "closed (world t) c" for c t
    using storeOp_root_dead [OF D k that] by blast
  ultimately obtain r s' where "withReconnectOnClosed (sys D) rs ?op s = Some (r, s')"
    "?Q r (view (world s'))" "usable (sys D) rs s'"
    using with_reconnect [OF D use, of ?op ?Q thesis] by blast
  then show ?thesis using sd pk by (auto simp: Store_def)
qed

lemma List_root_empty:
  assumes D: "rapi D = R" and use: "usable (sys D) rs s" and pre: "KeyPrefix rs = ''''" and root: "view (world s) '''' = None"
  shows "\<exists>s'. List_keys D rs '''' recursive s = Some (Ok [], s')"
proof -
  have pk: "prefixKey rs '''' = ''''" using prefixKey_canon [of rs "[]" "[]"] pre by simp
  have "\<forall>v. view (world s) '''' \<noteq> Some (RStr v)" using root by simp
  from range_usable [OF D use this, where m = "''Unable to get range on sorted set '' @ CHR 0x27 # '''' @ CHR 0x27 # '': ''"] root
  obtain s1 where "withReconnectOnClosed (sys D) rs (\<lambda>c. wrapP (errorf_v (''Unable to get range on sorted set '' @ CHR 0x27 # '''' @ CHR 0x27 # '': ''))
      (call (api_ZRange R '''') c)) s = Some (Ok [], s1)" by auto
  then show ?thesis using D by (subst List_keys.simps) (simp add: pk prog_simps)
qed

end

end
