(* ===== verification/Refinement.thy ===== *)
theory Refinement
  imports Listing
begin

section \<open>The storage refines a map\<close>

text \<open>
  The contract that certmagic expects of a storage, as the locale \<open>kv_store\<close>: an abstraction
  relation between states and finite maps that every operation respects. Its client lemmas are
  about sequences of operations. The locale \<open>storage_instance\<close> is one configured storage over a
  Redis server; \<open>Store\<close>, \<open>Delete\<close>, \<open>Load\<close>, \<open>Exists\<close> and \<open>List\<close> on it are
  shown to be a \<open>kv_store\<close>.
\<close>

subsection \<open>The contract\<close>

datatype ('k, 'a) kvop = Put 'k 'a | Del 'k

fun run_ops :: "('k \<Rightarrow> 'a \<Rightarrow> ('s, unit) prog) \<Rightarrow> ('k \<Rightarrow> ('s, unit) prog) \<Rightarrow> ('k, 'a) kvop list \<Rightarrow> ('s, unit) prog" where
  "run_ops put del [] = ret ()"
| "run_ops put del (Put k a # ops) = bindP (put k a) (\<lambda>_. run_ops put del ops)"
| "run_ops put del (Del k # ops) = bindP (del k) (\<lambda>_. run_ops put del ops)"

fun abs_op :: "('a \<Rightarrow> 'v) \<Rightarrow> ('k, 'a) kvop \<Rightarrow> ('k \<rightharpoonup> 'v) \<Rightarrow> ('k \<rightharpoonup> 'v)" where
  "abs_op val (Put k a) m = m(k \<mapsto> val a)"
| "abs_op val (Del k) m = m(k := None)"

fun op_ok :: "(('k \<rightharpoonup> 'v) \<Rightarrow> 'k \<Rightarrow> bool) \<Rightarrow> ('k \<Rightarrow> 'a \<Rightarrow> bool) \<Rightarrow> ('k, 'a) kvop \<Rightarrow> ('k \<rightharpoonup> 'v) \<Rightarrow> bool" where
  "op_ok fits storable (Put k a) m = (fits m k \<and> storable k a)"
| "op_ok fits storable (Del k) m = fits m k"

fun ops_ok :: "(('k \<rightharpoonup> 'v) \<Rightarrow> 'k \<Rightarrow> bool) \<Rightarrow> ('k \<Rightarrow> 'a \<Rightarrow> bool) \<Rightarrow> ('a \<Rightarrow> 'v) \<Rightarrow> ('k, 'a) kvop list \<Rightarrow> ('k \<rightharpoonup> 'v) \<Rightarrow> bool" where
  "ops_ok fits storable val [] m = True"
| "ops_ok fits storable val (x # ops) m = (op_ok fits storable x m \<and> ops_ok fits storable val ops (abs_op val x m))"

locale kv_store =
  fixes st :: "'s \<Rightarrow> ('k \<rightharpoonup> 'v) \<Rightarrow> bool"
    and fits :: "('k \<rightharpoonup> 'v) \<Rightarrow> 'k \<Rightarrow> bool"
    and storable :: "'k \<Rightarrow> 'a \<Rightarrow> bool"
    and val :: "'a \<Rightarrow> 'v"
    and put :: "'k \<Rightarrow> 'a \<Rightarrow> ('s, unit) prog"
    and del :: "'k \<Rightarrow> ('s, unit) prog"
    and get :: "'k \<Rightarrow> ('s, 'v) prog"
    and ex :: "'k \<Rightarrow> ('s, bool) prog"
    and keys :: "('s, 'n list) prog"
    and name :: "'k \<Rightarrow> 'n"
  assumes put: "st s m \<Longrightarrow> fits m k \<Longrightarrow> storable k a \<Longrightarrow> \<exists>s'. put k a s = Some (Ok (), s') \<and> st s' (m(k \<mapsto> val a))"
    and del: "st s m \<Longrightarrow> fits m k \<Longrightarrow> \<exists>s'. del k s = Some (Ok (), s') \<and> st s' (m(k := None))"
    and get: "st s m \<Longrightarrow> m k = Some v \<Longrightarrow> \<exists>s'. get k s = Some (Ok v, s') \<and> st s' m"
    and get_absent: "st s m \<Longrightarrow> fits m k \<Longrightarrow> m k = None \<Longrightarrow>
      \<exists>e s'. get k s = Some (Err e, s') \<and> errors_Is e ErrNotExist \<and> st s' m"
    and ex: "st s m \<Longrightarrow> fits m k \<Longrightarrow> \<exists>s'. ex k s = Some (Ok (m k \<noteq> None), s') \<and> st s' m"
    and keys: "st s m \<Longrightarrow> \<exists>ks s'. keys s = Some (Ok ks, s') \<and> distinct ks \<and> set ks = name ` dom m \<and> st s' m"
begin

text \<open>Every sequence of operations on fitting keys succeeds and does to the state what it does to the map.\<close>

lemma run_refines:
  "st s m \<Longrightarrow> ops_ok fits storable val ops m \<Longrightarrow>
   \<exists>s'. run_ops put del ops s = Some (Ok (), s') \<and> st s' (fold (abs_op val) ops m)"
proof (induction ops arbitrary: s m)
  case (Cons x ops)
  obtain s1 where s1: "st s1 (abs_op val x m)" "run_ops put del (x # ops) s = run_ops put del ops s1"
  proof (cases x)
    case (Put k a)
    with put [OF Cons.prems(1), of k a] Cons.prems(2) that show thesis by (force simp: prog_simps)
  next
    case (Del k)
    with del [OF Cons.prems(1), of k] Cons.prems(2) that show thesis by (force simp: prog_simps)
  qed
  with Cons.IH [OF s1(1)] Cons.prems(2) show ?case by simp
qed simp

text \<open>The last write wins, and what was removed is gone.\<close>

lemma run_get:
  assumes "st s m" and "ops_ok fits storable val ops m" and "fold (abs_op val) ops m k = Some v"
  shows "\<exists>s' s''. run_ops put del ops s = Some (Ok (), s') \<and> get k s' = Some (Ok v, s'')"
  using run_refines [OF assms(1,2)] get [where m = "fold (abs_op val) ops m", OF _ assms(3)] by blast

lemma run_keys:
  assumes "st s m" and "ops_ok fits storable val ops m"
  shows "\<exists>s' ks s''. run_ops put del ops s = Some (Ok (), s') \<and> keys s' = Some (Ok ks, s'')
    \<and> distinct ks \<and> set ks = name ` dom (fold (abs_op val) ops m)"
  using run_refines [OF assms] keys by blast

end

subsection \<open>One configured storage\<close>

text \<open>
  \<open>X\<close>: files under the same top segment that belong to storages with another prefix. \<open>L\<close>: the
  strings that locks keep there. A key fits when no other key is a directory above or below it.
\<close>

definition files :: "string list \<Rightarrow> string list set \<Rightarrow> (string list \<rightharpoonup> bytes) \<Rightarrow> string list set" where
  "files pre X m = X \<union> (@) pre ` dom m"

definition fits_in :: "string list \<Rightarrow> string list set \<Rightarrow> string list set \<Rightarrow> (string list \<rightharpoonup> bytes) \<Rightarrow> string list \<Rightarrow> bool" where
  "fits_in pre X L m k \<longleftrightarrow> canon k \<and> k \<noteq> [] \<and> pre @ k \<notin> L
     \<and> (\<forall>q \<in> files pre X m \<union> L. \<not> strict_prefix q (pre @ k)) \<and> (\<forall>q \<in> files pre X m. \<not> strict_prefix (pre @ k) q)"

definition storable_as :: "'w deps \<Rightarrow> RedisStorage \<Rightarrow> string list \<Rightarrow> time \<times> bytes \<times> bytes \<Rightarrow> bool" where
  "storable_as D rs k a = (case a of (now, nonce, v) \<Rightarrow> length nonce = NonceSize \<and> length v \<le> maxDecompressedBytes
     \<and> (case storageValue D rs now (Inr nonce) (pjoin k) v of Inl _ \<Rightarrow> False
         | Inr sd \<Rightarrow> (case sd_Marshal (js D) sd of Inl _ \<Rightarrow> False
             | Inr j \<Rightarrow> j \<noteq> [] \<and> sd_Unmarshal (js D) j = Inr sd)))"

text \<open>The value a reader gets for a path out of a keyspace.\<close>

definition contents :: "'w deps \<Rightarrow> RedisStorage \<Rightarrow> string list \<Rightarrow> rdb \<Rightarrow> string list \<Rightarrow> bytes option" where
  "contents D rs pre db k = (case loadResult D (pjoin k) (db (pjoin (pre @ k))) of
      Ok sd \<Rightarrow> (case loadedValue D rs (pjoin k) sd of Inr v \<Rightarrow> Some v | Inl _ \<Rightarrow> None)
    | _ \<Rightarrow> None)"

definition db_rel :: "'w deps \<Rightarrow> RedisStorage \<Rightarrow> string list \<Rightarrow> string list set \<Rightarrow> string list set
    \<Rightarrow> rdb \<Rightarrow> (string list \<rightharpoonup> bytes) \<Rightarrow> bool" where
  "db_rel D rs pre X L db m \<longleftrightarrow> store_inv (hd pre) (files pre X m) db \<and> m [] = None
     \<and> (\<forall>p \<in> paths_under (hd pre). \<forall>v. db (pjoin p) = Some (RStr v) \<longrightarrow> p \<in> files pre X m \<union> L)
     \<and> (\<forall>k v. m k = Some v \<longrightarrow> contents D rs pre db k = Some v)"

definition put_key :: "'w deps \<Rightarrow> RedisStorage \<Rightarrow> string list \<Rightarrow> time \<times> bytes \<times> bytes \<Rightarrow> ('w proc, unit) prog" where
  "put_key D rs k a = (case a of (now, nonce, v) \<Rightarrow> Store D rs now (Inr nonce) (pjoin k) v)"

lemma fits_placeable:
  assumes pre: "prefixed rs pre" and rel: "db_rel D rs pre X L db m" and fit: "fits_in pre X L m k"
  shows "placeable db (pre @ k)"
proof -
  have I: "index_of (hd pre) (files pre X m) db" using rel by (simp add: db_rel_def store_inv_def)
  have k: "canon k" "k \<noteq> []" using fit by (simp_all add: fits_in_def)
  note P = prefixed_path(2) [OF pre k]
  have "db (pjoin q) \<noteq> Some (RStr v)" if q: "pre @ k = q @ r" "q \<noteq> []" "r \<noteq> []" for q r v
  proof
    assume "db (pjoin q) = Some (RStr v)"
    moreover have "q \<in> paths_under (hd pre)" using P q by (auto simp: paths_under_def)
    ultimately have "q \<in> files pre X m \<union> L" using rel by (auto simp: db_rel_def)
    moreover have "strict_prefix q (pre @ k)" using q by (auto simp: strict_prefix_def)
    ultimately show False using fit by (auto simp: fits_in_def)
  qed
  moreover have "children (files pre X m) (pre @ k) = {}"
    unfolding children_empty_iff
  proof (intro allI impI notI)
    fix r assume "r \<noteq> []" and "(pre @ k) @ r \<in> files pre X m"
    with fit show False by (auto simp: fits_in_def strict_prefix_def)
  qed
  with index_dir_at [OF I P] have "\<forall>z. db (pjoin (pre @ k)) \<noteq> Some (RZSet z)" by (simp add: dir_at_def)
  ultimately show ?thesis unfolding placeable_def no_file_above_def by blast
qed

lemma fits_absent:
  assumes "prefixed rs pre" and "db_rel D rs pre X L db m" and fit: "fits_in pre X L m k"
    and X: "\<forall>r. pre @ r \<notin> X" and "m k = None"
  shows "db (pjoin (pre @ k)) = None"
proof -
  have k: "canon k" "k \<noteq> []" using fit by (simp_all add: fits_in_def)
  have "\<forall>z. db (pjoin (pre @ k)) \<noteq> Some (RZSet z)" using fits_placeable [OF assms(1-3)] by (simp add: placeable_def)
  moreover have "db (pjoin (pre @ k)) \<noteq> Some (RStr v)" for v
  proof
    assume "db (pjoin (pre @ k)) = Some (RStr v)"
    with assms(2) prefixed_path(2) [OF assms(1) k] have "pre @ k \<in> files pre X m \<union> L" by (auto simp: db_rel_def)
    with X fit assms(5) show False by (auto simp: files_def fits_in_def)
  qed
  ultimately show ?thesis by (metis option.exhaust rval.exhaust)
qed

lemma contents_frame:
  assumes same: "\<And>x v. x \<noteq> pjoin (pre @ k) \<Longrightarrow> db' x = Some (RStr v) \<longleftrightarrow> db x = Some (RStr v)"
    and canon: "canon (pre @ k)" "canon (pre @ k')" and "k' \<noteq> k" and "contents D rs pre db k' = Some v"
  shows "contents D rs pre db' k' = Some v"
proof -
  have "pjoin (pre @ k') \<noteq> pjoin (pre @ k)" using canon assms(4) pjoin_inj by blast
  moreover from assms(5) obtain j where "db (pjoin (pre @ k')) = Some (RStr j)"
    by (auto simp: contents_def loadResult_def split: option.splits rval.splits if_splits)
  ultimately have "db' (pjoin (pre @ k')) = db (pjoin (pre @ k'))" using same by simp
  with assms(5) show ?thesis by (simp add: contents_def)
qed

lemma db_rel_canon:
  assumes "db_rel D rs pre X L db m" and "m k = Some v"
  shows "canon (pre @ k)"
proof -
  have "pre @ k \<in> files pre X m" using assms(2) by (auto simp: files_def)
  with assms(1) show ?thesis unfolding db_rel_def by (meson store_inv_paths paths_under_canon)
qed

lemma db_rel_strings:
  assumes "prefixed rs pre" and "db_rel D rs pre X L db m" and "canon k"
    and same: "\<And>x v. x \<noteq> pjoin (pre @ k) \<Longrightarrow> db' x = Some (RStr v) \<longleftrightarrow> db x = Some (RStr v)"
    and p: "p \<in> paths_under (hd pre)" "p \<noteq> pre @ k" "db' (pjoin p) = Some (RStr v)"
  shows "p \<in> files pre X m \<union> L"
proof -
  have "canon (pre @ k)" "canon p" using assms by (auto simp: prefixed_def paths_under_def)
  then have "pjoin p \<noteq> pjoin (pre @ k)" using p(2) pjoin_inj by blast
  with same p(3) have "db (pjoin p) = Some (RStr v)" by simp
  with assms(2) p(1) show ?thesis by (auto simp: db_rel_def)
qed

lemma db_rel_stored:
  assumes pre: "prefixed rs pre" and rel: "db_rel D rs pre X L db m" and fit: "fits_in pre X L m k"
    and st: "stored (hd pre) (files pre X m) (pre @ k) j db db'" and v: "contents D rs pre db' k = Some v"
  shows "db_rel D rs pre X L db' (m(k \<mapsto> v))"
proof -
  have F: "files pre X (m(k \<mapsto> v)) = insert (pre @ k) (files pre X m)" by (auto simp: files_def)
  have "contents D rs pre db' k' = Some v'" if "m k' = Some v'" "k' \<noteq> k" for k' v'
  proof -
    have "canon (pre @ k')" using db_rel_canon [OF rel that(1)] .
    then show ?thesis
      using contents_frame [of pre k db' db k' D rs v'] rel that fit st pre
      by (auto simp: db_rel_def stored_def fits_in_def prefixed_def)
  qed
  moreover have "p \<in> insert (pre @ k) (files pre X m) \<union> L"
    if "p \<in> paths_under (hd pre)" "db' (pjoin p) = Some (RStr v')" for p v'
    using db_rel_strings [where db' = db' and k = k, OF pre rel _ _ that(1) _ that(2)] fit st
    by (auto simp: stored_def fits_in_def)
  moreover have "(m(k \<mapsto> v)) [] = None" using rel fit by (auto simp: db_rel_def fits_in_def)
  ultimately show ?thesis using st v unfolding db_rel_def F by (auto simp: stored_def)
qed

lemma db_rel_removed:
  assumes pre: "prefixed rs pre" and rel: "db_rel D rs pre X L db m" and fit: "fits_in pre X L m k"
    and X: "\<forall>r. pre @ r \<notin> X" and st: "removed (hd pre) (files pre X m) (pre @ k) db db'"
  shows "db_rel D rs pre X L db' (m(k := None))"
proof -
  have F: "files pre X (m(k := None)) = files pre X m - {pre @ k}" using X by (auto simp: files_def)
  have "contents D rs pre db' k' = Some v'" if "m k' = Some v'" "k' \<noteq> k" for k' v'
  proof -
    have "canon (pre @ k')" using db_rel_canon [OF rel that(1)] .
    then show ?thesis
      using contents_frame [of pre k db' db k' D rs v'] rel that fit st pre
      by (auto simp: db_rel_def removed_def fits_in_def prefixed_def)
  qed
  moreover have "p \<in> files pre X m - {pre @ k} \<union> L"
    if "p \<in> paths_under (hd pre)" "db' (pjoin p) = Some (RStr v')" for p v'
  proof -
    have "p \<noteq> pre @ k" using that(2) st by (auto simp: removed_def)
    then show ?thesis
      using db_rel_strings [where db' = db' and k = k, OF pre rel _ _ that(1) _ that(2)] fit st by (auto simp: removed_def fits_in_def)
  qed
  moreover have "(m(k := None)) [] = None" using rel by (simp add: db_rel_def)
  ultimately show ?thesis using st unfolding db_rel_def F by (auto simp: removed_def)
qed

lemma files_empty [simp]: "files pre X Map.empty = X"
  by (simp add: files_def)

text \<open>An empty keyspace holds the empty map.\<close>

lemma db_rel_empty: "db_rel D rs pre {} L Map.empty Map.empty"
  by (simp add: db_rel_def store_inv_def index_of_def dir_at_def children_def)

text \<open>A storage over a server that meets the contract, with the laws of its codecs.\<close>

locale storage_instance = redis_server R view up closed reach
  for R :: "'w redis_api" and view up closed reach +
  fixes D :: "'w deps" and rs :: RedisStorage and pre :: "string list"
    and X :: "string list set" and L :: "string list set"
  assumes api: "rapi D = R"
    and prefix: "prefixed rs pre"
    and gcm: "gcm_laws (gcm D)"
    and codec: "codec_laws (zs D)"
    and enckey: "EncryptionKey rs = '''' \<or> length (EncryptionKey rs) = 32"
    and others: "pre @ r \<notin> X" "pre \<notin> L"
begin

abbreviation st :: "'w proc \<Rightarrow> (string list \<rightharpoonup> bytes) \<Rightarrow> bool" where
  "st s m \<equiv> readable (sys D) rs s \<and> db_rel D rs pre X L (view (world s)) m"

lemma put_refines:
  assumes s: "st s m" and fit: "fits_in pre X L m k" and a: "storable_as D rs k (now, nonce, v)"
  shows "\<exists>s'. put_key D rs k (now, nonce, v) s = Some (Ok (), s') \<and> st s' (m(k \<mapsto> v))"
proof -
  have k: "canon k" "k \<noteq> []" using fit by (simp_all add: fits_in_def)
  have use: "usable (sys D) rs s" using s by (simp add: readable_usable)
  have place: "placeable (view (world s)) (pre @ k)" using fits_placeable [OF prefix _ fit] s by blast
  have inv: "store_inv (hd pre) (files pre X m) (view (world s))" using s by (simp add: db_rel_def)
  from a obtain sd j where j: "storageValue D rs now (Inr nonce) (pjoin k) v = Inr sd" "sd_Marshal (js D) sd = Inr j"
    "j \<noteq> []" "sd_Unmarshal (js D) j = Inr sd" and n: "length nonce = NonceSize" "length v \<le> maxDecompressedBytes"
    by (auto simp: storable_as_def split: sum.splits)
  from Store_usable [OF api use prefix k inv place j(1,2)] obtain s' where s':
    "Store D rs now (Inr nonce) (pjoin k) v s = Some (Ok (), s')"
    "stored (hd pre) (files pre X m) (pre @ k) j (view (world s)) (view (world s'))"
    "up (world s') = up (world s)" "usable (sys D) rs s'" .
  have "loadedValue D rs (pjoin k) sd = Inr v"
    using load_stored_value [OF gcm codec n(1) j(1) _ n(2)] enckey reads_own_key by blast
  then have "contents D rs pre (view (world s')) k = Some v"
    using s'(2) j by (simp add: contents_def stored_def loadResult_def)
  from db_rel_stored [OF prefix _ fit s'(2) this] s s' show ?thesis
    by (auto simp: put_key_def intro: readable_kept)
qed

lemma del_refines:
  assumes s: "st s m" and fit: "fits_in pre X L m k"
  shows "\<exists>s'. Delete D rs (pjoin k) s = Some (Ok (), s') \<and> st s' (m(k := None))"
proof -
  have k: "canon k" "k \<noteq> []" using fit by (simp_all add: fits_in_def)
  have use: "usable (sys D) rs s" using s by (simp add: readable_usable)
  have place: "placeable (view (world s)) (pre @ k)" using fits_placeable [OF prefix _ fit] s by blast
  have inv: "store_inv (hd pre) (files pre X m) (view (world s))" using s by (simp add: db_rel_def)
  from Delete_usable [OF api use prefix k inv place] obtain s' where s':
    "Delete D rs (pjoin k) s = Some (Ok (), s')"
    "removed (hd pre) (files pre X m) (pre @ k) (view (world s)) (view (world s'))"
    "up (world s') = up (world s)" "usable (sys D) rs s'" .
  from db_rel_removed [OF prefix _ fit _ s'(2)] others s s' show ?thesis by (auto intro: readable_kept)
qed

lemma get_refines:
  assumes s: "st s m" and k: "m k = Some v"
  shows "\<exists>s'. Load D rs None (pjoin k) s = Some (Ok v, s') \<and> st s' m"
proof -
  have c: "canon k" using db_rel_canon [of D rs pre X L _ m k v] s k by auto
  have pk: "prefixKey rs (pjoin k) = pjoin (pre @ k)" using prefix c by (simp add: prefixed_def prefixKey_canon)
  from s k have "contents D rs pre (view (world s)) k = Some v" by (simp add: db_rel_def)
  then obtain sd where sd: "loadResult D (pjoin k) (view (world s) (pjoin (pre @ k))) = Ok sd"
    "loadedValue D rs (pjoin k) sd = Inr v"
    by (auto simp: contents_def split: outcome.splits sum.splits)
  from load_readable [OF api, of rs s "pjoin k" "Ok sd"] s sd pk obtain s' where s':
    "withReconnectOnClosed (sys D) rs (\<lambda>c. loadStorageData D rs c (pjoin k)) s = Some (Ok sd, s')"
    "view (world s') = view (world s)" "up (world s') = up (world s)" "usable (sys D) rs s'" by auto
  have "Load D rs None (pjoin k) s = Some (Ok v, s')"
    using s'(1) sd(2) by (simp add: Load_def prog_simps observeCertificateLoad_def)
  moreover have "st s' m" using s s' by (auto intro: readable_kept)
  ultimately show ?thesis by blast
qed

lemma get_absent_refines:
  assumes s: "st s m" and fit: "fits_in pre X L m k" and k: "m k = None"
  shows "\<exists>e s'. Load D rs None (pjoin k) s = Some (Err e, s') \<and> errors_Is e ErrNotExist \<and> st s' m"
proof -
  have "canon k" using fit by (simp add: fits_in_def)
  then have pk: "prefixKey rs (pjoin k) = pjoin (pre @ k)" using prefix by (simp add: prefixed_def prefixKey_canon)
  have "view (world s) (pjoin (pre @ k)) = None" using fits_absent [OF prefix _ fit _ k] s others by blast
  then have "loadResult D (pjoin k) (view (world s) (prefixKey rs (pjoin k))) = Err errNotExist"
    by (simp add: loadResult_def pk)
  from load_readable [OF api _ this] s obtain s' where s':
    "withReconnectOnClosed (sys D) rs (\<lambda>c. loadStorageData D rs c (pjoin k)) s = Some (Err errNotExist, s')"
    "view (world s') = view (world s)" "up (world s') = up (world s)" "usable (sys D) rs s'" by auto
  have "Load D rs None (pjoin k) s = Some (Err errNotExist, s')" using s'(1) by (simp add: Load_def prog_simps)
  moreover have "errors_Is errNotExist ErrNotExist" by (simp add: errNotExist_def errors_Is_def)
  moreover have "st s' m" using s s' by (auto intro: readable_kept)
  ultimately show ?thesis by blast
qed

lemma ex_refines:
  assumes s: "st s m" and fit: "fits_in pre X L m k"
  shows "\<exists>s'. Exists D rs (pjoin k) s = Some (Ok (m k \<noteq> None), s') \<and> st s' m"
proof -
  have "canon k" using fit by (simp add: fits_in_def)
  then have pk: "prefixKey rs (pjoin k) = pjoin (pre @ k)" using prefix by (simp add: prefixed_def prefixKey_canon)
  have "(view (world s) (pjoin (pre @ k)) \<noteq> None) = (m k \<noteq> None)"
  proof (cases "m k")
    case None
    then show ?thesis using fits_absent [OF prefix _ fit _ None] s others by auto
  next
    case (Some v)
    with s have "contents D rs pre (view (world s)) k = Some v" by (simp add: db_rel_def)
    with Some show ?thesis by (auto simp: contents_def loadResult_def split: option.splits)
  qed
  moreover from exists_usable [OF api, of rs s "pjoin k"] s obtain s' where s':
    "Exists D rs (pjoin k) s = Some (Ok (view (world s) (prefixKey rs (pjoin k)) \<noteq> None), s')"
    "view (world s') = view (world s)" "up (world s') = up (world s)" "usable (sys D) rs s'"
    using readable_usable by blast
  moreover have "st s' m" using s s' by (auto intro: readable_kept)
  ultimately show ?thesis using pk by auto
qed

lemma keys_refines:
  assumes s: "st s m"
  shows "\<exists>ks s'. List_keys D rs (pjoin []) True s = Some (Ok ks, s') \<and> distinct ks \<and> set ks = pjoin ` dom m \<and> st s' m"
proof -
  let ?F = "files pre X m" and ?db = "view (world s)"
  have inv: "store_inv (hd pre) ?F ?db" using s by (simp add: db_rel_def)
  then have I: "index_of (hd pre) ?F ?db" by (simp add: store_inv_def)
  have P: "pre \<in> paths_under (hd pre)" using prefix by (auto simp: prefixed_def paths_under_def)
  have finF: "finite ?F" and canonF: "\<forall>p \<in> ?F. canon p" using I by (auto simp: index_of_def paths_under_def)
  have "length r \<le> Max (length ` ?F)" if "pre @ [] @ r \<in> ?F" for r
  proof -
    from that finF have "length (pre @ r) \<le> Max (length ` ?F)" by (intro Max_ge finite_imageI imageI) auto
    then show ?thesis by simp
  qed
  moreover have "?db (pjoin (pre @ [])) \<noteq> Some (RStr v)" for v
  proof
    assume "?db (pjoin (pre @ [])) = Some (RStr v)"
    with s P have "pre \<in> ?F \<union> L" by (auto simp: db_rel_def)
    with others(1) [of "[]"] others(2) s show False by (auto simp: files_def db_rel_def)
  qed
  ultimately obtain ps s' where ps: "List_keys D rs (pjoin []) True s = Some (Ok (map pjoin ps), s')"
    "usable (sys D) rs s'" "view (world s') = ?db" "up (world s') = up (world s)"
    "distinct ps" "set ps = {[] @ r | r. r \<noteq> [] \<and> pre @ [] @ r \<in> ?F}"
    using List_tidy [OF api prefix canonF index_tidy [OF I P, of "Max (length ` ?F)"], of "[]" s "up (world s)"] s readable_usable
    by auto
  have "set ps = dom m"
  proof (intro set_eqI iffI)
    fix k assume "k \<in> set ps"
    then have "pre @ k \<in> ?F" unfolding ps(6) by auto
    then show "k \<in> dom m" using others(1) [of k] by (auto simp: files_def)
  next
    fix k assume "k \<in> dom m"
    then have "pre @ k \<in> ?F" "k \<noteq> []" using s by (auto simp: files_def db_rel_def)
    then show "k \<in> set ps" unfolding ps(6) by auto
  qed
  moreover have "inj_on pjoin (set ps)"
    unfolding calculation using db_rel_canon [OF conjunct2 [OF s]] by (intro inj_onI pjoin_inj) auto
  ultimately show ?thesis using ps s by (auto simp: distinct_map intro: readable_kept)
qed

end

sublocale storage_instance \<subseteq> kv: kv_store
  "\<lambda>s m. readable_with up closed reach (sys D) rs s \<and> db_rel D rs pre X L (view (world s)) m"
  "fits_in pre X L" "storable_as D rs" "\<lambda>(now, nonce, v). v"
  "put_key D rs" "\<lambda>k. Delete D rs (pjoin k)" "\<lambda>k. Load D rs None (pjoin k)" "\<lambda>k. Exists D rs (pjoin k)"
  "List_keys D rs (pjoin []) True" pjoin
proof unfold_locales
  show "\<exists>s'. put_key D rs k a s = Some (Ok (), s') \<and> st s' (m(k \<mapsto> case a of (now, nonce, v) \<Rightarrow> v))"
    if "st s m" "fits_in pre X L m k" "storable_as D rs k a" for s m k a
    using put_refines that by (cases a) auto
qed (use del_refines get_refines get_absent_refines ex_refines keys_refines in blast)+

text \<open>The storage after a change of the encryption key, with the old key kept for reading.\<close>

definition rotated :: "RedisStorage \<Rightarrow> string \<Rightarrow> string list \<Rightarrow> RedisStorage" where
  "rotated rs key keys = rs\<lparr>EncryptionKey := key, DecryptionKeys := keys\<rparr>"

lemma rotated_plan: "client_plan E (rotated rs key keys) = client_plan E rs"
proof -
  let ?rs = "rotated rs key keys"
  have sel: "ClientType ?rs = ClientType rs" "MasterName ?rs = MasterName rs" "Address ?rs = Address rs"
    "SentinelPassword ?rs = SentinelPassword rs" "Username ?rs = Username rs" "Password ?rs = Password rs"
    "DB ?rs = DB rs" "Timeout ?rs = Timeout rs" "ClientName ?rs = ClientName rs" "TlsEnabled ?rs = TlsEnabled rs"
    "TlsInsecure ?rs = TlsInsecure rs" "TlsServerCertsPEM ?rs = TlsServerCertsPEM rs"
    "TlsServerCertsPath ?rs = TlsServerCertsPath rs" "RouteByLatency ?rs = RouteByLatency rs"
    "RouteRandomly ?rs = RouteRandomly rs"
    by (simp_all add: rotated_def)
  show ?thesis
    unfolding client_plan_def base_options_def timeout_options_def routing_options_def tls_options_def sel by (rule refl)
qed

text \<open>The client lemmas of the contract, for the storage.\<close>

context storage_instance
begin

abbreviation abs_ops :: "(string list, time \<times> bytes \<times> bytes) kvop list \<Rightarrow> (string list \<rightharpoonup> bytes) \<Rightarrow> (string list \<rightharpoonup> bytes)" where
  "abs_ops \<equiv> fold (abs_op (\<lambda>(now, nonce, v). v))"

lemmas ops_refine = kv.run_refines
lemmas ops_then_load = kv.run_get
lemmas ops_then_list = kv.run_keys
lemmas load_missing = kv.get_absent
lemmas exists_iff = kv.ex

lemma rotation_read:
  assumes s: "st s m" and fit: "fits_in pre X L m k" and a: "storable_as D rs k (now, nonce, v)"
    and enc: "EncryptionKey rs \<noteq> ''''" and ks: "new # keys = before @ EncryptionKey rs # after"
    and auth: "\<forall>k \<in> set before. \<forall>p. decryptWithKey (gcm D) k (sealed (gcm D) (EncryptionKey rs) nonce p) = Inl authFailure"
  shows "\<exists>s' s''. Store D rs now (Inr nonce) (pjoin k) v s = Some (Ok (), s')
    \<and> Load D (rotated rs new keys) None (pjoin k) s' = Some (Ok v, s'')"
proof -
  let ?rs = "rotated rs new keys"
  have k: "canon k" "k \<noteq> []" using fit by (simp_all add: fits_in_def)
  have pk: "prefixKey ?rs (pjoin k) = pjoin (pre @ k)"
    using prefixed_path(1) [OF prefix k] by (simp add: rotated_def prefixKey_def)
  have use: "usable (sys D) rs s" using s by (simp add: readable_usable)
  have place: "placeable (view (world s)) (pre @ k)" using fits_placeable [OF prefix _ fit] s by blast
  have inv: "store_inv (hd pre) (files pre X m) (view (world s))" using s by (simp add: db_rel_def)
  from a obtain sd j where j: "storageValue D rs now (Inr nonce) (pjoin k) v = Inr sd" "sd_Marshal (js D) sd = Inr j"
    "j \<noteq> []" "sd_Unmarshal (js D) j = Inr sd" and n: "length nonce = NonceSize" "length v \<le> maxDecompressedBytes"
    by (auto simp: storable_as_def split: sum.splits)
  from Store_usable [OF api use prefix k inv place j(1,2)] obtain s' where s':
    "Store D rs now (Inr nonce) (pjoin k) v s = Some (Ok (), s')"
    "stored (hd pre) (files pre X m) (pre @ k) j (view (world s)) (view (world s'))" .
  have len: "length (EncryptionKey rs) = 32" using enckey enc by simp
  from storageValue_packed [OF j(1) enckey] enc obtain w where
    "Value sd = sealed (gcm D) (EncryptionKey rs) nonce w" by metis
  with auth ks have "reads_key (gcm D) ?rs (EncryptionKey rs) (Value sd)" by (auto simp: reads_key_def rotated_def)
  with len have val: "loadedValue D ?rs (pjoin k) sd = Inr v"
    by (intro load_stored_value [OF gcm codec n(1) j(1) _ n(2)]) simp
  note rotated_plan [of "sys D" rs new keys]
  moreover from put_refines [OF s fit a] s'(1) have "readable (sys D) rs s'" by (simp add: put_key_def)
  ultimately have rd: "readable (sys D) ?rs s'" by (simp add: readable_with_def usable_def rotated_def)
  have "loadResult D (pjoin k) (view (world s') (prefixKey ?rs (pjoin k))) = Ok sd"
    using s'(2) j pk by (simp add: stored_def loadResult_def)
  from load_readable [OF api rd this] obtain s'' where
    "withReconnectOnClosed (sys D) ?rs (\<lambda>c. loadStorageData D ?rs c (pjoin k)) s' = Some (Ok sd, s'')" by auto
  then have "Load D ?rs None (pjoin k) s' = Some (Ok v, s'')"
    using val by (simp add: Load_def prog_simps observeCertificateLoad_def)
  with s'(1) show ?thesis by blast
qed

lemma ops_then_stat:
  assumes s: "st s m" and fit: "fits_in pre X L m k" and a: "storable_as D rs k (now, nonce, v)"
  shows "\<exists>s' s''. put_key D rs k (now, nonce, v) s = Some (Ok (), s')
    \<and> Stat D rs (pjoin k) s' =
        Some (Ok \<lparr>Key = pjoin k, ki_Modified = now, ki_Size = int (length v), IsTerminal = True\<rparr>, s'')
    \<and> st s'' (m(k \<mapsto> v))"
proof -
  have k: "canon k" "k \<noteq> []" using fit by (simp_all add: fits_in_def)
  note P = prefixed_path(1) [OF prefix k]
  have use: "usable (sys D) rs s" using s by (simp add: readable_usable)
  have place: "placeable (view (world s)) (pre @ k)" using fits_placeable [OF prefix _ fit] s by blast
  have inv: "store_inv (hd pre) (files pre X m) (view (world s))" using s by (simp add: db_rel_def)
  from a obtain sd j where j: "storageValue D rs now (Inr nonce) (pjoin k) v = Inr sd" "sd_Marshal (js D) sd = Inr j"
    "j \<noteq> []" "sd_Unmarshal (js D) j = Inr sd" by (auto simp: storable_as_def split: sum.splits)
  from Store_usable [OF api use prefix k inv place j(1,2)] obtain s' where s':
    "Store D rs now (Inr nonce) (pjoin k) v s = Some (Ok (), s')"
    "stored (hd pre) (files pre X m) (pre @ k) j (view (world s)) (view (world s'))" .
  from put_refines [OF s fit a] s'(1) have st': "st s' (m(k \<mapsto> v))" by (simp add: put_key_def)
  have "loadResult D (pjoin k) (view (world s') (prefixKey rs (pjoin k))) = Ok sd"
    using s'(2) j P by (simp add: stored_def loadResult_def)
  from load_readable [OF api _ this] st' obtain s'' where s'':
    "withReconnectOnClosed (sys D) rs (\<lambda>c. loadStorageData D rs c (pjoin k)) s' = Some (Ok sd, s'')"
    "view (world s'') = view (world s')" "up (world s'') = up (world s')" "usable (sys D) rs s''" by auto
  have "Size sd = int (length v)" "Modified sd = now" using storageValue_packed [OF j(1) enckey] by metis+
  moreover have "st s'' (m(k \<mapsto> v))" using st' s'' by (auto intro: readable_kept)
  ultimately show ?thesis using s'(1) s''(1) by (auto simp: put_key_def Stat_def prog_simps)
qed

end

end
