(* ===== verification/Example.thy ===== *)
theory Example
  imports Refinement
begin

section \<open>A concrete environment\<close>

text \<open>
  Code outside the sources, made concrete, so that the hypotheses of the theorems can be seen to
  hold together and the operations can be run: a cipher whose tag is the beginning of the key,
  compressors that replace a leading run of one letter by its length, and a plain listing of the
  fields as the text of the storage data. The Redis server is the one of theory \<open>Redis\<close>.
\<close>

subsection \<open>Cipher\<close>

definition ex_gcm :: aead where
  "ex_gcm = \<lparr>Seal = (\<lambda>k n p. p @ take Overhead k),
     Open = (\<lambda>k n c. let m = length c - Overhead in if drop m c = take Overhead k then Some (take m c) else None)\<rparr>"

lemma ex_gcm_laws: "gcm_laws ex_gcm"
  by (auto simp: gcm_laws_def ex_gcm_def Overhead_def Let_def)

subsection \<open>Compressors\<close>

definition run_length :: "bytes \<Rightarrow> nat" where
  "run_length x = min 255 (length (takeWhile (\<lambda>c. c = CHR ''a'') x))"

definition run_pack :: "bytes \<Rightarrow> bytes" where
  "run_pack x = char_of (run_length x) # drop (run_length x) x"

fun run_unpack :: "bytes \<Rightarrow> bytes option" where
  "run_unpack [] = None"
| "run_unpack (c # x) = Some (replicate (of_char c) (CHR ''a'') @ x)"

lemma run_take: "take (run_length x) x = replicate (run_length x) (CHR ''a'')"
proof -
  let ?t = "takeWhile (\<lambda>c. c = CHR ''a'') x"
  have t: "?t = replicate (length ?t) (CHR ''a'')"
    by (rule replicate_eqI) (auto dest: set_takeWhileD)
  have "take (run_length x) x = take (run_length x) (?t @ dropWhile (\<lambda>c. c = CHR ''a'') x)" by simp
  also have "\<dots> = take (run_length x) ?t" by (simp add: run_length_def del: takeWhile_dropWhile_id)
  also have "\<dots> = replicate (run_length x) (CHR ''a'')" by (subst t) (simp add: run_length_def)
  finally show ?thesis .
qed

lemma run_unpack_pack: "run_unpack (run_pack x) = Some x"
proof -
  have "of_char (char_of (run_length x) :: char) = run_length x"
    by (simp add: run_length_def)
  then have "run_unpack (run_pack x) = Some (take (run_length x) x @ drop (run_length x) x)"
    by (simp add: run_pack_def run_take)
  then show ?thesis by simp
qed

definition ex_writer :: "bytes \<Rightarrow> compressor" where
  "ex_writer header = \<lparr>w_Write = (\<lambda>_. None), w_Close = (\<lambda>_. None), w_output = (\<lambda>x. header @ run_pack x)\<rparr>"

definition ex_codecs :: codecs where
  "ex_codecs = \<lparr>zlib_NewWriter = ex_writer ''z'', flate_NewWriter = Inr (ex_writer ''''),
     zlib_NewReader = (\<lambda>x. if HasPrefix x ''z'' then (case run_unpack (tl x) of
         Some y \<Rightarrow> Inr (y, None) | None \<Rightarrow> Inr ([], Some (errors_New ''unexpected EOF'')))
       else Inl (errors_New ''zlib: invalid header'')),
     flate_NewReader = (\<lambda>x. case run_unpack x of
         Some y \<Rightarrow> (y, None) | None \<Rightarrow> ([], Some (errors_New ''unexpected EOF'')))\<rparr>"

lemma ex_codec_laws: "codec_laws ex_codecs"
  by (simp add: codec_laws_def ex_codecs_def ex_writer_def HasPrefix_def run_unpack_pack)

subsection \<open>Storage data\<close>

definition ex_json :: json_codec where
  "ex_json = \<lparr>sd_Marshal = (\<lambda>sd. Inr (Join_with '','' [Itoa (Modified sd), Itoa (Size sd), Itoa (sd_Compression sd),
        Itoa (Encryption sd), Value sd])),
     sd_Unmarshal = (\<lambda>j. case Split (CHR 0x2C) j of
         m # n # c # e # v \<Rightarrow> Inr \<lparr>Value = Join_with '','' v, Modified = Atoi_val m, Size = Atoi_val n,
             sd_Compression = Atoi_val c, Encryption = Atoi_val e\<rparr>
       | _ \<Rightarrow> Inl (errors_New ''unexpected end of JSON input''))\<rparr>"

lemma Itoa_no_comma: "CHR 0x2C \<notin> set (Itoa v)"
proof -
  have "\<not> is_digit (CHR 0x2C)" by (simp add: is_digit_def in_range_def byte_def)
  with digits_of_digits have "CHR 0x2C \<notin> set (digits_of n)" for n by (metis list_all_iff)
  then show ?thesis by (simp add: Itoa_def)
qed

lemma Atoi_val_Itoa: "int_min \<le> v \<Longrightarrow> v \<le> int_max \<Longrightarrow> Atoi_val (Itoa v) = v"
  by (simp add: Atoi_val_def Atoi_Itoa)

definition int_fields :: "StorageData \<Rightarrow> int list" where
  "int_fields sd = [Modified sd, Size sd, sd_Compression sd, Encryption sd]"

lemma ex_json_roundtrip:
  assumes "\<forall>v \<in> set (int_fields sd). int_min \<le> v \<and> v \<le> int_max"
  obtains j where "sd_Marshal ex_json sd = Inr j" and "j \<noteq> []" and "sd_Unmarshal ex_json j = Inr sd"
proof -
  let ?j = "Join_with '','' [Itoa (Modified sd), Itoa (Size sd), Itoa (sd_Compression sd), Itoa (Encryption sd), Value sd]"
  have "Split (CHR 0x2C) ?j = [Itoa (Modified sd), Itoa (Size sd), Itoa (sd_Compression sd), Itoa (Encryption sd)]
      @ Split (CHR 0x2C) (Value sd)"
    by (simp add: Split_append_sep Itoa_no_comma)
  then have "sd_Unmarshal ex_json ?j = Inr sd"
    using assms by (simp add: ex_json_def Atoi_val_Itoa Join_Split int_fields_def)
  then show thesis by (intro that [of ?j]) (simp_all add: ex_json_def Itoa_def)
qed

definition mem_deps :: "bool \<Rightarrow> string list \<Rightarrow> mem deps" where
  "mem_deps nb ks = \<lparr>sys = \<lparr>redis = mem_api nb ks, ReadFile = (\<lambda>_. Inl (errors_New ''no such file'')),
       AppendCertsFromPEM = (\<lambda>_. False)\<rparr>,
     gcm = ex_gcm, zs = ex_codecs, js = ex_json\<rparr>"

lemma mem_deps_simps [simp]:
  "rapi (mem_deps nb ks) = mem_api nb ks" "redis (sys (mem_deps nb ks)) = mem_api nb ks"
  "gcm (mem_deps nb ks) = ex_gcm" "zs (mem_deps nb ks) = ex_codecs" "js (mem_deps nb ks) = ex_json"
  by (simp_all add: mem_deps_def)


lemma storageValue_ex:
  assumes "EncryptionKey rs = '''' \<or> length (EncryptionKey rs) = 32"
  obtains sd where "storageValue (mem_deps nb ks) rs now (Inr nonce) key v = Inr sd"
proof -
  have "compress ex_codecs rs v = Inr ((if Compression rs = CompressionZlib then ''z'' else '''') @ run_pack v)"
    by (simp add: compress_def compressWriter_def ex_codecs_def ex_writer_def)
  with assms have "\<exists>sd. storageValue (mem_deps nb ks) rs now (Inr nonce) key v = Inr sd"
    by (auto simp: storageValue_def encrypt_sealed)
  with that show thesis by blast
qed

lemma ex_storable:
  assumes "EncryptionKey rs = '''' \<or> length (EncryptionKey rs) = 32" and "length nonce = NonceSize"
    and "length v \<le> maxDecompressedBytes" and "int_min \<le> now" and "now \<le> int_max"
  shows "storable_as (mem_deps nb ks) rs k (now, nonce, v)"
proof -
  obtain sd where sd: "storageValue (mem_deps nb ks) rs now (Inr nonce) (pjoin k) v = Inr sd"
    by (rule storageValue_ex [OF assms(1)])
  from storageValue_packed [OF sd assms(1)] have f: "Size sd = int (length v)" "Modified sd = now" by metis+
  from sd have e: "sd_Compression sd \<in> {0, 1, 2}" "Encryption sd \<in> {0, 1}"
    by (auto simp: storageValue_def flag_defs split: sum.splits if_splits)
  have "\<forall>x \<in> set (int_fields sd). int_min \<le> x \<and> x \<le> int_max"
    using assms(3-5) e f by (auto simp: int_fields_def int_min_def int_max_def maxDecompressedBytes_def)
  then obtain j where "sd_Marshal ex_json sd = Inr j" "j \<noteq> []" "sd_Unmarshal ex_json j = Inr sd"
    by (rule ex_json_roundtrip)
  with assms(2,3) sd show ?thesis by (simp add: storable_as_def)
qed

text \<open>A storage with both encryption and compression, its client open; the process around it.\<close>

definition ex_key :: string where "ex_key = ''0123456789abcdef0123456789abcdef''"

definition ex_rs :: RedisStorage where
  "ex_rs = New\<lparr>Address := [''127.0.0.1:6379''], Compression := CompressionZlib, EncryptionKey := ex_key,
     client := Some 0, locker := Some 0, locks := True\<rparr>"

definition ex_proc :: "cstatus \<Rightarrow> rdb \<Rightarrow> mem proc" where
  "ex_proc cs db = \<lparr>reconnectCount = 0, reconnectMetric = 0,
     world = \<lparr>mem_db = db, mem_clients = [cs], mem_reach = True, mem_owner = Map.empty, mem_handles = [],
     mem_expires = Map.empty, mem_now = 0\<rparr>\<rparr>"

definition ex_nonce :: bytes where "ex_nonce = ''abcdefghijkl''"

lemma ex_prefixed: "prefixed ex_rs [''caddy'']"
  by (simp add: prefixed_def ex_rs_def New_def defaultKeyPrefix_def seg_ok_def)

lemma ex_usable: "cs \<noteq> CDown \<Longrightarrow> usable_with mem_up mem_closed mem_reachable (sys (mem_deps nb ks)) ex_rs (ex_proc cs db)"
  by (cases cs) (auto simp: usable_with_def ex_rs_def ex_proc_def mem_up_def mem_closed_def mem_status_def
      client_plan_def tls_options_def New_def default_defs)

lemma ex_plan: "client_plan (sys (mem_deps nb ks)) ex_rs = Inr (SimpleClient, base_options ex_rs)"
  by (simp add: client_plan_def tls_options_def routing_options_def timeout_options_def ex_rs_def New_def default_defs)

lemma ex_get_closed:
  "call (api_Get (mem_api nb ks) k) (client ex_rs) (ex_proc CClosed db) = Some (Err closedErr, ex_proc CClosed db)"
  by (simp add: call_def mem_api_def mem_do_def ex_proc_def ex_rs_def mem_up_def mem_closed_def mem_status_def)

definition ex_unreachable :: "mem proc" where
  "ex_unreachable = \<lparr>reconnectCount = 0, reconnectMetric = 0,
     world = \<lparr>mem_db = Map.empty, mem_clients = [CClosed], mem_reach = False, mem_owner = Map.empty, mem_handles = [],
     mem_expires = Map.empty, mem_now = 0\<rparr>\<rparr>"

lemma ex_get_unreachable:
  "call (api_Get (mem_api nb ks) k) (client ex_rs) ex_unreachable = Some (Err closedErr, ex_unreachable)"
  by (simp add: call_def mem_api_def mem_do_def ex_unreachable_def ex_rs_def mem_up_def mem_closed_def mem_status_def)

definition ex_key2 :: string where "ex_key2 = ''fedcba9876543210fedcba9876543210''"

lemma ex_key2_fails:
  "decryptWithKey ex_gcm ex_key2 (sealed ex_gcm (EncryptionKey ex_rs) ex_nonce p) = Inl authFailure"
proof -
  let ?c = "sealed ex_gcm (EncryptionKey ex_rs) ex_nonce p"
  have c: "?c = ex_nonce @ p @ ''0123456789abcdef''"
    by (simp add: sealed_def ex_gcm_def ex_rs_def ex_key_def Overhead_def)
  have "length ex_nonce = NonceSize" by (simp add: NonceSize_def ex_nonce_def)
  then have "drop NonceSize ?c = p @ ''0123456789abcdef''" unfolding c by simp
  then have "Open ex_gcm ex_key2 (take NonceSize ?c) (drop NonceSize ?c) = None"
    by (simp add: ex_gcm_def ex_key2_def Overhead_def Let_def)
  then show ?thesis
    using \<open>length ex_nonce = NonceSize\<close>
    by (subst decryptWithKey_long) (simp_all add: ex_key2_def c Overhead_def)
qed

interpretation ex: storage_instance "mem_api nb ks" mem_db mem_up mem_closed mem_reachable
  "mem_deps nb ks" ex_rs "[''caddy'']" "{}" "{}"
  by unfold_locales
     (simp_all add: ex_prefixed ex_gcm_laws ex_codec_laws, simp_all add: ex_rs_def New_def ex_key_def)

end
