(* ===== verification/Repairing.thy ===== *)
theory Repairing
  imports Example
begin

section \<open>Repairing the directory index\<close>

text \<open>
  What \<open>Repair\<close> makes of a keyspace whose sorted sets have lost members or list things that do
  not exist: the scan adds the records of every stored value, the traversal removes the members
  whose key does not exist. Afterwards the directories are in order (\<open>tidy\<close>), and where no
  directory was left without files, the keyspace represents the stored map again (\<open>db_rel\<close>).
\<close>

subsection \<open>Damaged directories\<close>

text \<open>
  What the members of a damaged set must still satisfy: a directory's member does not name a
  string, and a file's member names neither a directory nor a string that is not a stored value.
\<close>

definition well_named :: "rdb \<Rightarrow> string list set \<Rightarrow> string list \<Rightarrow> string \<Rightarrow> bool" where
  "well_named db F q m \<longleftrightarrow> (\<exists>x. seg_ok x \<and>
     (m = x @ ''/'' \<and> (\<forall>v. db (pjoin (q @ [x])) \<noteq> Some (RStr v))
      \<or> m = x \<and> (\<forall>z. db (pjoin (q @ [x])) \<noteq> Some (RZSet z)) \<and> (\<forall>r. r \<noteq> [] \<longrightarrow> q @ x # r \<notin> F)
        \<and> (\<forall>v. db (pjoin (q @ [x])) = Some (RStr v) \<longrightarrow> q @ [x] \<in> F)))"

lemma well_named_cases:
  assumes "well_named db F q m"
  obtains (subdir) x where "seg_ok x" "m = x @ ''/''" "\<forall>v. db (pjoin (q @ [x])) \<noteq> Some (RStr v)"
    | (leaf) x where "seg_ok x" "m = x" "\<forall>z. db (pjoin (q @ [x])) \<noteq> Some (RZSet z)"
        "\<forall>v. db (pjoin (q @ [x])) = Some (RStr v) \<longrightarrow> q @ [x] \<in> F"
  using assms unfolding well_named_def by blast

text \<open>All files have their records; there may be members too many.\<close>

definition recorded :: "rdb \<Rightarrow> string list set \<Rightarrow> string list \<Rightarrow> bool" where
  "recorded db F pre \<longleftrightarrow> (\<forall>p \<in> F. canon p \<and> (\<exists>v. db (pjoin p) = Some (RStr v)))
     \<and> (\<forall>d. canon d \<longrightarrow> zdist db (pre @ d) \<and> children F (pre @ d) \<subseteq> zmem db (pre @ d)
          \<and> (\<forall>m \<in> zmem db (pre @ d). well_named db F (pre @ d) m))"

lemma recordedD:
  assumes "recorded db F pre" and "canon d"
  shows "zdist db (pre @ d)" "children F (pre @ d) \<subseteq> zmem db (pre @ d)" "m \<in> zmem db (pre @ d) \<Longrightarrow> well_named db F (pre @ d) m"
  using assms by (auto simp: recorded_def)

text \<open>Strings stay, sets lose members, and only keys below \<open>q\<close> change.\<close>

definition shrunk :: "rdb \<Rightarrow> rdb \<Rightarrow> bool" where
  "shrunk db db' \<longleftrightarrow> strings_same db db'
     \<and> (\<forall>k z'. db' k = Some (RZSet z') \<longrightarrow> (\<exists>z. db k = Some (RZSet z) \<and> members z' \<subseteq> members z))"

definition within :: "string list \<Rightarrow> rdb \<Rightarrow> rdb \<Rightarrow> bool" where
  "within q db db' \<longleftrightarrow> (\<forall>k. (\<forall>r. canon (q @ r) \<longrightarrow> k \<noteq> pjoin (q @ r)) \<longrightarrow> db' k = db k)"

lemma shrunk_refl [simp]: "shrunk db db"
  by (simp add: shrunk_def strings_same_def)

lemma shrunk_trans: "shrunk db db' \<Longrightarrow> shrunk db' db'' \<Longrightarrow> shrunk db db''"
  unfolding shrunk_def strings_same_def by (intro conjI allI impI, simp, elim conjE) (meson order_trans)

lemma within_refl [simp]: "within q db db"
  by (simp add: within_def)

lemma within_trans: "within q db db' \<Longrightarrow> within q db' db'' \<Longrightarrow> within q db db''"
  by (simp add: within_def)

lemma within_mono: "within (q @ r) db db' \<Longrightarrow> within q db db'"
  unfolding within_def by (metis append_assoc)

lemma within_other:
  assumes "within q db db'" and "canon p" and "\<not> prefix q p"
  shows "db' (pjoin p) = db (pjoin p)"
proof -
  have "pjoin p \<noteq> pjoin (q @ r)" if "canon (q @ r)" for r
    using that assms(2,3) pjoin_inj by (metis prefixI)
  with assms(1) show ?thesis by (simp add: within_def)
qed

lemma shrunk_zset: "shrunk db db' \<Longrightarrow> db' k = Some (RZSet z) \<Longrightarrow> \<exists>z. db k = Some (RZSet z)"
  unfolding shrunk_def by blast

lemma shrunk_string: "shrunk db db' \<Longrightarrow> db' k = Some (RStr v) \<longleftrightarrow> db k = Some (RStr v)"
  by (simp add: shrunk_def strings_same_def)

lemma well_named_shrunk:
  assumes S: "shrunk db db'" and "well_named db F q m"
  shows "well_named db' F q m"
proof -
  have "\<forall>z. db' k \<noteq> Some (RZSet z)" if "\<forall>z. db k \<noteq> Some (RZSet z)" for k using that shrunk_zset [OF S] by blast
  then show ?thesis using assms(2) unfolding well_named_def shrunk_string [OF S] by blast
qed

lemma tidy_frame:
  assumes "tidy db F A q" and "canon q" and "\<And>r. canon (q @ r) \<Longrightarrow> db' (pjoin (q @ r)) = db (pjoin (q @ r))"
  shows "tidy db' F A q"
  using assms
proof induction
  case (tidyI q)
  have q: "db' (pjoin q) = db (pjoin q)" using tidyI.prems(2) [of "[]"] tidyI.prems(1) by simp
  show ?case
  proof (rule tidy.tidyI)
    fix k assume "k \<in> zmem db' q"
    then have "k \<in> zmem db q" using q by (simp add: zmem_def)
    from tidyI.IH [OF this] show "\<exists>x. seg_ok x \<and> (k = x \<and> q @ [x] \<in> F \<or> k = x @ ''/'' \<and> A (q @ [x]) \<and> tidy db' F A (q @ [x]))"
      using tidyI.prems by fastforce
  qed (use tidyI.hyps q in \<open>simp_all add: zdist_def zmem_def\<close>)
qed


lemma shrunk_zmem: "shrunk db db' \<Longrightarrow> zmem db' q \<subseteq> zmem db q"
proof
  fix m assume S: "shrunk db db'" and "m \<in> zmem db' q"
  then obtain z' where "db' (pjoin q) = Some (RZSet z')" "m \<in> members z'"
    by (auto simp: zmem_def split: option.splits rval.splits)
  moreover from this S obtain z where "db (pjoin q) = Some (RZSet z)" "members z' \<subseteq> members z"
    unfolding shrunk_def by blast
  ultimately show "m \<in> zmem db q" by (auto simp: zmem_def)
qed

lemma recorded_shrunk:
  assumes R: "recorded db F pre" and S: "shrunk db db'"
    and "\<And>d. canon d \<Longrightarrow> zdist db' (pre @ d) \<and> children F (pre @ d) \<subseteq> zmem db' (pre @ d)"
  shows "recorded db' F pre"
  unfolding recorded_def
proof (intro conjI allI impI ballI)
  fix p assume "p \<in> F"
  then show "canon p" "\<exists>v. db' (pjoin p) = Some (RStr v)"
    using R by (simp_all add: recorded_def shrunk_string [OF S])
next
  fix d m assume "canon d" "m \<in> zmem db' (pre @ d)"
  then show "well_named db' F (pre @ d) m"
    using shrunk_zmem [OF S] recordedD(3) [OF R] well_named_shrunk [OF S] by blast
qed (use assms(3) in auto)

subsection \<open>Removing a stale member\<close>

text \<open>A member of the set at \<open>q\<close> whose key does not exist belongs to no file.\<close>

lemma stale_not_child:
  assumes R: "recorded db F pre" and "canon d" and x: "seg_ok x" "m = x \<or> m = x @ ''/''"
    and none: "db (pjoin (pre @ d @ [x])) = None"
  shows "m \<notin> children F (pre @ d)"
proof
  assume "m \<in> children F (pre @ d)"
  moreover have F: "\<forall>p \<in> F. canon p" using R by (simp add: recorded_def)
  ultimately show False
  proof (cases rule: children_cases)
    case (leaf b)
    with x(2) have "b = x" using seg_ok_no_slash [of b x] by auto
    with leaf R none show False by (auto simp: recorded_def)
  next
    case (subdir y r)
    with x have "y = x" using seg_ok_no_slash [of x y] by auto
    with subdir have "children F (pre @ d @ [x]) \<noteq> {}" by (auto simp: children_empty_iff)
    with recordedD(2) [OF R, of "d @ [x]"] assms(2) x(1) none show False by (auto simp: zmem_def)
  qed
qed

definition drop_member :: "string list \<Rightarrow> string \<Rightarrow> (string \<times> int) list \<Rightarrow> rdb \<Rightarrow> rdb" where
  "drop_member q m z db = db(pjoin q := if z_remove m z = [] then None else Some (RZSet (z_remove m z)))"

lemma drop_member_zmem:
  assumes "db (pjoin q) = Some (RZSet z)" and "canon q" and "canon p"
  shows "zmem (drop_member q m z db) p = (if p = q then zmem db q - {m} else zmem db p)"
    and "zdist db p \<Longrightarrow> zdist (drop_member q m z db) p"
  using assms members_z_remove [of m z] by (auto simp: drop_member_def zmem_def zdist_def pjoin_eq_iff)

lemma drop_member_shrunk: "db (pjoin q) = Some (RZSet z) \<Longrightarrow> shrunk db (drop_member q m z db)"
  using members_z_remove [of m z] by (auto simp: shrunk_def strings_same_def drop_member_def)

lemma drop_member_within: "canon q \<Longrightarrow> within q db (drop_member q m z db)"
  unfolding within_def drop_member_def by (metis append_Nil2 fun_upd_other)

lemma drop_member_recorded:
  assumes R: "recorded db F pre" and c: "canon (pre @ d)" and z: "db (pjoin (pre @ d)) = Some (RZSet z)"
    and m: "m \<notin> children F (pre @ d)"
  shows "recorded (drop_member (pre @ d) m z db) F pre"
proof (rule recorded_shrunk [OF R drop_member_shrunk [where q = "pre @ d" and db = db, OF z]])
  fix e assume e: "canon e"
  note D = drop_member_zmem [where db = db, OF z c, of "pre @ e" m]
  show "zdist (drop_member (pre @ d) m z db) (pre @ e)
      \<and> children F (pre @ e) \<subseteq> zmem (drop_member (pre @ d) m z db) (pre @ e)"
    using D recordedD(1,2) [OF R e] m c e by auto
qed

subsection \<open>The traversal\<close>

definition kept :: "rdb \<Rightarrow> string list set \<Rightarrow> (string list \<Rightarrow> bool) \<Rightarrow> string list \<Rightarrow> string \<Rightarrow> bool" where
  "kept db F A q k \<longleftrightarrow> (\<exists>x. seg_ok x \<and> (k = x \<and> q @ [x] \<in> F \<or> k = x @ ''/'' \<and> A (q @ [x]) \<and> tidy db F A (q @ [x])))"

lemma kept_frame:
  assumes "kept db F A q k" and "canon q"
    and "\<And>x r. k = x @ ''/'' \<Longrightarrow> seg_ok x \<Longrightarrow> canon r \<Longrightarrow> db' (pjoin (q @ x # r)) = db (pjoin (q @ x # r))"
  shows "kept db' F A q k"
proof -
  from assms(1) consider x where "seg_ok x" "k = x" "q @ [x] \<in> F" | x where "seg_ok x" "k = x @ ''/''" "tidy db F A (q @ [x])" "A (q @ [x])"
    by (auto simp: kept_def)
  then show ?thesis
  proof cases
    case (2 x)
    then have "tidy db' F A (q @ [x])" by (intro tidy_frame [OF 2(3)]) (use assms(2,3) in auto)
    with 2 show ?thesis by (auto simp: kept_def)
  qed (auto simp: kept_def)
qed

text \<open>The traversal of the directory \<open>q\<close> from \<open>db\<close> to \<open>db'\<close>.\<close>

definition swept :: "string list set \<Rightarrow> string list \<Rightarrow> string list \<Rightarrow> rdb \<Rightarrow> rdb \<Rightarrow> bool" where
  "swept F pre q db db' \<longleftrightarrow> shrunk db db' \<and> within q db db' \<and> recorded db' F pre"

lemma swept_trans: "swept F pre q db db' \<Longrightarrow> swept F pre q db' db'' \<Longrightarrow> swept F pre q db db''"
  unfolding swept_def using shrunk_trans within_trans by blast


text \<open>What handling the member \<open>k\<close> of the set at \<open>q\<close> leaves for the members after it.\<close>

definition handled :: "string list set \<Rightarrow> (string list \<Rightarrow> bool) \<Rightarrow> string list \<Rightarrow> string list \<Rightarrow> string \<Rightarrow> rdb \<Rightarrow> rdb \<Rightarrow> bool" where
  "handled F A pre q k db db' \<longleftrightarrow> swept F pre q db db' \<and> zmem db' q \<subseteq> zmem db q \<and> zmem db q - {k} \<subseteq> zmem db' q
     \<and> (k \<in> zmem db' q \<longrightarrow> kept db' F A q k) \<and> (\<forall>k'. k' \<noteq> k \<longrightarrow> kept db F A q k' \<longrightarrow> kept db' F A q k')
     \<and> (\<forall>x. k = x @ ''/'' \<longrightarrow> db (pjoin (q @ [x])) \<noteq> None \<longrightarrow> zmem db' q = zmem db q)"

lemma stale_handled:
  assumes R: "recorded db F pre" and pre: "canon pre" and d: "canon d" and z: "db (pjoin (pre @ d)) = Some (RZSet z)"
    and x: "seg_ok x" "k = x \<or> k = x @ ''/''" and none: "db (pjoin (pre @ d @ [x])) = None"
  shows "handled F A pre (pre @ d) k db (drop_member (pre @ d) k z db)"
proof -
  let ?q = "pre @ d" and ?db = "drop_member (pre @ d) k z db"
  have c: "canon ?q" using pre d by simp
  have "kept ?db F A ?q k'" if "kept db F A ?q k'" for k'
    by (rule kept_frame [OF that c]) (use c in \<open>simp add: drop_member_def pjoin_eq_iff\<close>)
  moreover have "recorded ?db F pre"
    by (rule drop_member_recorded [OF R c z stale_not_child [OF R d x none]])
  moreover have "shrunk db ?db" by (rule drop_member_shrunk) (rule z)
  moreover have "zmem ?db ?q = zmem db ?q - {k}" by (subst drop_member_zmem(1)) (use z c in simp_all)
  moreover have "y = x" if "k = y @ ''/''" for y using x that seg_ok_no_slash [of x y] by auto
  ultimately show ?thesis using drop_member_within [OF c] none by (auto simp: handled_def swept_def)
qed

lemma subdir_handled:
  assumes pre: "canon pre" and d: "canon d" and x: "seg_ok x" and k: "k = x @ ''/''"
    and S: "swept F pre (pre @ d @ [x]) db db'" and T: "tidy db' F A (pre @ d @ [x])" "A (pre @ d @ [x])"
  shows "handled F A pre (pre @ d) k db db'"
proof -
  let ?q = "pre @ d"
  have c: "canon ?q" using pre d by simp
  have W: "within (?q @ [x]) db db'" using S by (simp add: swept_def)
  have same: "db' (pjoin p) = db (pjoin p)" if "canon p" "\<not> prefix (?q @ [x]) p" for p
    by (rule within_other [OF W that])
  have "kept db' F A ?q k'" if "kept db F A ?q k'" "k' \<noteq> k" for k'
  proof (rule kept_frame [OF that(1) c])
    fix y r assume "k' = y @ ''/''" "seg_ok y" "canon r"
    with that k have "\<not> prefix (?q @ [x]) (?q @ y # r)" by auto
    then show "db' (pjoin (?q @ y # r)) = db (pjoin (?q @ y # r))"
      by (intro same) (use c \<open>seg_ok y\<close> \<open>canon r\<close> in auto)
  qed
  moreover have "zmem db' ?q = zmem db ?q" using same [OF c] by (auto simp: zmem_def)
  moreover have "swept F pre ?q db db'" using S within_mono [OF W] by (simp add: swept_def)
  moreover have "kept db' F A ?q k" using k x T by (auto simp: kept_def)
  ultimately show ?thesis by (simp add: handled_def)
qed

context redis_server
begin

lemma existsKey_up:
  assumes "up (world s) c"
  obtains s' where "existsKey R rs (Some c) key s = Some (Ok (view (world s) (prefixKey rs key) \<noteq> None), s')"
    and "view (world s') = view (world s)" and "conn s s'"
proof -
  let ?k = "prefixKey rs key"
  from call_up [OF Exists assms, of ?k] obtain s' where
    "call (api_Exists R ?k) (Some c) s = Some (Ok (if view (world s) ?k = None then 0 else 1), s')"
    "view (world s') = view (world s)" "conn s s'" by (auto simp: spec_Exists_def)
  then show thesis by (intro that [of s']) (auto simp: existsKey_def existsRawKey_def prog_simps)
qed

lemma child_handled:
  fixes rec :: "string \<Rightarrow> ('w proc, unit) prog"
  assumes D: "rapi D = R" and pre: "prefixed rs pre" and cl: "client rs = Some c" and d: "canon d"
    and rec: "\<And>x z. seg_ok x \<Longrightarrow> view (world s) (pjoin (pre @ d @ [x])) = Some (RZSet z) \<Longrightarrow>
      (\<And>s1. view (world s1) = view (world s) \<Longrightarrow> conn s s1 \<Longrightarrow> \<exists>t. rec (pjoin (d @ [x])) s1 = Some (Ok (), t) \<and> conn s1 t
         \<and> swept F pre (pre @ d @ [x]) (view (world s)) (view (world t)) \<and> tidy (view (world t)) F A (pre @ d @ [x]))"
    and A: "\<And>x z. view (world s) (pjoin (pre @ d @ [x])) = Some (RZSet z) \<Longrightarrow> A (pre @ d @ [x])"
    and up: "up (world s) c" and R: "recorded (view (world s)) F pre" and k: "k \<in> zmem (view (world s)) (pre @ d)"
  obtains s' where "\<forall>keys. repair_children D rs rec (pjoin d) (k # keys) s = repair_children D rs rec (pjoin d) keys s'"
    and "conn s s'" and "handled F A pre (pre @ d) k (view (world s)) (view (world s'))"
proof -
  let ?db = "view (world s)" and ?q = "pre @ d"
  have cp: "canon pre" using pre by (simp add: prefixed_def)
  obtain z where z: "?db (pjoin ?q) = Some (RZSet z)" and kz: "k \<in> members z"
    using k by (auto simp: zmem_def split: option.splits rval.splits)
  from recordedD(3) [OF R d k] obtain x where x: "seg_ok x" "k = x \<or> k = x @ ''/''" "TrimSuffix k keyPathSeparator = x"
    and kind: "k = x @ ''/'' \<and> (\<forall>v. ?db (pjoin (?q @ [x])) \<noteq> Some (RStr v)) \<or> k = x
      \<and> (\<forall>z. ?db (pjoin (?q @ [x])) \<noteq> Some (RZSet z)) \<and> (\<forall>v. ?db (pjoin (?q @ [x])) = Some (RStr v) \<longrightarrow> ?q @ [x] \<in> F)"
    by (cases rule: well_named_cases) (auto simp: TrimSuffix_seg TrimSuffix_dir)
  have pk: "prefixKey rs (pjoin d) = pjoin ?q" "prefixKey rs (pjoin (d @ [x])) = pjoin (pre @ d @ [x])"
    using pre d x(1) by (simp_all add: prefixed_def prefixKey_canon)
  obtain s1 where s1: "existsKey R rs (Some c) (pjoin (d @ [x])) s = Some (Ok (?db (pjoin (pre @ d @ [x])) \<noteq> None), s1)"
    "view (world s1) = ?db" "conn s s1"
    using existsKey_up [OF up, of rs "pjoin (d @ [x])"] pk(2) by auto
  note step = D cl x(3) join_child [OF d x(1)] pk(1) prog_simps
    bindP_simps(1) [where m = "existsKey R rs (Some c) (pjoin (d @ [x]))", OF s1(1)]
  consider (stale) "?db (pjoin (pre @ d @ [x])) = None"
    | (sub) z' where "k = x @ ''/''" "?db (pjoin (pre @ d @ [x])) = Some (RZSet z')"
    | (present) v where "k = x" "?db (pjoin (pre @ d @ [x])) = Some (RStr v)" "?q @ [x] \<in> F"
  proof (cases "?db (pjoin (pre @ d @ [x]))")
    case (Some y)
    with kind show thesis by (cases y) (use sub present in auto)
  qed (rule stale)
  then show thesis
  proof cases
    case stale
    have "up (world s1) c" using up s1(3) by (simp add: conn_up)
    from call_up [OF ZRem this, of "pjoin ?q" k] obtain s2 where s2:
      "call (api_ZRem R (pjoin ?q) k) (Some c) s1 = Some (Ok 1, s2)" "view (world s2) = drop_member ?q k z ?db" "conn s1 s2"
      using z kz s1(2) by (auto simp: spec_ZRem_def drop_member_def)
    show thesis
    proof (rule that [of s2])
      show "\<forall>keys. repair_children D rs rec (pjoin d) (k # keys) s = repair_children D rs rec (pjoin d) keys s2"
        using stale s2(1) by (simp add: Let_def step)
      show "conn s s2" using s1(3) s2(3) by (rule conn_trans)
      show "handled F A pre ?q k ?db (view (world s2))"
        unfolding s2(2) by (rule stale_handled [OF R cp d z x(1,2) stale])
    qed
  next
    case (sub z')
    from rec [OF x(1) sub(2) s1(2,3)] obtain t where t: "rec (pjoin (d @ [x])) s1 = Some (Ok (), t)" "conn s1 t"
      "swept F pre (pre @ d @ [x]) ?db (view (world t))" "tidy (view (world t)) F A (pre @ d @ [x])" by blast
    have ne: "k \<noteq> x" using sub(1) by simp
    show thesis
    proof (rule that [of t])
      show "\<forall>keys. repair_children D rs rec (pjoin d) (k # keys) s = repair_children D rs rec (pjoin d) keys t"
        using sub(2) t(1) ne by (simp add: Let_def step)
      show "conn s t" using s1(3) t(2) by (rule conn_trans)
    qed (rule subdir_handled [OF cp d x(1) sub(1) t(3,4) A [OF sub(2)]])
  next
    case (present v)
    show thesis
    proof (rule that [of s1])
      show "\<forall>keys. repair_children D rs rec (pjoin d) (k # keys) s = repair_children D rs rec (pjoin d) keys s1"
        using present(2) x(3) [unfolded present(1)] by (simp add: Let_def step present(1))
      show "handled F A pre ?q k ?db (view (world s1))"
        using s1(2) R present x(1) by (auto simp: handled_def swept_def kept_def)
    qed (rule s1(3))
  qed
qed

lemma repair_children_sweep:
  fixes rec :: "string \<Rightarrow> ('w proc, unit) prog"
  assumes D: "rapi D = R" and pre: "prefixed rs pre" and cl: "client rs = Some c" and d: "canon d"
    and A: "\<And>p z. base (pjoin p) = Some (RZSet z) \<Longrightarrow> A p"
    and rec: "\<And>x z t. seg_ok x \<Longrightarrow> up (world t) c \<Longrightarrow> recorded (view (world t)) F pre \<Longrightarrow> shrunk base (view (world t)) \<Longrightarrow>
      view (world t) (pjoin (pre @ d @ [x])) = Some (RZSet z) \<Longrightarrow>
      \<exists>t'. rec (pjoin (d @ [x])) t = Some (Ok (), t') \<and> conn t t'
         \<and> swept F pre (pre @ d @ [x]) (view (world t)) (view (world t')) \<and> tidy (view (world t')) F A (pre @ d @ [x])"
  shows "up (world s) c \<Longrightarrow> recorded (view (world s)) F pre \<Longrightarrow> shrunk base (view (world s)) \<Longrightarrow> distinct keys \<Longrightarrow>
    set keys \<subseteq> zmem (view (world s)) (pre @ d) \<Longrightarrow>
    (\<And>k. k \<in> zmem (view (world s)) (pre @ d) \<Longrightarrow> k \<notin> set keys \<Longrightarrow> kept (view (world s)) F A (pre @ d) k) \<Longrightarrow>
    \<exists>s'. repair_children D rs rec (pjoin d) keys s = Some (Ok (), s') \<and> conn s s'
      \<and> swept F pre (pre @ d) (view (world s)) (view (world s'))
      \<and> (\<forall>k \<in> zmem (view (world s')) (pre @ d). kept (view (world s')) F A (pre @ d) k)
      \<and> (\<forall>x. keys = [x @ ''/''] \<longrightarrow> view (world s) (pjoin (pre @ d @ [x])) \<noteq> None \<longrightarrow>
           zmem (view (world s')) (pre @ d) = zmem (view (world s)) (pre @ d))"
proof (induction keys arbitrary: s)
  case Nil
  then show ?case by (simp add: swept_def)
next
  case (Cons k keys)
  let ?q = "pre @ d"
  have k: "k \<in> zmem (view (world s)) ?q" using Cons.prems(5) by simp
  have sub: "\<exists>t. rec (pjoin (d @ [x])) s1 = Some (Ok (), t) \<and> conn s1 t
      \<and> swept F pre (pre @ d @ [x]) (view (world s)) (view (world t)) \<and> tidy (view (world t)) F A (pre @ d @ [x])"
    if "seg_ok x" "view (world s) (pjoin (pre @ d @ [x])) = Some (RZSet z)" "view (world s1) = view (world s)" "conn s s1" for x z s1
    using rec [OF that(1), of s1 z] that Cons.prems(1-3) conn_up [OF that(4)] by simp
  obtain s1 where s1: "\<forall>keys. repair_children D rs rec (pjoin d) (k # keys) s = repair_children D rs rec (pjoin d) keys s1"
    "conn s s1" "handled F A pre ?q k (view (world s)) (view (world s1))"
    by (rule child_handled [where rec = rec, OF D pre cl d _ _ Cons.prems(1,2) k])
       (rule sub, assumption+, use A Cons.prems(3) shrunk_zset in blast)
  have "up (world s1) c" using Cons.prems(1) s1(2) by (simp add: conn_up)
  moreover have "recorded (view (world s1)) F pre" "shrunk base (view (world s1))"
    using s1(3) Cons.prems(3) shrunk_trans by (auto simp: handled_def swept_def)
  moreover have "set keys \<subseteq> zmem (view (world s1)) ?q" using s1(3) Cons.prems(4,5) by (auto simp: handled_def)
  moreover have "kept (view (world s1)) F A ?q k'" if "k' \<in> zmem (view (world s1)) ?q" "k' \<notin> set keys" for k'
    using s1(3) that Cons.prems(6) [of k'] by (cases "k' = k") (auto simp: handled_def)
  ultimately obtain s' where "repair_children D rs rec (pjoin d) keys s1 = Some (Ok (), s')" "conn s1 s'"
    "swept F pre ?q (view (world s1)) (view (world s'))" "\<forall>k \<in> zmem (view (world s')) ?q. kept (view (world s')) F A ?q k"
    using Cons.IH [of s1] Cons.prems(4) by auto
  moreover have "swept F pre ?q (view (world s)) (view (world s1))" using s1(3) by (simp add: handled_def)
  moreover have "zmem (view (world s')) ?q = zmem (view (world s)) ?q"
    if "k # keys = [x @ ''/'']" "view (world s) (pjoin (pre @ d @ [x])) \<noteq> None" for x
    using that s1(3) \<open>repair_children D rs rec (pjoin d) keys s1 = Some (Ok (), s')\<close> by (auto simp: handled_def)
  ultimately show ?case using s1(1,2) by (auto intro: conn_trans swept_trans)
qed

text \<open>The part of \<open>Repair\<close> that runs in every directory.\<close>

definition repair_tree :: "'w deps \<Rightarrow> RedisStorage \<Rightarrow> string \<Rightarrow> ('w proc, unit) prog" where
  "repair_tree D rs dir =
     bindP (wrapP (errorf_v (''Unable to get range on sorted set '' @ CHR 0x27 # prefixKey rs dir @ CHR 0x27 # '': ''))
              (call (api_ZRange (rapi D) (prefixKey rs dir)) (client rs)))
       (\<lambda>keys. repair_children D rs (Repair D rs) dir keys)"

lemma Repair_parts:
  "Repair D rs dir = (if dir = '''' then bindP (repair_scan D rs (prefixKey rs dir) 0) (\<lambda>_. repair_tree D rs dir) else repair_tree D rs dir)"
  by (rule ext) (subst Repair.simps, simp add: repair_tree_def)

lemma singleton_list: "distinct xs \<Longrightarrow> set xs = {a} \<Longrightarrow> xs = [a]"
  by (cases xs; cases "tl xs") auto

lemma repair_tree_sweep:
  assumes D: "rapi D = R" and pre: "prefixed rs pre" and cl: "client rs = Some c" and A: "\<And>p z. base (pjoin p) = Some (RZSet z) \<Longrightarrow> A p"
  shows "canon d \<Longrightarrow> shrunk base (view (world s)) \<Longrightarrow> up (world s) c \<Longrightarrow> recorded (view (world s)) F pre \<Longrightarrow>
    \<forall>v. view (world s) (pjoin (pre @ d)) \<noteq> Some (RStr v) \<Longrightarrow>
    \<forall>r z. canon r \<longrightarrow> base (pjoin (pre @ d @ r)) = Some (RZSet z) \<longrightarrow> length r \<le> n \<Longrightarrow>
    \<exists>s'. repair_tree D rs (pjoin d) s = Some (Ok (), s') \<and> conn s s'
      \<and> swept F pre (pre @ d) (view (world s)) (view (world s')) \<and> tidy (view (world s')) F A (pre @ d)
      \<and> (\<forall>x. zmem (view (world s)) (pre @ d) = {x @ ''/''} \<longrightarrow> view (world s) (pjoin (pre @ d @ [x])) \<noteq> None \<longrightarrow>
           zmem (view (world s')) (pre @ d) = {x @ ''/''})"
proof (induction n arbitrary: d s rule: less_induct)
  case (less n)
  let ?q = "pre @ d" and ?db = "view (world s)"
  let ?keys = "case ?db (pjoin ?q) of Some (RZSet z) \<Rightarrow> map fst z | _ \<Rightarrow> []"
  have pk: "prefixKey rs (pjoin d) = pjoin ?q" using pre less.prems(1) by (simp add: prefixed_def prefixKey_canon)
  have "spec_ZRange (pjoin ?q) ?db = (Inr ?keys, ?db)"
    using less.prems(5) by (auto simp: spec_ZRange_def split: option.split rval.split)
  with call_up [OF ZRange less.prems(3), of "pjoin ?q"] obtain s1 where
    s1: "call (api_ZRange R (pjoin ?q)) (Some c) s = Some (Ok ?keys, s1)" "view (world s1) = ?db" "conn s s1"
    by auto
  have K: "set ?keys = zmem ?db ?q" "distinct ?keys"
    using recordedD(1) [OF less.prems(4,1)] by (auto simp: zmem_def zdist_def split: option.splits rval.splits)
  have rec: "\<exists>t'. Repair D rs (pjoin (d @ [x])) t = Some (Ok (), t') \<and> conn t t'
      \<and> swept F pre (pre @ d @ [x]) (view (world t)) (view (world t')) \<and> tidy (view (world t')) F A (pre @ d @ [x])"
    if x: "seg_ok x" and t: "up (world t) c" "recorded (view (world t)) F pre" "shrunk base (view (world t))"
      "view (world t) (pjoin (pre @ d @ [x])) = Some (RZSet z)" for x t z
  proof -
    have cx: "canon (d @ [x])" using less.prems(1) x by simp
    have b: "length r \<le> n" if "canon r" "base (pjoin (pre @ d @ r)) = Some (RZSet z)" for r z
      using less.prems(6) that by blast
    have "n - 1 < n" using b [of "[x]"] shrunk_zset [OF t(3,4)] x by fastforce
    moreover have "\<forall>r z. canon r \<longrightarrow> base (pjoin (pre @ (d @ [x]) @ r)) = Some (RZSet z) \<longrightarrow> length r \<le> n - 1"
      using b [of "x # _"] x by fastforce
    ultimately have "\<exists>t'. repair_tree D rs (pjoin (d @ [x])) t = Some (Ok (), t') \<and> conn t t'
      \<and> swept F pre (pre @ d @ [x]) (view (world t)) (view (world t')) \<and> tidy (view (world t')) F A (pre @ d @ [x])"
      using less.IH [of "n - 1" "d @ [x]" t] cx t by auto
    moreover have "pjoin (d @ [x]) \<noteq> ''''" using pjoin_inj [OF cx, of "[]"] by force
    ultimately show ?thesis by (simp add: Repair_parts)
  qed
  have "\<exists>s'. repair_children D rs (Repair D rs) (pjoin d) ?keys s1 = Some (Ok (), s') \<and> conn s1 s'
      \<and> swept F pre ?q (view (world s1)) (view (world s')) \<and> (\<forall>k \<in> zmem (view (world s')) ?q. kept (view (world s')) F A ?q k)
      \<and> (\<forall>x. ?keys = [x @ ''/''] \<longrightarrow> view (world s1) (pjoin (pre @ d @ [x])) \<noteq> None \<longrightarrow>
           zmem (view (world s')) ?q = zmem (view (world s1)) ?q)"
    by (rule repair_children_sweep [where base = base, OF D pre cl less.prems(1)])
       (erule A, erule (4) rec, use less.prems(2,3,4) s1(2) conn_up [OF s1(3)] K in simp_all)
  then obtain s' where s': "repair_children D rs (Repair D rs) (pjoin d) ?keys s1 = Some (Ok (), s')" "conn s1 s'"
    "swept F pre ?q (view (world s1)) (view (world s'))" "\<forall>k \<in> zmem (view (world s')) ?q. kept (view (world s')) F A ?q k"
    "\<forall>x. ?keys = [x @ ''/''] \<longrightarrow> view (world s1) (pjoin (pre @ d @ [x])) \<noteq> None \<longrightarrow>
      zmem (view (world s')) ?q = zmem (view (world s1)) ?q"
    by blast
  have "repair_tree D rs (pjoin d) s = Some (Ok (), s')"
    using s1(1) s'(1) by (simp add: repair_tree_def pk D cl prog_simps)
  moreover have "tidy (view (world s')) F A ?q"
  proof (rule tidyI)
    note R' = recordedD [OF _ less.prems(1), of "view (world s')" F pre]
    show "zdist (view (world s')) ?q" "children F ?q \<subseteq> zmem (view (world s')) ?q" using s'(3) R' by (auto simp: swept_def)
    show "view (world s') (pjoin ?q) \<noteq> Some (RStr v)" for v
      using s'(3) s1(2) less.prems(5) shrunk_string by (metis swept_def)
  qed (use s'(4) in \<open>auto simp: kept_def\<close>)
  moreover have "?keys = [x @ ''/'']" if "zmem ?db ?q = {x @ ''/''}" for x
    by (rule singleton_list) (use K that in simp_all)
  ultimately show ?case using s' s1 conn_trans by auto
qed

end


subsection \<open>Rebuilding the records\<close>

text \<open>
  \<open>db\<close> is \<open>base\<close> with the records of the files \<open>P\<close> added; apart from the directories above
  these files no key is new.
\<close>

definition rebuilt :: "rdb \<Rightarrow> string list set \<Rightarrow> rdb \<Rightarrow> bool" where
  "rebuilt base P db \<longleftrightarrow> strings_same base db
     \<and> (\<forall>q. canon q \<longrightarrow> q \<noteq> [] \<longrightarrow> zmem db q = zmem base q \<union> children P q \<and> (zdist base q \<longrightarrow> zdist db q))
     \<and> (\<forall>k z. db k = Some (RZSet z) \<longrightarrow>
          (\<exists>z. base k = Some (RZSet z)) \<or> (\<exists>q r. q @ r \<in> P \<and> q \<noteq> [] \<and> r \<noteq> [] \<and> k = pjoin q))"

lemma rebuilt_refl: "rebuilt base {} base"
  by (simp add: rebuilt_def strings_same_def children_def)

lemma rebuilt_string: "rebuilt base P db \<Longrightarrow> db k = Some (RStr v) \<longleftrightarrow> base k = Some (RStr v)"
  by (simp add: rebuilt_def strings_same_def)

lemma added_zmem:
  assumes A: "added False p db db'" and c: "canon p" "canon q" and q: "q \<noteq> []"
  shows "zmem db' q = zmem db q \<union> children {p} q \<and> (zdist db q \<longrightarrow> zdist db' q)"
proof (cases "\<exists>b r. p = q @ b # r")
  case True
  then obtain b r where p: "p = q @ b # r" by blast
  obtain z where z: "db' (pjoin q) = Some (RZSet z)" "zdist db q \<longrightarrow> distinct (map fst z)"
      "members z = insert (if r = [] \<and> \<not> False then b else b @ ''/'') (zmem db q)"
    using A p q unfolding added_def by blast
  have "children {p} q = {if r = [] then b else b @ ''/''}" by (auto simp: children_def p)
  with z have "members z = zmem db q \<union> children {p} q" by simp
  then show ?thesis using z(1,2) unfolding zmem_def [of db' q] zdist_def [of db' q] by simp
next
  case False
  then have "children {p} q = {}" by (auto simp: children_def)
  moreover have "pjoin q \<noteq> pjoin q'" if "p = q' @ r" "r \<noteq> []" for q' r
    using that False c by (auto simp: neq_Nil_conv pjoin_eq_iff)
  then have "db' (pjoin q) = db (pjoin q)" using A by (simp add: added_def)
  ultimately show ?thesis by (simp add: zmem_def zdist_def)
qed

lemma added_rebuilt:
  assumes R: "rebuilt base P db" and c: "canon p" and nf: "no_file_above db p" and A: "added False p db db'"
  shows "rebuilt base (insert p P) db'"
  unfolding rebuilt_def
proof (intro conjI allI impI)
  show "strings_same base db'"
    using R added_strings [OF nf A] by (simp add: rebuilt_def strings_same_def)
  fix q assume q: "canon q" "q \<noteq> []"
  have "children (insert p P) q = children P q \<union> children {p} q" by (auto simp: children_def)
  then show "zmem db' q = zmem base q \<union> children (insert p P) q" "zdist base q \<Longrightarrow> zdist db' q"
    using added_zmem [OF A c q] R q by (auto simp: rebuilt_def)
next
  fix k z assume z: "db' k = Some (RZSet z)"
  show "(\<exists>z. base k = Some (RZSet z)) \<or> (\<exists>q r. q @ r \<in> insert p P \<and> q \<noteq> [] \<and> r \<noteq> [] \<and> k = pjoin q)"
  proof (cases "\<exists>q r. p = q @ r \<and> q \<noteq> [] \<and> r \<noteq> [] \<and> k = pjoin q")
    case False
    with A have "db' k = db k" unfolding added_def by blast
    with z R show ?thesis unfolding rebuilt_def by (metis insertCI)
  qed blast
qed

text \<open>What is known of the keyspace before a repair: \<open>K\<close> are the keys with a value that loads.\<close>

definition repairable :: "'w deps \<Rightarrow> RedisStorage \<Rightarrow> string list \<Rightarrow> string list set \<Rightarrow> rdb \<Rightarrow> bool" where
  "repairable D rs pre K db \<longleftrightarrow> finite (dom db) \<and> finite K \<and> (\<forall>v. db (pjoin pre) \<noteq> Some (RStr v))
     \<and> (\<forall>k \<in> K. canon k \<and> k \<noteq> [] \<and> no_file_above db (pre @ k) \<and> (\<exists>sd. loadResult D (pjoin k) (db (pjoin (pre @ k))) = Ok sd))
     \<and> (\<forall>key v. db key = Some (RStr v) \<longrightarrow> HasPrefix key (pjoin pre) \<longrightarrow> (\<exists>k \<in> K. key = pjoin (pre @ k))
          \<or> (\<forall>sd. loadResult D (trimKey rs key) (db (prefixKey rs (trimKey rs key))) \<noteq> Ok sd))
     \<and> (\<forall>d. canon d \<longrightarrow> zdist db (pre @ d) \<and> (\<forall>m \<in> zmem db (pre @ d). well_named db ((@) pre ` K) (pre @ d) m))"

lemma repairable_key:
  assumes "repairable D rs pre K db" and "k \<in> K"
  obtains sd v where "canon k" "k \<noteq> []" "no_file_above db (pre @ k)" "loadResult D (pjoin k) (db (pjoin (pre @ k))) = Ok sd"
    "db (pjoin (pre @ k)) = Some (RStr v)"
proof -
  from assms obtain sd where "canon k" "k \<noteq> []" "no_file_above db (pre @ k)" and sd: "loadResult D (pjoin k) (db (pjoin (pre @ k))) = Ok sd"
    unfolding repairable_def by blast
  moreover from sd obtain v where "db (pjoin (pre @ k)) = Some (RStr v)"
    by (auto simp: loadResult_def split: option.splits rval.splits if_splits)
  ultimately show thesis using that by blast
qed

lemma loadResult_same:
  assumes "strings_same db db'" and "loadResult D key (db' x) = Ok sd"
  shows "loadResult D key (db x) = Ok sd"
proof -
  from assms(2) obtain v where v: "db' x = Some (RStr v)" by (auto simp: loadResult_def split: option.splits rval.splits if_splits)
  with assms(1) have "db x = Some (RStr v)" by (simp add: strings_same_def)
  with v assms(2) show ?thesis by simp
qed


context redis_server
begin

text \<open>One key of a scan: a value that loads gets its records, anything else is passed over.\<close>

lemma repair_key:
  assumes D: "rapi D = R" and pre: "prefixed rs pre" and cl: "client rs = Some c" and up: "up (world s) c"
    and ok: "repairable D rs pre K base" and P: "rebuilt base P (view (world s))" and key: "HasPrefix key (pjoin pre)"
  obtains s' Q where "\<forall>keys. repair_keys D rs (key # keys) s = repair_keys D rs keys s'" and "conn s s'"
    and "rebuilt base Q (view (world s'))" and "P \<subseteq> Q" "Q \<subseteq> P \<union> (@) pre ` K" and "\<forall>k \<in> K. key = pjoin (pre @ k) \<longrightarrow> pre @ k \<in> Q"
proof -
  let ?db = "view (world s)"
  have cp: "canon pre" "KeyPrefix rs = pjoin pre" using pre by (simp_all add: prefixed_def)
  have same: "strings_same base ?db" using P by (simp add: rebuilt_def)
  define ty where "ty = (case ?db key of None \<Rightarrow> ''none'' | Some (RZSet z) \<Rightarrow> ''zset'' | Some (RStr v) \<Rightarrow> ''string'')"
  have ty: "ty = ''string'' \<longleftrightarrow> (\<exists>v. ?db key = Some (RStr v))" by (simp add: ty_def split: option.split rval.split)
  have "spec_Type key ?db = (Inr ty, ?db)" by (simp add: spec_Type_def ty_def split: option.split rval.split)
  with call_up [OF Type up, of key] obtain s1 where
    s1: "call (api_Type R key) (Some c) s = Some (Ok ty, s1)" "view (world s1) = ?db" "conn s s1" by auto
  have up1: "up (world s1) c" using up s1(3) by (simp add: conn_up)
  obtain s2 where s2: "loadStorageData D rs (Some c) (trimKey rs key) s1 =
      Some (loadResult D (trimKey rs key) (?db (prefixKey rs (trimKey rs key))), s2)" "conn s1 s2" "view (world s2) = ?db"
    using loadStorageData_live [OF D up1, of rs "trimKey rs key"] s1(2) by auto
  note run = D cl s1(1) s2(1) prog_simps
  have known: "\<forall>v. base key = Some (RStr v) \<longrightarrow> (\<exists>k \<in> K. key = pjoin (pre @ k))
      \<or> (\<forall>sd. loadResult D (trimKey rs key) (base (prefixKey rs (trimKey rs key))) \<noteq> Ok sd)"
    using ok key by (simp add: repairable_def)
  consider (skip) "\<forall>v. base key \<noteq> Some (RStr v)" | (stored) k where "k \<in> K" "key = pjoin (pre @ k)" "\<exists>v. base key = Some (RStr v)"
    | (stray) v where "base key = Some (RStr v)" "\<forall>sd. loadResult D (trimKey rs key) (base (prefixKey rs (trimKey rs key))) \<noteq> Ok sd"
      "\<forall>k \<in> K. key \<noteq> pjoin (pre @ k)"
    using known by blast
  then show thesis
  proof cases
    case skip
    then have "ty \<noteq> ''string''" using ty same by (simp add: strings_same_def)
    then have "\<forall>keys. repair_keys D rs (key # keys) s = repair_keys D rs keys s1" by (simp add: run)
    moreover have "\<forall>k \<in> K. key \<noteq> pjoin (pre @ k)" using skip repairable_key [OF ok] by metis
    ultimately show thesis using that [of s1 P] s1 P by auto
  next
    case stray
    then have "ty = ''string''" using ty same by (auto simp: strings_same_def)
    moreover have "\<forall>sd. loadResult D (trimKey rs key) (?db (prefixKey rs (trimKey rs key))) \<noteq> Ok sd"
      using stray(2) loadResult_same [OF same] by blast
    moreover have "loadResult D k x \<noteq> Panic" for k x
      by (simp add: loadResult_def split: option.split rval.split sum.split)
    ultimately have "\<forall>keys. repair_keys D rs (key # keys) s = repair_keys D rs keys s2"
      by (cases "loadResult D (trimKey rs key) (?db (prefixKey rs (trimKey rs key)))") (auto simp: run)
    then show thesis using that [of s2 P] s1 s2 P stray(3) conn_trans [OF s1(3) s2(2)] by auto
  next
    case (stored k)
    from repairable_key [OF ok stored(1)] obtain sd where k: "canon k" "no_file_above base (pre @ k)"
      "loadResult D (pjoin k) (base (pjoin (pre @ k))) = Ok sd" by metis
    have "key = prefixKey rs (pjoin k)" using cp k(1) stored(2) by (simp add: prefixKey_canon)
    then have t: "trimKey rs key = pjoin k" "prefixKey rs (pjoin k) = key" using trimKey_prefixKey [OF cp(2,1) k(1)] by simp_all
    have "strings_same ?db base" using same by (simp add: strings_same_def)
    then have load: "loadResult D (pjoin k) (?db key) = Ok sd" using loadResult_same k(3) stored(2) by blast
    have "ty = ''string''" using stored(3) ty same by (auto simp: strings_same_def)
    have up2: "up (world s2) c" using up1 s2(2) by (simp add: conn_up)
    have nf: "no_file_above (view (world s2)) (pre @ k)" using k(2) same s2(3) by (simp add: no_file_above_def strings_same_def)
    have cpk: "canon (pre @ k)" "pre @ k \<noteq> []" using cp k(1) pre by (auto simp: prefixed_def)
    obtain s3 where s3: "storeDirectoryRecord R (Some c) key (Unix (Modified sd)) True False s2 = Some (Ok (), s3)" "conn s2 s3"
      "added False (pre @ k) (view (world s2)) (view (world s3))"
      using storeDirectoryRecord_added [where repair = True, OF cpk up2 nf, of "Unix (Modified sd)" False] stored(2) by auto
    have "\<forall>keys. repair_keys D rs (key # keys) s = repair_keys D rs keys s3"
      using s3(1) load t \<open>ty = ''string''\<close> s2(1) by (simp add: D cl s1(1) prog_simps)
    moreover have "rebuilt base (insert (pre @ k) P) (view (world s3))"
      using added_rebuilt [OF _ cpk(1) nf s3(3)] P s2(3) by simp
    moreover have "k' = k" if "k' \<in> K" "key = pjoin (pre @ k')" for k'
      using that stored(2) cp(1) k(1) repairable_key [OF ok that(1)] pjoin_inj by (metis canon_simps_list(3) same_append_eq)
    ultimately show thesis
      using that [of s3 "insert (pre @ k) P"] stored(1) conn_trans [OF conn_trans [OF s1(3) s2(2)] s3(2)] by auto
  qed
qed

lemma repair_keys_rebuild:
  assumes D: "rapi D = R" and pre: "prefixed rs pre" and cl: "client rs = Some c" and ok: "repairable D rs pre K base"
  shows "up (world s) c \<Longrightarrow> rebuilt base P (view (world s)) \<Longrightarrow> \<forall>key \<in> set keys. HasPrefix key (pjoin pre) \<Longrightarrow>
    \<exists>s' Q. repair_keys D rs keys s = Some (Ok (), s') \<and> conn s s' \<and> rebuilt base Q (view (world s'))
      \<and> P \<subseteq> Q \<and> Q \<subseteq> P \<union> (@) pre ` K \<and> (\<forall>k \<in> K. pjoin (pre @ k) \<in> set keys \<longrightarrow> pre @ k \<in> Q)"
proof (induction keys arbitrary: s P)
  case Nil
  then show ?case by auto
next
  case (Cons key keys)
  from repair_key [OF D pre cl Cons.prems(1) ok Cons.prems(2), of key] Cons.prems(3) obtain s1 P1 where s1:
    "\<forall>keys. repair_keys D rs (key # keys) s = repair_keys D rs keys s1" "conn s s1" "rebuilt base P1 (view (world s1))"
    "P \<subseteq> P1" "P1 \<subseteq> P \<union> (@) pre ` K" "\<forall>k \<in> K. key = pjoin (pre @ k) \<longrightarrow> pre @ k \<in> P1" by (metis list.set_intros(1))
  have "up (world s1) c" using Cons.prems(1) s1(2) by (simp add: conn_up)
  from Cons.IH [OF this s1(3)] Cons.prems(3) obtain s' Q where "repair_keys D rs keys s1 = Some (Ok (), s')" "conn s1 s'"
    "rebuilt base Q (view (world s'))" "P1 \<subseteq> Q" "Q \<subseteq> P1 \<union> (@) pre ` K" "\<forall>k \<in> K. pjoin (pre @ k) \<in> set keys \<longrightarrow> pre @ k \<in> Q"
    by auto
  then show ?case using s1 conn_trans [OF s1(2)] by (intro exI [of _ s'] exI [of _ Q]) auto
qed

end


lemma rebuilt_recorded:
  assumes ok: "repairable D rs pre K base" and pre: "prefixed rs pre" and R: "rebuilt base ((@) pre ` K) db"
  shows "recorded db ((@) pre ` K) pre"
  unfolding recorded_def
proof (intro conjI allI impI ballI)
  let ?F = "(@) pre ` K"
  have cp: "canon pre" "pre \<noteq> []" using pre by (auto simp: prefixed_def)
  have F: "canon p \<and> (\<exists>v. base (pjoin p) = Some (RStr v)) \<and> no_file_above base p" if "p \<in> ?F" for p
    using that repairable_key [OF ok] cp(1) by (metis canon_simps_list(3) imageE)
  show "canon p" "\<exists>v. db (pjoin p) = Some (RStr v)" if "p \<in> ?F" for p
    using F [OF that] rebuilt_string [OF R] by auto
  fix d assume d: "canon d"
  let ?q = "pre @ d"
  have q: "canon ?q" "?q \<noteq> []" using cp d by auto
  have base: "zdist base ?q" "m \<in> zmem base ?q \<Longrightarrow> well_named base ?F ?q m" for m
    using ok d by (auto simp: repairable_def)
  have Z: "zmem db ?q = zmem base ?q \<union> children ?F ?q" "zdist base ?q \<longrightarrow> zdist db ?q"
    using R q by (auto simp: rebuilt_def)
  show "zdist db ?q" "children ?F ?q \<subseteq> zmem db ?q" using Z base(1) by auto
  have newdir: "(\<exists>z. base (pjoin (?q @ [x])) = Some (RZSet z)) \<or> (\<exists>r. r \<noteq> [] \<and> ?q @ x # r \<in> ?F)"
    if "seg_ok x" "db (pjoin (?q @ [x])) = Some (RZSet z)" for x z
  proof -
    have "p = ?q @ [x]" if "p @ r \<in> ?F" "pjoin (?q @ [x]) = pjoin p" for p r
      using that F [OF that(1)] q(1) \<open>seg_ok x\<close> by (auto simp: pjoin_eq_iff)
    then show ?thesis using R that(2) unfolding rebuilt_def by (metis append.assoc append_Cons append_Nil)
  qed
  fix m assume "m \<in> zmem db ?q"
  then consider "m \<in> zmem base ?q" | "m \<in> children ?F ?q" using Z(1) by blast
  then show "well_named db ?F ?q m"
  proof cases
    case 1
    from base(2) [OF this] show ?thesis unfolding well_named_def rebuilt_string [OF R] using newdir by metis
  next
    case 2
    then show ?thesis
    proof (rule children_cases)
      fix b assume b: "m = b" "seg_ok b" "?q @ [b] \<in> ?F"
      then obtain v where v: "base (pjoin (?q @ [b])) = Some (RStr v)" using F by blast
      then have "db (pjoin (?q @ [b])) = Some (RStr v)" using rebuilt_string [OF R] by simp
      moreover have "?q @ b # r \<notin> ?F" if r: "r \<noteq> []" for r
      proof
        assume "?q @ b # r \<in> ?F"
        then have "no_file_above base ((?q @ [b]) @ r)" using F [of "?q @ b # r"] by simp
        then show False using v r unfolding no_file_above_def by blast
      qed
      ultimately show ?thesis using b unfolding well_named_def by (intro exI [of _ b]) auto
    next
      fix x r assume x: "m = x @ ''/''" "seg_ok x" "r \<noteq> []" "?q @ x # r \<in> ?F"
      then have "no_file_above base ((?q @ [x]) @ r)" using F [of "?q @ x # r"] by simp
      then have "\<forall>v. base (pjoin (?q @ [x])) \<noteq> Some (RStr v)" using x(3) unfolding no_file_above_def by blast
      then show ?thesis using x unfolding well_named_def rebuilt_string [OF R] by blast
    qed (use F in blast)
  qed
qed

lemma length_pjoin: "canon r \<Longrightarrow> length r \<le> length (pjoin r)"
proof (induction r)
  case (Cons x r)
  then have "1 \<le> length x" by (cases x) (auto simp: seg_ok_def)
  with Cons show ?case by (cases r) (simp_all add: Join_with.simps)
qed simp

text \<open>The keys there can be during the scan.\<close>

definition scan_keys :: "string list \<Rightarrow> string list set \<Rightarrow> rdb \<Rightarrow> string set" where
  "scan_keys pre K base = dom base \<union> (\<Union>k \<in> K. pjoin ` set (prefixes (pre @ k)))"

lemma rebuilt_dom: "rebuilt base P db \<Longrightarrow> P \<subseteq> (@) pre ` K \<Longrightarrow> dom db \<subseteq> scan_keys pre K base"
proof
  fix k assume R: "rebuilt base P db" and P: "P \<subseteq> (@) pre ` K" and "k \<in> dom db"
  then consider v where "db k = Some (RStr v)" | z where "db k = Some (RZSet z)" by (metis domD rval.exhaust)
  then show "k \<in> scan_keys pre K base"
  proof cases
    case 1
    then show ?thesis using rebuilt_string [OF R] by (auto simp: scan_keys_def)
  next
    case 2
    with R consider z where "base k = Some (RZSet z)" | q r where "q @ r \<in> P" "k = pjoin q" unfolding rebuilt_def by blast
    then show ?thesis
    proof cases
      case (2 q r)
      with P obtain k' where "k' \<in> K" "q @ r = pre @ k'" by auto
      then have "q \<in> set (prefixes (pre @ k'))" by (metis in_set_prefixes prefixI)
      with 2(2) \<open>k' \<in> K\<close> have "k \<in> (\<Union>k \<in> K. pjoin ` set (prefixes (pre @ k)))" by blast
      then show ?thesis unfolding scan_keys_def by blast
    qed (auto simp: scan_keys_def)
  qed
qed

lemma repairable_finite: "repairable D rs pre K base \<Longrightarrow> finite (scan_keys pre K base)"
  by (simp add: scan_keys_def repairable_def)

context redis_scan
begin

lemma scan_call:
  assumes "up (world s) c" and "plain_pattern p"
  obtains keys cur' s' where "call (api_Scan R cur (p @ ''*'') n) (Some c) s = Some (Ok (keys, cur'), s')"
    and "fst (api_Scan R cur (p @ ''*'') n c (world s)) = Inr (keys, cur')"
    and "view (world s') = view (world s)" and "conn s s'" and "\<forall>k \<in> set keys. HasPrefix k p"
proof -
  from Scan [OF assms, of cur n] obtain keys cur' w' where w: "api_Scan R cur (p @ ''*'') n c (world s) = (Inr (keys, cur'), w')"
    "view w' = view (world s)" "up w' = up (world s)" "closed w' = closed (world s)" "reach w' = reach (world s)"
    "\<forall>k \<in> set keys. HasPrefix k p" by blast
  show thesis
    by (rule that [of keys cur' "s\<lparr>world := w'\<rparr>"]) (use w in \<open>auto simp: call_def conn_def\<close>)
qed

lemma repair_scan_rebuild:
  assumes D: "rapi D = R" and pre: "prefixed rs pre" and cl: "client rs = Some c" and ok: "repairable D rs pre keys base"
    and pat: "plain_pattern (pjoin pre)" and KS: "(\<lambda>k. pjoin (pre @ k)) ` keys \<subseteq> K"
    and B: "\<And>tr. scan_trace (\<lambda>cur. api_Scan R cur (pjoin pre @ ''*'') 500 c) 0 tr \<Longrightarrow>
      \<forall>(w, ks, cur) \<in> set tr. dom (view w) \<subseteq> scan_keys pre keys base \<Longrightarrow> length tr \<le> B"
  shows "scan_trace (\<lambda>cur. api_Scan R cur (pjoin pre @ ''*'') 500 c) 0 tr \<Longrightarrow> tr = [] \<or> next_cursor tr \<noteq> 0 \<Longrightarrow>
    \<forall>(w, ks, cur) \<in> set tr. (\<exists>P \<subseteq> (@) pre ` keys. rebuilt base P (view w)) \<Longrightarrow> up (world s) c \<Longrightarrow>
    rebuilt base P (view (world s)) \<Longrightarrow> P \<subseteq> (@) pre ` keys \<Longrightarrow>
    \<forall>k \<in> keys. (\<exists>(w, ks, cur) \<in> set tr. pjoin (pre @ k) \<in> set ks) \<longrightarrow> pre @ k \<in> P \<Longrightarrow>
    \<exists>s'. repair_scan D rs (pjoin pre) (next_cursor tr) s = Some (Ok (), s') \<and> conn s s' \<and> rebuilt base ((@) pre ` keys) (view (world s'))"
proof (induction "B - length tr" arbitrary: tr s P rule: less_induct)
  case less
  let ?F = "(@) pre ` keys"
  obtain ks cur' s1 where s1: "call (api_Scan R (next_cursor tr) (pjoin pre @ ''*'') 500) (Some c) s = Some (Ok (ks, cur'), s1)"
    "fst (api_Scan R (next_cursor tr) (pjoin pre @ ''*'') 500 c (world s)) = Inr (ks, cur')"
    "view (world s1) = view (world s)" "conn s s1" "\<forall>k \<in> set ks. HasPrefix k (pjoin pre)"
    by (rule scan_call [OF less.prems(4) pat])
  let ?tr = "tr @ [(world s, ks, cur')]"
  have tr: "scan_trace (\<lambda>cur. api_Scan R cur (pjoin pre @ ''*'') 500 c) 0 ?tr"
    by (rule scan_trace_snoc) (use less.prems(1,2) s1(2) in auto)
  have past: "\<forall>(w, ks, cur) \<in> set ?tr. (\<exists>P \<subseteq> ?F. rebuilt base P (view w))"
    using less.prems(3,5,6) by auto
  then have "\<forall>(w, ks, cur) \<in> set ?tr. dom (view w) \<subseteq> scan_keys pre keys base" using rebuilt_dom by blast
  then have len: "length ?tr \<le> B" by (rule B [OF tr])
  have cur: "next_cursor ?tr = cur'" by (simp add: next_cursor_def)
  have up1: "up (world s1) c" using less.prems(4) s1(4) by (simp add: conn_up)
  obtain s2 Q where s2: "repair_keys D rs ks s1 = Some (Ok (), s2)" "conn s1 s2" "rebuilt base Q (view (world s2))"
    "P \<subseteq> Q" "Q \<subseteq> P \<union> ?F" "\<forall>k \<in> keys. pjoin (pre @ k) \<in> set ks \<longrightarrow> pre @ k \<in> Q"
    using repair_keys_rebuild [OF D pre cl ok up1, of P ks] less.prems(5) s1(3,5) by auto
  have found: "\<forall>k \<in> keys. (\<exists>(w, ks, cur) \<in> set ?tr. pjoin (pre @ k) \<in> set ks) \<longrightarrow> pre @ k \<in> Q"
    using less.prems(7) s2(4,6) by auto
  have QF: "Q \<subseteq> ?F" using s2(5) less.prems(6) by blast
  have run: "repair_scan D rs (pjoin pre) (next_cursor tr) s =
      (if cur' = 0 then Some (Ok (), s2) else repair_scan D rs (pjoin pre) cur' s2)"
    using s1(1) s2(1) by (subst repair_scan.simps) (simp add: D cl prog_simps)
  show ?case
  proof (cases "cur' = 0")
    case True
    have "pre @ k \<in> Q" if k: "k \<in> keys" for k
    proof -
      from repairable_key [OF ok k] obtain v where v: "base (pjoin (pre @ k)) = Some (RStr v)" "k \<noteq> []" by metis
      have "view w (pjoin (pre @ k)) \<noteq> None" if "(w, ks', cur) \<in> set ?tr" for w ks' cur
        using past that v(1) rebuilt_string by fastforce
      moreover have "HasPrefix (pjoin (pre @ k)) (pjoin pre)" using pre v(2) by (auto simp: prefixed_def HasPrefix_def Join_with_append)
      ultimately have "\<exists>w ks' cur. (w, ks', cur) \<in> set ?tr \<and> pjoin (pre @ k) \<in> set ks'"
        by (intro Scan_complete [OF pat tr]) (use k KS True cur in auto)
      with found k show ?thesis by fastforce
    qed
    with QF have "Q = ?F" by blast
    then show ?thesis using run True s2(3) conn_trans [OF s1(4) s2(2)] by simp
  next
    case False
    have "B - length ?tr < B - length tr" using len by simp
    moreover have "up (world s2) c" using up1 s2(2) by (simp add: conn_up)
    ultimately obtain s' where "repair_scan D rs (pjoin pre) cur' s2 = Some (Ok (), s')" "conn s2 s'" "rebuilt base ?F (view (world s'))"
      using less.hyps [of ?tr s2 Q] tr past s2(3) QF found False unfolding cur by blast
    then show ?thesis using run False conn_trans [OF conn_trans [OF s1(4) s2(2)]] by auto
  qed
qed

lemma Repair_tidies:
  assumes D: "rapi D = R" and pre: "prefixed rs pre" and cl: "client rs = Some c" and up: "up (world s) c"
    and ok: "repairable D rs pre keys (view (world s))" and pat: "plain_pattern (pjoin pre)" and KS: "(\<lambda>k. pjoin (pre @ k)) ` keys \<subseteq> K"
  obtains s' mid where "Repair D rs '''' s = Some (Ok (), s')" and "conn s s'"
    and "rebuilt (view (world s)) ((@) pre ` keys) mid" and "swept ((@) pre ` keys) pre pre mid (view (world s'))"
    and "tidy (view (world s')) ((@) pre ` keys) (\<lambda>p. \<exists>z. mid (pjoin p) = Some (RZSet z)) pre"
    and "\<forall>x. zmem mid pre = {x @ ''/''} \<longrightarrow> mid (pjoin (pre @ [x])) \<noteq> None \<longrightarrow> zmem (view (world s')) pre = {x @ ''/''}"
proof -
  let ?F = "(@) pre ` keys" and ?base = "view (world s)"
  have cp: "canon pre" "prefixKey rs '''' = pjoin pre" using pre prefixKey_canon [of rs pre "[]"] by (auto simp: prefixed_def)
  note fin = repairable_finite [OF ok]
  obtain B where B: "scan_trace (\<lambda>cur. api_Scan R cur (pjoin pre @ ''*'') 500 c) 0 tr \<Longrightarrow>
      \<forall>(w, ks, cur) \<in> set tr. finite (dom (view w)) \<and> card (dom (view w)) \<le> card (scan_keys pre keys ?base) \<Longrightarrow> length tr \<le> B" for tr
    using Scan_ends [of "pjoin pre" 500 c "card (scan_keys pre keys ?base)"] by blast
  have len: "length tr \<le> B" if "scan_trace (\<lambda>cur. api_Scan R cur (pjoin pre @ ''*'') 500 c) 0 tr"
      "\<forall>(w, ks, cur) \<in> set tr. dom (view w) \<subseteq> scan_keys pre keys ?base" for tr
  proof (rule B [OF that(1)], clarify)
    fix w ks cur assume "(w, ks, cur) \<in> set tr"
    from bspec [OF that(2) this] have "dom (view w) \<subseteq> scan_keys pre keys ?base" by simp
    then show "finite (dom (view w)) \<and> card (dom (view w)) \<le> card (scan_keys pre keys ?base)"
      using finite_subset [OF _ fin] card_mono [OF fin] by blast
  qed
  obtain s1 where s1: "repair_scan D rs (pjoin pre) 0 s = Some (Ok (), s1)" "conn s s1" "rebuilt ?base ?F (view (world s1))"
    using repair_scan_rebuild [where tr = "[]" and P = "{}" and s = s, OF D pre cl ok pat KS len] up rebuilt_refl
    by (auto simp: next_cursor_def)
  let ?mid = "view (world s1)"
  have up1: "up (world s1) c" using up s1(2) by (simp add: conn_up)
  have fin1: "finite (dom ?mid)" using finite_subset [OF rebuilt_dom [OF s1(3)] fin] by simp
  have "length r \<le> Max (length ` dom ?mid)" if "canon r" "?mid (pjoin (pre @ [] @ r)) = Some (RZSet z)" for r z
  proof -
    have "length r \<le> length (pjoin (pre @ r))" using length_pjoin [of "pre @ r"] cp(1) that(1) by simp
    also have "\<dots> \<le> Max (length ` dom ?mid)" using fin1 that(2) by (intro Max_ge) auto
    finally show ?thesis .
  qed
  moreover have "?mid (pjoin (pre @ [])) \<noteq> Some (RStr v)" for v
    using ok rebuilt_string [OF s1(3)] by (simp add: repairable_def)
  moreover note rebuilt_recorded [OF ok pre s1(3)]
  ultimately obtain s' where s': "repair_tree D rs (pjoin []) s1 = Some (Ok (), s')" "conn s1 s'"
    "swept ?F pre (pre @ []) ?mid (view (world s'))" "tidy (view (world s')) ?F (\<lambda>p. \<exists>z. ?mid (pjoin p) = Some (RZSet z)) (pre @ [])"
    "\<forall>x. zmem ?mid (pre @ []) = {x @ ''/''} \<longrightarrow> ?mid (pjoin (pre @ [] @ [x])) \<noteq> None \<longrightarrow> zmem (view (world s')) (pre @ []) = {x @ ''/''}"
    using repair_tree_sweep [where d = "[]" and base = ?mid and s = s1 and F = ?F and A = "\<lambda>p. \<exists>z. ?mid (pjoin p) = Some (RZSet z)"
        and n = "Max (length ` dom ?mid)", OF D pre cl] up1 by auto
  show thesis
  proof (rule that [of s' ?mid])
    show "Repair D rs '''' s = Some (Ok (), s')" using s1(1) s'(1) cp(2) by (simp add: Repair_parts prog_simps)
  qed (use s1 s' conn_trans in auto)
qed

end


subsection \<open>The index after a repair\<close>

text \<open>A directory with files is in order when the directories above it are.\<close>

lemma tidy_below:
  assumes F: "\<forall>p \<in> F. canon p" and "tidy db F A q"
  shows "canon d \<Longrightarrow> r \<noteq> [] \<Longrightarrow> q @ d @ r \<in> F \<Longrightarrow> tidy db F A (q @ d)"
proof (induction d arbitrary: r rule: rev_induct)
  case (snoc x d)
  have "tidy db F A (q @ d)" using snoc.IH [of "x # r"] snoc.prems by simp
  moreover have "x @ ''/'' \<in> children F (q @ d)" using snoc.prems by (auto simp: children_def)
  ultimately obtain y where y: "seg_ok y"
    "x @ ''/'' = y \<and> (q @ d) @ [y] \<in> F \<or> x @ ''/'' = y @ ''/'' \<and> A ((q @ d) @ [y]) \<and> tidy db F A ((q @ d) @ [y])"
    by (subst (asm) tidy_iff) blast
  then show ?case using seg_ok_no_slash [of y x] by auto
qed (use assms(2) in simp)

lemma exact_index:
  assumes T: "tidy db F A pre" and R: "recorded db F pre" and d: "canon d"
    and A: "\<And>d. canon d \<Longrightarrow> A (pre @ d) \<Longrightarrow> children F (pre @ d) \<noteq> {}"
    and Z: "\<And>z. db (pjoin (pre @ d)) = Some (RZSet z) \<Longrightarrow> children F (pre @ d) \<noteq> {}"
  shows "dir_at db (pre @ d) (children F (pre @ d))"
proof (cases "children F (pre @ d) = {}")
  case True
  with Z show ?thesis by (auto simp: dir_at_def)
next
  case False
  have F: "\<forall>p \<in> F. canon p" using R by (simp add: recorded_def)
  from False obtain r where "r \<noteq> []" "pre @ d @ r \<in> F" by (auto simp: children_empty_iff)
  from tidy_below [OF F T d this] have td: "tidy db F A (pre @ d)" .
  have "m \<in> children F (pre @ d)" if "m \<in> zmem db (pre @ d)" for m
  proof -
    from td that obtain x where x: "seg_ok x" "m = x \<and> (pre @ d) @ [x] \<in> F \<or> m = x @ ''/'' \<and> A ((pre @ d) @ [x])"
      by (subst (asm) tidy_iff) blast
    have "children F (pre @ d @ [x]) \<noteq> {}" if "A (pre @ d @ [x])" using A [of "d @ [x]"] that d x(1) by simp
    then show ?thesis using x by (auto simp: children_def children_empty_iff)
  qed
  then have eq: "zmem db (pre @ d) = children F (pre @ d)" using recordedD(2) [OF R d] by blast
  with False obtain z where "db (pjoin (pre @ d)) = Some (RZSet z)" by (auto dest!: zmem_zset)
  with eq recordedD(1) [OF R d] False show ?thesis by (auto simp: dir_at_def zmem_def zdist_def)
qed

text \<open>
  A keyspace that holds the values of \<open>m\<close>, with sets that may have lost members and may have
  members too many, as long as no set is without files. Outside the prefix only members for the
  files of \<open>m\<close> may be missing.
\<close>

definition damaged :: "'w deps \<Rightarrow> RedisStorage \<Rightarrow> string list \<Rightarrow> string list set \<Rightarrow> string list set
    \<Rightarrow> rdb \<Rightarrow> (string list \<rightharpoonup> bytes) \<Rightarrow> bool" where
  "damaged D rs pre X L db m \<longleftrightarrow> repairable D rs pre (dom m) db
     \<and> finite X \<and> X \<subseteq> {p \<in> paths_under (hd pre). length p \<ge> 2} \<and> (\<forall>p \<in> X. \<exists>v. db (pjoin p) = Some (RStr v))
     \<and> (\<forall>p \<in> paths_under (hd pre). \<forall>v. db (pjoin p) = Some (RStr v) \<longrightarrow> p \<in> files pre X m \<union> L)
     \<and> (\<forall>k v. m k = Some v \<longrightarrow> contents D rs pre db k = Some v)
     \<and> (\<forall>q \<in> paths_under (hd pre). \<forall>z. db (pjoin q) = Some (RZSet z) \<longrightarrow> children (files pre X m) q \<noteq> {})
     \<and> (\<forall>q \<in> paths_under (hd pre). \<not> prefix pre q \<longrightarrow>
          zdist db q \<and> zmem db q \<union> children ((@) pre ` dom m) q = children (files pre X m) q)"

lemma children_files: "\<forall>r. pre @ r \<notin> X \<Longrightarrow> children (files pre X m) (pre @ d) = children ((@) pre ` dom m) (pre @ d)"
  unfolding children_def files_def by (auto simp: image_iff)

lemma repaired_index:
  assumes ok: "damaged D rs pre X L base m" and pre: "prefixed rs pre" and X: "\<forall>r. pre @ r \<notin> X"
    and R: "rebuilt base ((@) pre ` dom m) mid" and S: "swept ((@) pre ` dom m) pre pre mid db"
    and T: "tidy db ((@) pre ` dom m) (\<lambda>p. \<exists>z. mid (pjoin p) = Some (RZSet z)) pre" and q: "q \<in> paths_under (hd pre)"
  shows "dir_at db q (children (files pre X m) q)"
proof -
  let ?F = "(@) pre ` dom m"
  have cp: "canon pre" "pre \<noteq> []" using pre by (simp_all add: prefixed_def)
  have rec: "recorded mid ?F pre" using rebuilt_recorded [where D = D, OF _ pre R] ok by (simp add: damaged_def)
  have sh: "shrunk mid db" "within pre mid db" "recorded db ?F pre" using S by (simp_all add: swept_def)
  have full: "children (files pre X m) p \<noteq> {}" if p: "p \<in> paths_under (hd pre)" "mid (pjoin p) = Some (RZSet z)" for p z
  proof -
    from R p(2) consider z where "base (pjoin p) = Some (RZSet z)" | p' r where "p' @ r \<in> ?F" "r \<noteq> []" "pjoin p = pjoin p'"
      unfolding rebuilt_def by blast
    then show ?thesis
    proof cases
      case 1
      then show ?thesis using ok p(1) unfolding damaged_def by blast
    next
      case (2 p' r)
      have "canon (p' @ r)" using rec 2(1) unfolding recorded_def by blast
      then have "p = p'" using 2(3) p(1) by (simp add: pjoin_eq_iff paths_under_def)
      with 2 have "p @ r \<in> files pre X m" "r \<noteq> []" by (auto simp: files_def)
      then show ?thesis by (auto simp: children_empty_iff)
    qed
  qed
  have under: "pre @ d \<in> paths_under (hd pre)" if "canon d" for d using cp that by (auto simp: paths_under_def)
  show ?thesis
  proof (cases "prefix pre q")
    case True
    then obtain d where d: "q = pre @ d" by (auto simp: prefix_def)
    have c: "canon d" using q d by (simp add: paths_under_def)
    have "dir_at db (pre @ d) (children ?F (pre @ d))"
      by (rule exact_index [OF T sh(3) c])
         (use full under c shrunk_zset [OF sh(1)] children_files [OF X, of m] in \<open>metis+\<close>)
    then show ?thesis using d children_files [OF X] by metis
  next
    case False
    have cq: "canon q" "q \<noteq> []" using q by (simp_all add: paths_under_def)
    have same: "db (pjoin q) = mid (pjoin q)" by (rule within_other [OF sh(2) cq(1) False])
    have "zdist base q" "zmem base q \<union> children ?F q = children (files pre X m) q"
      using ok q False unfolding damaged_def by blast+
    then have "zmem mid q = children (files pre X m) q" "zdist mid q" using R cq by (auto simp: rebuilt_def)
    then show ?thesis using full [OF q] same
      by (cases "mid (pjoin q)") (auto simp: dir_at_def zmem_def zdist_def split: rval.splits)
  qed
qed


context redis_scan
begin

lemma Repair_then_List:
  assumes D: "rapi D = R" and pre: "prefixed rs pre" and cl: "client rs = Some c" and up: "up (world s) c"
    and ok: "repairable D rs pre keys (view (world s))" and pat: "plain_pattern (pjoin pre)" and KS: "(\<lambda>k. pjoin (pre @ k)) ` keys \<subseteq> K"
  shows "\<exists>s' ks s''. Repair D rs '''' s = Some (Ok (), s') \<and> strings_same (view (world s)) (view (world s'))
    \<and> List_keys D rs (pjoin []) True s' = Some (Ok ks, s'') \<and> distinct ks \<and> set ks = pjoin ` keys"
proof -
  let ?F = "(@) pre ` keys"
  obtain s' mid where s': "Repair D rs '''' s = Some (Ok (), s')" "conn s s'" "rebuilt (view (world s)) ?F mid"
    "swept ?F pre pre mid (view (world s'))" "tidy (view (world s')) ?F (\<lambda>p. \<exists>z. mid (pjoin p) = Some (RZSet z)) pre"
    by (rule Repair_tidies [OF assms])
  have keys: "\<forall>k \<in> keys. canon k \<and> k \<noteq> []" using ok by (simp add: repairable_def)
  have F: "\<forall>p \<in> ?F. canon p" using s'(4) by (simp add: swept_def recorded_def)
  have "usable (sys D) rs s'" using cl up conn_up [OF s'(2)] by (simp add: usable_with_def)
  then obtain ps s'' where ps: "List_keys D rs (pjoin []) True s' = Some (Ok (map pjoin ps), s'')" "distinct ps"
    "set ps = {[] @ r | r. r \<noteq> [] \<and> pre @ r \<in> ?F}"
    using List_tidy [OF D pre F s'(5), of "[]" s' "up (world s')"] by auto
  have "set ps = keys" unfolding ps(3) using keys by auto
  moreover have "inj_on pjoin keys" using keys pjoin_inj by (auto intro: inj_onI)
  moreover have "strings_same (view (world s)) (view (world s'))"
    using s'(3,4) by (simp add: rebuilt_def swept_def shrunk_def strings_same_def)
  ultimately show ?thesis using s'(1) ps(1,2) by (auto simp: distinct_map)
qed

lemma Repair_restores:
  assumes D: "rapi D = R" and pre: "prefixed rs pre" and cl: "client rs = Some c" and up: "up (world s) c"
    and ok: "damaged D rs pre X L (view (world s)) m" and pat: "plain_pattern (pjoin pre)"
    and KS: "(\<lambda>k. pjoin (pre @ k)) ` dom m \<subseteq> K" and X: "\<forall>r. pre @ r \<notin> X"
  shows "\<exists>s'. Repair D rs '''' s = Some (Ok (), s') \<and> conn s s' \<and> db_rel D rs pre X L (view (world s')) m"
proof -
  let ?F = "(@) pre ` dom m" and ?base = "view (world s)"
  have rep: "repairable D rs pre (dom m) ?base" using ok by (simp add: damaged_def)
  obtain s' mid where s': "Repair D rs '''' s = Some (Ok (), s')" "conn s s'" "rebuilt ?base ?F mid"
    "swept ?F pre pre mid (view (world s'))" "tidy (view (world s')) ?F (\<lambda>p. \<exists>z. mid (pjoin p) = Some (RZSet z)) pre"
    by (rule Repair_tidies [OF D pre cl up rep pat KS])
  have str: "view (world s') k = Some (RStr v) \<longleftrightarrow> ?base k = Some (RStr v)" for k v
    using s'(3,4) by (simp add: rebuilt_def swept_def shrunk_def strings_same_def)
  have key: "canon k \<and> k \<noteq> [] \<and> (\<exists>v. ?base (pjoin (pre @ k)) = Some (RStr v))" if "k \<in> dom m" for k
    using repairable_key [OF rep that] by metis
  have F: "?F \<subseteq> {p \<in> paths_under (hd pre). length p \<ge> 2}"
    using key prefixed_path(2,3) [OF pre] by blast
  have "finite (files pre X m)" "files pre X m \<subseteq> {p \<in> paths_under (hd pre). length p \<ge> 2}"
    using F ok rep by (auto simp: files_def damaged_def repairable_def)
  then have "index_of (hd pre) (files pre X m) (view (world s'))"
    unfolding index_of_def using repaired_index [OF ok pre X s'(3-5)] by blast
  moreover have "\<exists>v. view (world s') (pjoin p) = Some (RStr v)" if "p \<in> files pre X m" for p
    using that key ok str by (auto simp: files_def damaged_def)
  moreover have "contents D rs pre (view (world s')) k = Some v" if "m k = Some v" for k v
  proof -
    have "view (world s') (pjoin (pre @ k)) = ?base (pjoin (pre @ k))" using key [of k] that str by fastforce
    then show ?thesis using ok that by (simp add: damaged_def contents_def)
  qed
  moreover have "m [] = None" using key [of "[]"] by (cases "m []") auto
  ultimately have "db_rel D rs pre X L (view (world s')) m"
    using ok str unfolding db_rel_def store_inv_def damaged_def by simp
  then show ?thesis using s'(1,2) by blast
qed

end


context redis_scan
begin

lemma Repair_empties:
  assumes D: "rapi D = R" and pre: "prefixed rs pre" and cl: "client rs = Some c" and up: "up (world s) c"
    and ok: "repairable D rs pre {} (view (world s))" and pat: "plain_pattern (pjoin pre)"
    and root: "zmem (view (world s)) pre = {x @ ''/''}" and sub: "zmem (view (world s)) (pre @ [x]) = {y}"
    and y: "seg_ok x" "seg_ok y" "view (world s) (pjoin (pre @ [x, y])) = None"
  shows "\<exists>s' t. Repair D rs '''' s = Some (Ok (), s') \<and> zmem (view (world s')) (pre @ [x]) = {}
    \<and> List_keys D rs '''' False s' = Some (Ok [x], t)"
proof -
  let ?base = "view (world s)"
  obtain s' mid where s': "Repair D rs '''' s = Some (Ok (), s')" "conn s s'" "rebuilt ?base ((@) pre ` {}) mid"
    "swept ((@) pre ` {}) pre pre mid (view (world s'))" "tidy (view (world s')) ((@) pre ` {}) (\<lambda>p. \<exists>z. mid (pjoin p) = Some (RZSet z)) pre"
    "\<forall>x. zmem mid pre = {x @ ''/''} \<longrightarrow> mid (pjoin (pre @ [x])) \<noteq> None \<longrightarrow> zmem (view (world s')) pre = {x @ ''/''}"
    by (rule Repair_tidies [OF D pre cl up ok pat, of thesis]) auto
  have cp: "canon pre" "pre \<noteq> []" using pre by (simp_all add: prefixed_def)
  have "zmem mid q = zmem ?base q" if "canon q" "q \<noteq> []" for q
    using s'(3) that by (simp add: rebuilt_def children_def)
  then have mid: "zmem mid pre = {x @ ''/''}" "zmem mid (pre @ [x]) = {y}" using cp y(1) root sub by simp_all
  then have "mid (pjoin (pre @ [x])) \<noteq> None" by (auto simp: zmem_def)
  then have keep: "zmem (view (world s')) pre = {x @ ''/''}" using s'(6) mid(1) by blast
  have one: "z = x" if "x @ ''/'' = z @ ''/''" for z using that by simp
  from s'(5) keep obtain z where "seg_ok z" "x @ ''/'' = z @ ''/''" "tidy (view (world s')) ((@) pre ` {}) (\<lambda>p. \<exists>z. mid (pjoin p) = Some (RZSet z)) (pre @ [z])"
    by (subst (asm) tidy_iff) auto
  with one have tx: "tidy (view (world s')) ((@) pre ` {}) (\<lambda>p. \<exists>z. mid (pjoin p) = Some (RZSet z)) (pre @ [x])" by metis
  have "zmem (view (world s')) (pre @ [x]) \<subseteq> {y}" using shrunk_zmem [of mid] s'(4) mid(2) by (auto simp: swept_def)
  moreover have "y \<notin> zmem (view (world s')) (pre @ [x])"
  proof
    assume "y \<in> zmem (view (world s')) (pre @ [x])"
    then obtain w where "seg_ok w" "y = w @ ''/''" using tx by (subst (asm) tidy_iff) auto
    then show False using seg_ok_no_slash [OF y(2)] by blast
  qed
  ultimately have none: "zmem (view (world s')) (pre @ [x]) = {}" by blast
  have use: "usable (sys D) rs s'" using cl up conn_up [OF s'(2)] by (simp add: usable_with_def)
  obtain z where z: "view (world s') (pjoin pre) = Some (RZSet z)" "members z = {x @ ''/''}"
    using keep by (auto simp: zmem_def split: option.splits rval.splits)
  have "zdist (view (world s')) pre" using s'(5) by (subst (asm) tidy_iff) blast
  then have names: "map fst z = [x @ ''/'']" using z by (intro singleton_list) (simp_all add: zdist_def)
  have pk: "prefixKey rs '''' = pjoin pre" using prefixKey_canon [of rs pre "[]"] pre by (simp add: prefixed_def)
  have nostr: "\<forall>v. view (world s') (pjoin pre) \<noteq> Some (RStr v)" using z by simp
  obtain t where "withReconnectOnClosed (sys D) rs (\<lambda>c. wrapP (errorf_v (''Unable to get range on sorted set '' @ CHR 0x27 # pjoin pre @ CHR 0x27 # '': ''))
      (call (api_ZRange R (pjoin pre)) c)) s' = Some (Ok (case view (world s') (pjoin pre) of Some (RZSet z) \<Rightarrow> map fst z | _ \<Rightarrow> []), t)"
    by (rule range_usable [OF D use nostr])
  then have "List_keys D rs '''' False s' = Some (Ok [x], t)"
    using D pk z(1) names join_child [of "[]" x] y(1) by (subst List_keys.simps) (simp add: prog_simps TrimSuffix_dir)
  with s'(1) none show ?thesis by blast
qed

end

subsection \<open>Properties\<close>

text \<open>
  C4. With a key prefix of at least one segment, \<open>Repair\<close> ends without an error on every keyspace
  whose index was damaged, whatever records are missing and however many stale ones there are, and changes no value; afterwards the recursive
  \<open>List\<close> returns exactly the keys whose values can be read, each once.
\<close>

theorem repair_then_list:
  assumes "redis_scan R view up closed reach K" and "rapi D = R" and "prefixed rs pre" and "client rs = Some c" and "up (world s) c"
    and "repairable D rs pre keys (view (world s))" and "plain_pattern (pjoin pre)" and "(\<lambda>k. pjoin (pre @ k)) ` keys \<subseteq> K"
  shows "\<exists>s' ks s''. Repair D rs '''' s = Some (Ok (), s') \<and> strings_same (view (world s)) (view (world s'))
    \<and> List_keys D rs (pjoin []) True s' = Some (Ok ks, s'') \<and> distinct ks \<and> set ks = pjoin ` keys"
  using redis_scan.Repair_then_List [OF assms] .

text \<open>
  When no set was left without files, \<open>Repair\<close> takes the damaged keyspace back to one that
  represents the stored map, so that everything shown of the storage operations holds again.
\<close>

theorem repair_restores_map:
  assumes "redis_scan R view up closed reach K" and "rapi D = R" and "prefixed rs pre" and "client rs = Some c" and "up (world s) c"
    and "damaged D rs pre X L (view (world s)) m" and "plain_pattern (pjoin pre)"
    and "(\<lambda>k. pjoin (pre @ k)) ` dom m \<subseteq> K" and "\<forall>r. pre @ r \<notin> X"
  shows "\<exists>s'. Repair D rs '''' s = Some (Ok (), s') \<and> conn_same up closed reach s s' \<and> db_rel D rs pre X L (view (world s')) m"
  using redis_scan.Repair_restores [OF assms] .

text \<open>A keyspace that has lost the record of its one value and has a record of a missing one.\<close>

definition ex_torn :: rdb where
  "ex_torn = [pjoin [''caddy''] \<mapsto> RZSet [(''c'', 0)], pjoin [''caddy'', ''b''] \<mapsto> RStr ''7,1,0,0,v'']"

lemma ex_torn_at:
  assumes "canon q"
  shows "ex_torn (pjoin q) = (if q = [''caddy'', ''b''] then Some (RStr ''7,1,0,0,v'')
    else if q = [''caddy''] then Some (RZSet [(''c'', 0)]) else None)"
proof -
  have c: "canon [''caddy'', ''b'']" "canon [''caddy'']" by (simp_all add: seg_ok_def)
  show ?thesis unfolding ex_torn_def
    by (simp only: fun_upd_apply pjoin_eq_iff [OF assms c(1)] pjoin_eq_iff [OF assms c(2)])
qed

lemma ex_torn_load:
  "loadResult (mem_deps True ks) key (Some (RStr ''7,1,0,0,v'')) = Ok \<lparr>Value = ''v'', Modified = 7, Size = 1, sd_Compression = 0, Encryption = 0\<rparr>"
  by code_simp


lemma ex_torn_zmem: "canon q \<Longrightarrow> zmem ex_torn q = (if q = [''caddy''] then {''c''} else {})" "canon q \<Longrightarrow> zdist ex_torn q"
  by (simp_all add: zmem_def zdist_def ex_torn_at)

lemma ex_torn_keys: "ex_torn ''caddy'' = Some (RZSet [(''c'', 0)])" "ex_torn ''caddy/b'' = Some (RStr ''7,1,0,0,v'')" "ex_torn ''caddy/c'' = None"
  by (simp_all add: ex_torn_def)

lemma ex_torn_child: "children {[''caddy'', ''b'']} [''caddy''] = {''b''}"
  by (auto simp: children_def Cons_eq_append_conv)

lemma ex_torn_string: "ex_torn key = Some (RStr v) \<longleftrightarrow> key = pjoin [''caddy'', ''b''] \<and> v = ''7,1,0,0,v''"
  by (auto simp: ex_torn_def)

lemma ex_torn_repairable: "repairable (mem_deps True ks) ex_rs [''caddy''] {[''b'']} ex_torn"
  unfolding repairable_def
proof (intro conjI ballI allI impI)
  show "finite (dom ex_torn)" by (simp add: ex_torn_def)
  show "ex_torn (pjoin [''caddy'']) \<noteq> Some (RStr v)" for v by (simp add: ex_torn_keys)
  fix k assume k: "k \<in> {[''b'']}"
  then show "canon k" "k \<noteq> []" by (simp_all add: seg_ok_def)
  show "no_file_above ex_torn ([''caddy''] @ k)"
    using k unfolding no_file_above_def by (auto simp: ex_torn_keys Cons_eq_append_conv)
  show "\<exists>sd. loadResult (mem_deps True ks) (pjoin k) (ex_torn (pjoin ([''caddy''] @ k))) = Ok sd"
    using k ex_torn_load by (simp add: ex_torn_keys)
next
  fix key v assume "ex_torn key = Some (RStr v)"
  then have "\<exists>k \<in> {[''b'']}. key = pjoin ([''caddy''] @ k)" by (simp add: ex_torn_string)
  then show "(\<exists>k \<in> {[''b'']}. key = pjoin ([''caddy''] @ k))
      \<or> (\<forall>sd. loadResult (mem_deps True ks) (trimKey ex_rs key) (ex_torn (prefixKey ex_rs (trimKey ex_rs key))) \<noteq> Ok sd)" ..
next
  fix d :: "string list" assume d: "canon d"
  then have q: "canon ([''caddy''] @ d)" by (simp add: seg_ok_def)
  then show "zdist ex_torn ([''caddy''] @ d)" by (rule ex_torn_zmem)
  fix m assume "m \<in> zmem ex_torn ([''caddy''] @ d)"
  then have "m = ''c''" "d = []" using ex_torn_zmem(1) [OF q] by (auto split: if_splits)
  then show "well_named ex_torn ((@) [''caddy''] ` {[''b'']}) ([''caddy''] @ d) m"
    unfolding well_named_def by (intro exI [of _ "''c''"]) (simp add: seg_ok_def ex_torn_keys)
qed simp

lemma ex_torn_damaged: "damaged (mem_deps True ks) ex_rs [''caddy''] {} {} ex_torn [[''b''] \<mapsto> ''v'']"
  unfolding damaged_def
proof (intro conjI ballI allI impI)
  show "repairable (mem_deps True ks) ex_rs [''caddy''] (dom [[''b''] \<mapsto> ''v'']) ex_torn" using ex_torn_repairable by simp
  have F: "files [''caddy''] {} [[''b''] \<mapsto> ''v''] = {[''caddy'', ''b'']}" by (simp add: files_def)
  fix p assume p: "p \<in> paths_under (hd [''caddy''])"
  then have c: "canon p" by (simp add: paths_under_def)
  show "p \<in> files [''caddy''] {} [[''b''] \<mapsto> ''v''] \<union> {}" if "ex_torn (pjoin p) = Some (RStr v)" for v
    using that by (simp add: ex_torn_at [OF c] F split: if_splits)
  show "children (files [''caddy''] {} [[''b''] \<mapsto> ''v'']) p \<noteq> {}" if "ex_torn (pjoin p) = Some (RZSet z)" for z
    using that ex_torn_child by (simp add: ex_torn_at [OF c] F split: if_splits)
  show "zdist ex_torn p" "zmem ex_torn p \<union> children ((@) [''caddy''] ` dom [[''b''] \<mapsto> ''v'']) p = children (files [''caddy''] {} [[''b''] \<mapsto> ''v'']) p"
    if "\<not> prefix [''caddy''] p" using that p by (auto simp: paths_under_def neq_Nil_conv)
next
  fix k v assume "[[''b''] \<mapsto> ''v''] k = Some v"
  then have "k = [''b'']" "v = ''v''" by (auto split: if_splits)
  then show "contents (mem_deps True ks) ex_rs [''caddy''] ex_torn k = Some v"
    using ex_torn_load [of ks "pjoin [''b'']"]
    by (simp add: contents_def ex_torn_keys loadedValue_def storageCompressionNone_def)
qed auto

lemma ex_client: "client ex_rs = Some 0" "mem_up (world (ex_proc COpen db)) 0" "mem_db (world (ex_proc cs db)) = db"
  by (simp_all add: ex_rs_def ex_proc_def mem_up_def mem_status_def)

lemma ex_pattern: "plain_pattern (pjoin [''caddy''])"
  by (simp add: plain_pattern_def)

theorem repair_then_list_witness:
  "\<exists>s' ks s''. Repair (mem_deps True [''caddy/b'']) ex_rs '''' (ex_proc COpen ex_torn) = Some (Ok (), s')
    \<and> strings_same ex_torn (mem_db (world s'))
    \<and> List_keys (mem_deps True [''caddy/b'']) ex_rs (pjoin []) True s' = Some (Ok ks, s'') \<and> distinct ks \<and> set ks = pjoin ` {[''b'']}"
  using repair_then_list [where s = "ex_proc COpen ex_torn" and keys = "{[''b'']}",
      OF mem_scan.redis_scan_axioms mem_deps_simps(1) ex_prefixed ex_client(1,2) _ ex_pattern, of True "[''caddy/b'']"]
    ex_torn_repairable by (simp add: ex_client)

theorem repair_restores_map_witness:
  "\<exists>s'. Repair (mem_deps True [''caddy/b'']) ex_rs '''' (ex_proc COpen ex_torn) = Some (Ok (), s')
    \<and> conn_same mem_up mem_closed mem_reachable (ex_proc COpen ex_torn) s'
    \<and> db_rel (mem_deps True [''caddy/b'']) ex_rs [''caddy''] {} {} (mem_db (world s')) [[''b''] \<mapsto> ''v'']"
  using repair_restores_map [where s = "ex_proc COpen ex_torn" and m = "[[''b''] \<mapsto> ''v'']" and X = "{}" and L = "{}",
      OF mem_scan.redis_scan_axioms mem_deps_simps(1) ex_prefixed ex_client(1,2) _ ex_pattern, of True "[''caddy/b'']"]
    ex_torn_damaged by (simp add: ex_client)


text \<open>
  C37. A \<open>Store\<close> that was interrupted between the records and the value leaves a directory whose only
  record is stale. \<open>Repair\<close> removes that record, but not the record of the directory it has thereby
  emptied: afterwards \<open>List\<close> finds no key, and still names the directory when it is not recursive.
\<close>

theorem repair_keeps_emptied_directory:
  assumes "redis_scan R view up closed reach K" and "rapi D = R" and "prefixed rs pre" and "client rs = Some c" and "up (world s) c"
    and "repairable D rs pre {} (view (world s))" and "plain_pattern (pjoin pre)"
    and "zmem (view (world s)) pre = {x @ ''/''}" and "zmem (view (world s)) (pre @ [x]) = {y}"
    and "seg_ok x" and "seg_ok y" and "view (world s) (pjoin (pre @ [x, y])) = None"
  shows "\<exists>s' t t'. Repair D rs '''' s = Some (Ok (), s') \<and> zmem (view (world s')) (pre @ [x]) = {}
    \<and> List_keys D rs '''' True s' = Some (Ok [], t) \<and> List_keys D rs '''' False s' = Some (Ok [x], t')"
  using redis_scan.Repair_empties [OF assms] redis_scan.Repair_then_List [OF assms(1-7)] by auto

definition ex_emptied :: rdb where
  "ex_emptied = [''caddy'' \<mapsto> RZSet [(''a/'', 0)], ''caddy/a'' \<mapsto> RZSet [(''x'', 0)]]"

lemma ex_emptied_at:
  assumes "canon q"
  shows "ex_emptied (pjoin q) = (if q = [''caddy'', ''a''] then Some (RZSet [(''x'', 0)])
    else if q = [''caddy''] then Some (RZSet [(''a/'', 0)]) else None)"
proof -
  have c: "canon [''caddy'', ''a'']" "canon [''caddy'']" by (simp_all add: seg_ok_def)
  have db: "ex_emptied = [pjoin [''caddy''] \<mapsto> RZSet [(''a/'', 0)], pjoin [''caddy'', ''a''] \<mapsto> RZSet [(''x'', 0)]]"
    by (simp add: ex_emptied_def)
  show ?thesis unfolding db by (simp only: fun_upd_apply pjoin_eq_iff [OF assms c(1)] pjoin_eq_iff [OF assms c(2)])
qed

lemma ex_emptied_zmem:
  "canon q \<Longrightarrow> zmem ex_emptied q = (if q = [''caddy'', ''a''] then {''x''} else if q = [''caddy''] then {''a/''} else {})"
  "canon q \<Longrightarrow> zdist ex_emptied q"
  by (simp_all add: zmem_def zdist_def ex_emptied_at)

lemma ex_emptied_repairable: "repairable (mem_deps True ks) ex_rs [''caddy''] {} ex_emptied"
  unfolding repairable_def
proof (intro conjI ballI allI impI)
  fix d m assume d: "canon d" and m: "m \<in> zmem ex_emptied ([''caddy''] @ d)"
  then have "canon ([''caddy''] @ d)" by (simp add: seg_ok_def)
  from ex_emptied_zmem(1) [OF this] m have "m = ''x'' \<and> d = [''a''] \<or> m = ''a'' @ ''/'' \<and> d = []" by (auto split: if_splits)
  moreover have "seg_ok ''a''" "seg_ok ''x''" by (simp_all add: seg_ok_def)
  ultimately show "well_named ex_emptied ((@) [''caddy''] ` {}) ([''caddy''] @ d) m"
    unfolding well_named_def by (auto simp: ex_emptied_def)
qed (auto simp: ex_emptied_def ex_emptied_zmem(2) [unfolded ex_emptied_def] seg_ok_def split: if_splits)

theorem repair_keeps_emptied_directory_witness:
  "\<exists>s' t t'. Repair (mem_deps True []) ex_rs '''' (ex_proc COpen ex_emptied) = Some (Ok (), s')
    \<and> zmem (mem_db (world s')) ([''caddy''] @ [''a'']) = {}
    \<and> List_keys (mem_deps True []) ex_rs '''' True s' = Some (Ok [], t) \<and> List_keys (mem_deps True []) ex_rs '''' False s' = Some (Ok [''a''], t')"
  by (rule repair_keeps_emptied_directory [where s = "ex_proc COpen ex_emptied" and y = "''x''",
        OF mem_scan.redis_scan_axioms mem_deps_simps(1) ex_prefixed ex_client(1,2) _ ex_pattern])
     (simp_all add: ex_client ex_emptied_repairable, simp_all add: seg_ok_def zmem_def ex_emptied_def)

end
