(* ===== verification/Repair_Command.thy ===== *)
theory Repair_Command
  imports Repairing
begin

section \<open>The repair command\<close>

text \<open>
  \<open>cmdRedisStorageRepair\<close> of \<open>caddyfile.go\<close>, the command \<open>caddy redis repair\<close>. Caddy itself is not
  part of the sources: loading the configuration, decoding its storage member, loading the module
  and ending the module's life with its context are arguments.
\<close>

datatype exit_code = ExitCodeSuccess | ExitCodeFailedStartup

record storageConfig =
  StorageRaw :: "bytes option"

text \<open>What Caddy loads for the storage member: this module, with its configuration, or another one.\<close>

datatype storage_module = RedisModule RedisStorage | OtherModule

record 'w command_env =
  LoadConfig :: "string \<Rightarrow> go_error + bytes"
  UnmarshalConfig :: "bytes \<Rightarrow> go_error + storageConfig"
  LoadModule :: "bytes \<Rightarrow> ('w proc, storage_module) prog"
  CancelContext :: "'w proc \<Rightarrow> 'w proc"

definition failed_startup :: "go_error \<Rightarrow> ('s, exit_code \<times> go_error option) prog" where
  "failed_startup err = ret (ExitCodeFailedStartup, Some err)"

text \<open>With the context in place: every way out cancels it.\<close>

definition repairModule :: "'w deps \<Rightarrow> 'w command_env \<Rightarrow> bytes \<Rightarrow> ('w proc, exit_code \<times> go_error option) prog" where
  "repairModule D E raw =
     finallyP (handleP (bindP (LoadModule E raw)
       (\<lambda>module. case module of
           OtherModule \<Rightarrow> throw (errors_New ''Loaded storage module does not support Redis'')
         | RedisModule rs \<Rightarrow> bindP (Repair D rs '''') (\<lambda>_. ret (ExitCodeSuccess, None)))) failed_startup) (CancelContext E)"

definition cmdRedisStorageRepair :: "'w deps \<Rightarrow> 'w command_env \<Rightarrow> string \<Rightarrow> ('w proc, exit_code \<times> go_error option) prog" where
  "cmdRedisStorageRepair D E configFile =
     (case LoadConfig E configFile of
        Inl err \<Rightarrow> failed_startup (errorf_v ''Unable to load config file: '' err)
      | Inr cfg \<Rightarrow> (case UnmarshalConfig E cfg of
          Inl err \<Rightarrow> failed_startup (errorf_v ''Unable to unmarshal configuration: '' err)
        | Inr storeCfg \<Rightarrow> (case StorageRaw storeCfg of
            None \<Rightarrow> failed_startup (errors_New ''Unable to unmarshal configuration: <nil>'')
          | Some raw \<Rightarrow> repairModule D E raw)))"

lemma repairModule_ok:
  assumes "LoadModule E raw s = Some (Ok (RedisModule rs), s1)" and "Repair D rs '''' s1 = Some (Ok (), s2)"
  shows "repairModule D E raw s = Some (Ok (ExitCodeSuccess, None), CancelContext E s2)"
  using assms by (simp add: repairModule_def prog_simps)

lemma repairModule_err:
  assumes "LoadModule E raw s = Some (Ok (RedisModule rs), s1)" and "Repair D rs '''' s1 = Some (Err e, s2)"
  shows "repairModule D E raw s = Some (Ok (ExitCodeFailedStartup, Some e), CancelContext E s2)"
  using assms by (simp add: repairModule_def failed_startup_def prog_simps)

text \<open>
  C8. The command on a damaged keyspace: when Caddy loads this module with an open client, it exits
  with success, and the keyspace represents the stored map again, so that everything shown of the
  storage operations holds for it.
\<close>

theorem repair_command_restores_map:
  assumes "LoadConfig E file = Inr cfg" and "UnmarshalConfig E cfg = Inr \<lparr>StorageRaw = Some raw\<rparr>"
    and "LoadModule E raw s = Some (Ok (RedisModule rs), s1)" and "\<And>t. view (world (CancelContext E t)) = view (world t)"
    and "redis_scan R view up closed reach K" and "rapi D = R" and "prefixed rs pre" and "client rs = Some c" and "up (world s1) c"
    and "damaged D rs pre X L (view (world s1)) m" and "plain_pattern (pjoin pre)"
    and "(\<lambda>k. pjoin (pre @ k)) ` dom m \<subseteq> K" and "\<forall>r. pre @ r \<notin> X"
  shows "\<exists>s'. cmdRedisStorageRepair D E file s = Some (Ok (ExitCodeSuccess, None), s') \<and> db_rel D rs pre X L (view (world s')) m"
proof -
  from redis_scan.Repair_restores [OF assms(5-13)] obtain s2 where s2:
    "Repair D rs '''' s1 = Some (Ok (), s2)" "db_rel D rs pre X L (view (world s2)) m" by blast
  have "cmdRedisStorageRepair D E file s = Some (Ok (ExitCodeSuccess, None), CancelContext E s2)"
    using assms(1,2) repairModule_ok [OF assms(3) s2(1)] by (simp add: cmdRedisStorageRepair_def)
  with s2(2) assms(4) show ?thesis by auto
qed

definition ex_command :: "mem command_env" where
  "ex_command = \<lparr>LoadConfig = (\<lambda>_. Inr ''cfg''), UnmarshalConfig = (\<lambda>_. Inr \<lparr>StorageRaw = Some ''raw''\<rparr>),
     LoadModule = (\<lambda>_. ret (RedisModule ex_rs)), CancelContext = (\<lambda>s. s\<lparr>world := mem_close 0 (world s)\<rparr>)\<rparr>"

theorem repair_command_restores_map_witness:
  "\<exists>s'. cmdRedisStorageRepair (mem_deps True [''caddy/b'']) ex_command ''Caddyfile'' (ex_proc COpen ex_torn) = Some (Ok (ExitCodeSuccess, None), s')
    \<and> db_rel (mem_deps True [''caddy/b'']) ex_rs [''caddy''] {} {} (mem_db (world s')) [[''b''] \<mapsto> ''v'']"
proof (rule repair_command_restores_map [where raw = "''raw''" and cfg = "''cfg''" and X = "{}"])
  show "redis_scan (mem_api True [''caddy/b'']) mem_db mem_up mem_closed mem_reachable (set [''caddy/b''])"
    by (rule mem_scan.redis_scan_axioms)
  show "damaged (mem_deps True [''caddy/b'']) ex_rs [''caddy''] {} {} (mem_db (world (ex_proc COpen ex_torn))) [[''b''] \<mapsto> ''v'']"
    using ex_torn_damaged by (simp add: ex_client)
  show "(\<lambda>k. pjoin ([''caddy''] @ k)) ` dom [[''b''] \<mapsto> ''v''] \<subseteq> set [''caddy/b'']" by simp
qed (rule ex_client ex_pattern ex_prefixed | simp add: ex_command_def mem_close_def)+

end
