(* ===== verification/Lock.thy ===== *)
theory Lock
  imports Reconnect Dir_Index
begin

section \<open>Distributed locks\<close>

text \<open>
  \<open>storage.go\<close>: \<open>Lock\<close>, \<open>tryObtainLock\<close>, the goroutine that refreshes a held lock, and
  \<open>Unlock\<close>. The redislock package is outside the sources: the record \<open>lock_api\<close> has its three
  operations, the locale \<open>lock_service\<close> what its documentation promises about them. The map of
  held locks and the refresh goroutines are part of the state.
\<close>

subsection \<open>Definitions\<close>

definition lockTTL :: duration where "lockTTL = 5 * second"
definition lockPollInterval :: duration where "lockPollInterval = 1 * second"
definition lockRefreshInterval :: duration where "lockRefreshInterval = 3 * second"

text \<open>\<open>redislock.ErrNotObtained\<close> and \<open>redislock.ErrLockNotHeld\<close>.\<close>

definition errNotObtained :: go_error where
  "errNotObtained = \<lparr>err_msg = ''redislock: not obtained'', err_chain = [ErrNotObtained]\<rparr>"

definition errLockNotHeld :: go_error where
  "errLockNotHeld = \<lparr>err_msg = ''redislock: lock not held'', err_chain = [ErrLockNotHeld]\<rparr>"

record 'w lock_api =
  lk_Obtain :: "string \<Rightarrow> duration \<Rightarrow> nat \<Rightarrow> 'w \<Rightarrow> (go_error + nat) \<times> 'w"
  lk_Refresh :: "duration \<Rightarrow> nat \<Rightarrow> 'w \<Rightarrow> (go_error + unit) \<times> 'w"
  lk_Release :: "nat \<Rightarrow> 'w \<Rightarrow> (go_error + unit) \<times> 'w"

text \<open>A lock held through this instance: the redislock handle, the context to cancel, the one-shot client.\<close>

record heldLock =
  hl_lock :: nat
  hl_cancel :: nat
  freshClient :: "nat option"

text \<open>
  A refresh goroutine is known by its context; it runs until it sees the cancellation or an error
  that ends it.
\<close>

record refresher =
  rf_lock :: nat
  rf_cancelled :: bool
  rf_running :: bool

record 'w lstate =
  base :: "'w proc"
  held :: "string \<rightharpoonup> heldLock"
  refreshers :: "refresher list"

definition onBase :: "('w proc, 'a) prog \<Rightarrow> ('w lstate, 'a) prog" where
  "onBase m = (\<lambda>s. case m (base s) of None \<Rightarrow> None | Some (r, b) \<Rightarrow> Some (r, s\<lparr>base := b\<rparr>))"

definition tryObtainLock ::
    "'w sysenv \<Rightarrow> 'w lock_api \<Rightarrow> RedisStorage \<Rightarrow> string \<Rightarrow> ('w proc, nat \<times> nat option) prog" where
  "tryObtainLock E K rs key =
     handleP (bindP (call (lk_Obtain K key lockTTL) (locker rs)) (\<lambda>lock. ret (lock, None)))
       (\<lambda>err. if \<not> isClientClosedErr err then throw err
         else bindP (wrapP (\<lambda>ferr. errorf_w (''redis storage: lock reconnect failed: '' @ err_msg ferr
                        @ '' (original op error: '') err '')'') (buildClient E rs))
                (\<lambda>fresh. bindP (updateP bumpReconnect)
                   (\<lambda>_. handleP (bindP (call (lk_Obtain K key lockTTL) (Some fresh)) (\<lambda>lock. ret (lock, Some fresh)))
                          (\<lambda>err. bindP (closeClient E fresh) (\<lambda>_. throw err)))))"

text \<open>The successful branch of \<open>Lock\<close>: remember the lock, start its refresh goroutine.\<close>

definition keepLock :: "RedisStorage \<Rightarrow> string \<Rightarrow> nat \<Rightarrow> nat option \<Rightarrow> ('w lstate, unit) prog" where
  "keepLock rs key lock fresh = (\<lambda>s.
     if \<not> locks rs then Some (Panic, s)
     else Some (Ok (), s\<lparr>held := (held s)(key \<mapsto> \<lparr>hl_lock = lock, hl_cancel = length (refreshers s), freshClient = fresh\<rparr>),
            refreshers := refreshers s @ [\<lparr>rf_lock = lock, rf_cancelled = False, rf_running = True\<rparr>]\<rparr>))"

text \<open>
  The loop of \<open>Lock\<close>. \<open>wait\<close> is what the world does while the caller sleeps between two attempts
  and tells whether the context ended meanwhile (with its error) or the poll interval passed.
\<close>

partial_function (option) Lock_loop ::
    "'w sysenv \<Rightarrow> 'w lock_api \<Rightarrow> RedisStorage \<Rightarrow> ('w lstate \<Rightarrow> go_error option \<times> 'w lstate) \<Rightarrow> string \<Rightarrow> ('w lstate, unit) prog" where
  "Lock_loop E K rs wait key s =
     (case onBase (tryObtainLock E K rs key) s of
        None \<Rightarrow> None
      | Some (Panic, s) \<Rightarrow> Some (Panic, s)
      | Some (Ok (lock, fresh), s) \<Rightarrow> keepLock rs key lock fresh s
      | Some (Err err, s) \<Rightarrow>
          if err \<noteq> errNotObtained then throw (errorf_v (''Unable to obtain lock for '' @ key @ '': '') err) s
          else (case wait s of
                  (None, s) \<Rightarrow> Lock_loop E K rs wait key s
                | (Some ctxErr, s) \<Rightarrow> throw ctxErr s))"

definition Lock ::
    "'w sysenv \<Rightarrow> 'w lock_api \<Rightarrow> RedisStorage \<Rightarrow> ('w lstate \<Rightarrow> go_error option \<times> 'w lstate) \<Rightarrow> string \<Rightarrow> ('w lstate, unit) prog" where
  "Lock E K rs wait name = Lock_loop E K rs wait (prefixLock rs name)"

text \<open>One round of a refresh goroutine: what woke the \<open>select\<close>, and what the round does.\<close>

datatype wake = TickerFired | ContextDone

definition refreshRound :: "'w lock_api \<Rightarrow> nat \<Rightarrow> wake \<Rightarrow> 'w lstate \<Rightarrow> 'w lstate" where
  "refreshRound K i w s =
     (if i < length (refreshers s) \<and> rf_running (refreshers s ! i)
      then (case w of
          ContextDone \<Rightarrow> s\<lparr>refreshers := (refreshers s)[i := (refreshers s ! i)\<lparr>rf_running := False\<rparr>]\<rparr>
        | TickerFired \<Rightarrow> (case lk_Refresh K lockTTL (rf_lock (refreshers s ! i)) (world (base s)) of
              (r, w) \<Rightarrow> (let s = s\<lparr>base := (base s)\<lparr>world := w\<rparr>\<rparr>;
                            stop = (case r of Inl err \<Rightarrow> err = errNotObtained \<or> isClientClosedErr err | Inr _ \<Rightarrow> False)
                        in if stop
                           then s\<lparr>refreshers := (refreshers s)[i := (refreshers s ! i)\<lparr>rf_running := False\<rparr>]\<rparr>
                           else s)))
      else s)"

text \<open>The context of a goroutine can end only after its cancel function was called.\<close>

definition wakes :: "'w lstate \<Rightarrow> nat \<Rightarrow> wake \<Rightarrow> bool" where
  "wakes s i w = (case w of TickerFired \<Rightarrow> True
     | ContextDone \<Rightarrow> i < length (refreshers s) \<and> rf_cancelled (refreshers s ! i))"

definition cancelRefresher :: "nat \<Rightarrow> 'w lstate \<Rightarrow> 'w lstate" where
  "cancelRefresher i s = s\<lparr>refreshers := (refreshers s)[i := (refreshers s ! i)\<lparr>rf_cancelled := True\<rparr>]\<rparr>"

definition Unlock :: "'w sysenv \<Rightarrow> 'w lock_api \<Rightarrow> RedisStorage \<Rightarrow> string \<Rightarrow> ('w lstate, unit) prog" where
  "Unlock E K rs name =
     (let key = prefixLock rs name
      in (\<lambda>s. if \<not> locks rs then Some (Panic, s)
         else case held s key of
           None \<Rightarrow> Some (Ok (), s)
         | Some h \<Rightarrow>
             (let s = cancelRefresher (hl_cancel h) (s\<lparr>held := (held s)(key := None)\<rparr>)
              in case lk_Release K (hl_lock h) (world (base s)) of (releaseErr, w) \<Rightarrow>
                 (let w = (case freshClient h of None \<Rightarrow> w | Some c \<Rightarrow> api_Close (redis E) c w);
                      s = s\<lparr>base := (base s)\<lparr>world := w\<rparr>\<rparr>
                  in case releaseErr of
                       Inr _ \<Rightarrow> Some (Ok (), s)
                     | Inl err \<Rightarrow> if isClientClosedErr err then Some (Ok (), s)
                         else Some (Err (errorf_v (''Unable to release lock for '' @ key @ '': '') err), s)))))"

lemma onBase_simps [prog_simps]:
  "m (base s) = Some (r, b) \<Longrightarrow> onBase m s = Some (r, s\<lparr>base := b\<rparr>)"
  "m (base s) = None \<Longrightarrow> onBase m s = None"
  by (simp_all add: onBase_def)

subsection \<open>The lock service\<close>

text \<open>
  The locks a server keeps: the handle that owns a key, for keys whose lock has not expired, for
  every handle ever issued its key and the client it was obtained through, when the time to live
  of a key ends, and the time (in nanoseconds).
\<close>

record locktab =
  lt_owner :: "string \<rightharpoonup> nat"
  lt_issued :: "nat \<rightharpoonup> string \<times> nat"
  lt_expires :: "string \<rightharpoonup> int"
  lt_now :: int

text \<open>
  The changes of the table: a free key is granted, the time to live of a key starts again, a key
  is given up, and time passes, which removes the keys that reach the end of their time to live.
\<close>

definition grant :: "string \<Rightarrow> nat \<Rightarrow> nat \<Rightarrow> duration \<Rightarrow> locktab \<Rightarrow> locktab" where
  "grant key h c ttl t = t\<lparr>lt_owner := (lt_owner t)(key \<mapsto> h), lt_issued := (lt_issued t)(h \<mapsto> (key, c)),
     lt_expires := (lt_expires t)(key \<mapsto> lt_now t + sint ttl)\<rparr>"

definition prolong :: "string \<Rightarrow> duration \<Rightarrow> locktab \<Rightarrow> locktab" where
  "prolong key ttl t = t\<lparr>lt_expires := (lt_expires t)(key \<mapsto> lt_now t + sint ttl)\<rparr>"

definition vacate :: "string \<Rightarrow> locktab \<Rightarrow> locktab" where
  "vacate key t = t\<lparr>lt_owner := (lt_owner t)(key := None), lt_expires := (lt_expires t)(key := None)\<rparr>"

definition expired :: "locktab \<Rightarrow> int \<Rightarrow> string \<Rightarrow> bool" where
  "expired t now key = (case lt_expires t key of None \<Rightarrow> False | Some e \<Rightarrow> e \<le> now)"

definition pass :: "int \<Rightarrow> locktab \<Rightarrow> locktab" where
  "pass d t = t\<lparr>lt_now := lt_now t + d,
     lt_owner := (\<lambda>key. if expired t (lt_now t + d) key then None else lt_owner t key)\<rparr>"

lemma table_simps [simp]:
  "lt_owner (grant key h c ttl t) = (lt_owner t)(key \<mapsto> h)"
  "lt_issued (grant key h c ttl t) = (lt_issued t)(h \<mapsto> (key, c))"
  "lt_expires (grant key h c ttl t) = (lt_expires t)(key \<mapsto> lt_now t + sint ttl)"
  "lt_owner (prolong key ttl t) = lt_owner t" "lt_issued (prolong key ttl t) = lt_issued t"
  "lt_expires (prolong key ttl t) = (lt_expires t)(key \<mapsto> lt_now t + sint ttl)"
  "lt_owner (vacate key t) = (lt_owner t)(key := None)" "lt_issued (vacate key t) = lt_issued t"
  "lt_expires (vacate key t) = (lt_expires t)(key := None)"
  "lt_issued (pass d t) = lt_issued t" "lt_expires (pass d t) = lt_expires t"
  "lt_owner (pass d t) = (\<lambda>key. if expired t (lt_now t + d) key then None else lt_owner t key)"
  "lt_now (grant key h c ttl t) = lt_now t" "lt_now (prolong key ttl t) = lt_now t" "lt_now (vacate key t) = lt_now t"
  "lt_now (pass d t) = lt_now t + d"
  by (simp_all add: grant_def prolong_def vacate_def pass_def)

text \<open>
  \<open>freed_after n\<close>: the key is taken for \<open>n\<close> rounds in which the context does not end, then free;
  all the while the storage can reach the server. A round may add clients but not change the locks.
\<close>

primrec freed_after :: "('w \<Rightarrow> locktab) \<Rightarrow> ('w proc \<Rightarrow> bool) \<Rightarrow> ('w lstate \<Rightarrow> go_error option \<times> 'w lstate)
    \<Rightarrow> string \<Rightarrow> nat \<Rightarrow> 'w lstate \<Rightarrow> bool" where
  "freed_after tab ok wait key 0 s = (ok (base s) \<and> lt_owner (tab (world (base s))) key = None)"
| "freed_after tab ok wait key (Suc n) s = (ok (base s) \<and> lt_owner (tab (world (base s))) key \<noteq> None
     \<and> (\<forall>b. tab (world b) = tab (world (base s)) \<and> ok b \<longrightarrow> fst (wait (s\<lparr>base := b\<rparr>)) = None
          \<and> freed_after tab ok wait key n (snd (wait (s\<lparr>base := b\<rparr>)))))"

definition owns :: "locktab \<Rightarrow> nat \<Rightarrow> bool" where
  "owns t h = (case lt_issued t h of None \<Rightarrow> False | Some (key, c) \<Rightarrow> lt_owner t key = Some h)"

text \<open>What an attempt to lock \<open>key\<close> does: success takes a free key with a new handle, failure does nothing.\<close>

definition attempt_effect :: "string \<Rightarrow> locktab \<Rightarrow> locktab \<Rightarrow> nat outcome \<Rightarrow> bool" where
  "attempt_effect key t t' r = (case r of
      Ok h \<Rightarrow> lt_owner t key = None \<and> lt_issued t h = None
        \<and> (\<exists>c. t' = grant key h c lockTTL t)
    | _ \<Rightarrow> t' = t)"

definition same_clients :: "('w \<Rightarrow> nat \<Rightarrow> bool) \<Rightarrow> ('w \<Rightarrow> nat \<Rightarrow> bool) \<Rightarrow> ('w \<Rightarrow> universal_options \<Rightarrow> bool) \<Rightarrow> 'w \<Rightarrow> 'w \<Rightarrow> bool" where
  "same_clients up closed reach w w' \<longleftrightarrow> up w' = up w \<and> closed w' = closed w \<and> reach w' = reach w"

locale lock_service = redis_server R view up closed reach
  for R :: "'w redis_api" and view up closed reach +
  fixes K :: "'w lock_api" and tab :: "'w \<Rightarrow> locktab"
  assumes Obtain_free: "up w c \<Longrightarrow> lt_owner (tab w) key = None \<Longrightarrow>
      \<exists>h w'. lk_Obtain K key ttl c w = (Inr h, w') \<and> lt_issued (tab w) h = None
        \<and> tab w' = grant key h c ttl (tab w)
        \<and> same_clients up closed reach w w'"
    and Obtain_taken: "up w c \<Longrightarrow> lt_owner (tab w) key \<noteq> None \<Longrightarrow>
      \<exists>w'. lk_Obtain K key ttl c w = (Inl errNotObtained, w') \<and> tab w' = tab w \<and> same_clients up closed reach w w'"
    and Obtain_closed: "closed w c \<Longrightarrow>
      \<exists>w'. lk_Obtain K key ttl c w = (Inl closedErr, w') \<and> tab w' = tab w \<and> same_clients up closed reach w w'"
    and Obtain_down: "\<not> up w c \<Longrightarrow> \<not> closed w c \<Longrightarrow>
      \<exists>e w'. lk_Obtain K key ttl c w = (Inl e, w') \<and> tab w' = tab w \<and> same_clients up closed reach w w'"
    and Refresh: "lt_issued (tab w) h = Some (key, c) \<Longrightarrow> \<exists>r w'. lk_Refresh K ttl h w = (r, w')
        \<and> same_clients up closed reach w w' \<and> (tab w' = tab w \<or> owns (tab w) h \<and> tab w' = prolong key ttl (tab w))
        \<and> (r = Inr () \<longrightarrow> owns (tab w) h \<and> tab w' = prolong key ttl (tab w))
        \<and> (up w c \<longrightarrow> r = (if owns (tab w) h then Inr () else Inl errNotObtained)) \<and> (closed w c \<longrightarrow> r = Inl closedErr)"
    and Release: "lt_issued (tab w) h = Some (key, c) \<Longrightarrow> up w c \<Longrightarrow> owns (tab w) h \<Longrightarrow>
      \<exists>w'. lk_Release K h w = (Inr (), w') \<and> tab w' = vacate key (tab w)
        \<and> same_clients up closed reach w w'"
    and Release_lost: "lt_issued (tab w) h = Some (key, c) \<Longrightarrow> up w c \<Longrightarrow> \<not> owns (tab w) h \<Longrightarrow>
      \<exists>w'. lk_Release K h w = (Inl errLockNotHeld, w') \<and> tab w' = tab w \<and> same_clients up closed reach w w'"
    and Release_closed: "lt_issued (tab w) h = Some (key, c) \<Longrightarrow> closed w c \<Longrightarrow>
      \<exists>w'. lk_Release K h w = (Inl closedErr, w') \<and> tab w' = tab w \<and> same_clients up closed reach w w'"
    and Release_down: "lt_issued (tab w) h = Some (key, c) \<Longrightarrow> \<not> up w c \<Longrightarrow> \<not> closed w c \<Longrightarrow>
      \<exists>e w'. lk_Release K h w = (Inl e, w') \<and> tab w' = tab w \<and> same_clients up closed reach w w'"
    and New_tab: "api_New R kd opts w = (c, w') \<Longrightarrow> tab w' = tab w"
    and Close_tab: "tab (api_Close R c w) = tab w"
    and Ping_tab: "api_Ping R c w = (r, w') \<Longrightarrow> tab w' = tab w"
begin

abbreviation clients :: "'w \<Rightarrow> 'w \<Rightarrow> bool" where
  "clients \<equiv> same_clients up closed reach"

text \<open>Building a client leaves the locks alone.\<close>

lemma connect_tab:
  assumes "redis E = R" and "connect E kd opts s = Some (r, s')"
  shows "tab (world s') = tab (world s)"
proof -
  obtain c w where new: "api_New R kd opts (world s) = (c, w)" by fastforce
  obtain p w2 where ping: "api_Ping R c w = (p, w2)" by fastforce
  note tabs = New_tab [OF new] Ping_tab [OF ping]
  show ?thesis
  proof (cases p)
    case (Inl e)
    then have "call (api_Ping R) (Some c) (s\<lparr>world := w\<rparr>) = Some (Err e, s\<lparr>world := w2\<rparr>)"
      using ping by (simp add: call_def)
    then show ?thesis using assms(2) new tabs by (auto simp: assms(1) connect_def closeClient_def prog_simps Close_tab)
  next
    case (Inr x)
    then have "call (api_Ping R) (Some c) (s\<lparr>world := w\<rparr>) = Some (Ok x, s\<lparr>world := w2\<rparr>)"
      using ping by (simp add: call_def)
    then show ?thesis using assms(2) new tabs by (auto simp: assms(1) connect_def prog_simps)
  qed
qed

lemma buildClient_tab:
  "redis E = R \<Longrightarrow> buildClient E rs s = Some (r, s') \<Longrightarrow> tab (world s') = tab (world s)"
  by (auto simp: buildClient_plan connect_tab split: sum.splits prod.splits)

text \<open>What any attempt does to the locks, whatever state the clients are in.\<close>

lemma Obtain_any:
  assumes "lk_Obtain K key ttl c w = (r, w')"
  shows "case r of Inl e \<Rightarrow> tab w' = tab w
    | Inr h \<Rightarrow> lt_owner (tab w) key = None \<and> lt_issued (tab w) h = None
        \<and> tab w' = grant key h c ttl (tab w)"
proof -
  consider "up w c" "lt_owner (tab w) key = None" | "up w c" "lt_owner (tab w) key \<noteq> None" | "closed w c"
    | "\<not> up w c" "\<not> closed w c" by blast
  then show ?thesis
  proof cases
    case 1 then show ?thesis using Obtain_free [OF 1, of ttl] assms by auto
  next
    case 2 then show ?thesis using Obtain_taken [OF 2, of ttl] assms by auto
  next
    case 3 then show ?thesis using Obtain_closed [OF 3, of key ttl] assms by auto
  next
    case 4 then show ?thesis using Obtain_down [OF 4, of key ttl] assms by auto
  qed
qed

lemma call_Obtain_effect:
  assumes "call (lk_Obtain K key lockTTL) c s = Some (r, s')"
  shows "attempt_effect key (tab (world s)) (tab (world s')) r"
proof (cases c)
  case None
  with assms show ?thesis by (simp add: call_def attempt_effect_def)
next
  case (Some c')
  obtain x w' where x: "lk_Obtain K key lockTTL c' (world s) = (x, w')" by fastforce
  with Some assms Obtain_any [OF x] show ?thesis
    by (cases x) (auto simp: call_def attempt_effect_def)
qed

lemma tryObtain_effect:
  assumes E: "redis E = R" and run: "tryObtainLock E K rs key s = Some (r, s')"
  shows "attempt_effect key (tab (world s)) (tab (world s')) (map_outcome fst r)"
proof -
  have "\<exists>r1 s1. call (lk_Obtain K key lockTTL) (locker rs) s = Some (r1, s1)"
    by (auto simp: call_def split: option.split prod.split sum.split)
  then obtain r1 s1 where c1: "call (lk_Obtain K key lockTTL) (locker rs) s = Some (r1, s1)" by blast
  note e1 = call_Obtain_effect [OF c1]
  show ?thesis
  proof (cases r1)
    case (Err e)
    then have t1: "tab (world s1) = tab (world s)" using e1 by (simp add: attempt_effect_def)
    show ?thesis
    proof (cases "isClientClosedErr e")
      case False
      with run c1 Err t1 show ?thesis by (auto simp: tryObtainLock_def prog_simps attempt_effect_def)
    next
      case True
      with run c1 Err obtain r2 s2 where c2: "buildClient E rs s1 = Some (r2, s2)"
        by (cases "buildClient E rs s1") (auto simp: tryObtainLock_def prog_simps)
      have t2: "tab (world s2) = tab (world s)" using buildClient_tab [OF E c2] t1 by simp
      show ?thesis
      proof (cases r2)
        case (Ok f)
        let ?b = "bumpReconnect s2"
        have "\<exists>r3 s3. call (lk_Obtain K key lockTTL) (Some f) ?b = Some (r3, s3)"
          by (auto simp: call_def split: prod.split sum.split)
        then obtain r3 s3 where c3: "call (lk_Obtain K key lockTTL) (Some f) ?b = Some (r3, s3)" by blast
        have "attempt_effect key (tab (world s)) (tab (world s3)) r3"
          using call_Obtain_effect [OF c3] t2 by (simp add: bumpReconnect_def)
        with run c1 Err True c2 Ok c3 show ?thesis
          by (cases r3) (auto simp: tryObtainLock_def prog_simps attempt_effect_def closeClient_def E Close_tab)
      qed (use run c1 Err True c2 t2 in \<open>auto simp: tryObtainLock_def prog_simps attempt_effect_def\<close>)
    qed
  qed (use run c1 e1 in \<open>auto simp: tryObtainLock_def prog_simps attempt_effect_def\<close>)
qed

text \<open>
  An attempt on a usable storage, on the cached client or on a one-shot: a free key is obtained
  with a new handle, a taken one is not, and then every client is as before.
\<close>

lemma one_shot:
  assumes E: "redis E = R" and use: "usable E rs s" and lk: "locker rs = client rs"
    and cl: "client rs = Some c" "\<not> up (world s) c"
  obtains f s2 where "tryObtainLock E K rs key s =
      handleP (bindP (call (lk_Obtain K key lockTTL) (Some f)) (\<lambda>lock. ret (lock, Some f)))
        (\<lambda>err. bindP (closeClient E f) (\<lambda>_. throw err)) s2"
    and "tab (world s2) = tab (world s)" and "\<not> up (world s) f" and "\<not> closed (world s) f"
    and "up (world s2) = (up (world s))(f := True)" and "closed (world s2) = closed (world s)"
    and "reach (world s2) = reach (world s)" and "reconnectCount s2 = reconnectCount s + 1"
proof -
  from use cl obtain kd opts where p: "closed (world s) c" "client_plan E rs = Inr (kd, opts)" "reach (world s) opts"
    by (auto simp: usable_def)
  from Obtain_closed [OF p(1), of key lockTTL] obtain w1 where w1:
    "lk_Obtain K key lockTTL c (world s) = (Inl closedErr, w1)" "tab w1 = tab (world s)" "clients (world s) w1" by blast
  let ?s1 = "s\<lparr>world := w1\<rparr>"
  have "reach (world ?s1) opts" using p(3) w1(3) by (simp add: same_clients_def)
  from buildClient_reach [OF E p(2) this] obtain f s' where s':
    "buildClient E rs ?s1 = Some (Ok f, s')"
    "\<not> up (world ?s1) f" "\<not> closed (world ?s1) f" "up (world s') = (up (world ?s1))(f := True)"
    "closed (world s') = closed (world ?s1)" "reach (world s') = reach (world ?s1)"
    "reconnectCount s' = reconnectCount ?s1" by metis
  show thesis
  proof (rule that [of f "bumpReconnect s'"])
    show "tryObtainLock E K rs key s =
        handleP (bindP (call (lk_Obtain K key lockTTL) (Some f)) (\<lambda>lock. ret (lock, Some f)))
          (\<lambda>err. bindP (closeClient E f) (\<lambda>_. throw err)) (bumpReconnect s')"
      using w1(1) s'(1) lk cl(1) by (simp add: tryObtainLock_def prog_simps)
    show "tab (world (bumpReconnect s')) = tab (world s)"
      using buildClient_tab [OF E s'(1)] w1(2) by (simp add: bumpReconnect_def)
  qed (use s' w1(3) in \<open>simp_all add: bumpReconnect_def same_clients_def\<close>)
qed

lemma tryObtain_free:
  assumes E: "redis E = R" and use: "usable E rs s" and lk: "locker rs = client rs"
    and free: "lt_owner (tab (world s)) key = None"
  obtains h fc c s' where "tryObtainLock E K rs key s = Some (Ok (h, fc), s')"
    and "lt_issued (tab (world s)) h = None"
    and "tab (world s') = grant key h c lockTTL (tab (world s))"
    and "up (world s') c" and "closed (world s') = closed (world s)" and "reach (world s') = reach (world s)"
    and "case fc of None \<Rightarrow> client rs = Some c \<and> up (world s') = up (world s)
       | Some f \<Rightarrow> c = f \<and> \<not> up (world s) f \<and> \<not> closed (world s) f \<and> up (world s') = (up (world s))(f := True)"
proof -
  from use obtain c where c: "client rs = Some c" by (auto simp: usable_def)
  show thesis
  proof (cases "up (world s) c")
    case True
    from Obtain_free [OF True free, of lockTTL] obtain h w' where w':
      "lk_Obtain K key lockTTL c (world s) = (Inr h, w')" "lt_issued (tab (world s)) h = None"
      "tab w' = grant key h c lockTTL (tab (world s))"
      "clients (world s) w'" by blast
    show thesis
    proof (rule that [of h None "s\<lparr>world := w'\<rparr>" c])
      show "tryObtainLock E K rs key s = Some (Ok (h, None), s\<lparr>world := w'\<rparr>)"
        using w'(1) lk c by (simp add: tryObtainLock_def prog_simps)
    qed (use w' True c in \<open>simp_all add: same_clients_def\<close>)
  next
    case False
    obtain f s2 where s2: "tryObtainLock E K rs key s =
        handleP (bindP (call (lk_Obtain K key lockTTL) (Some f)) (\<lambda>lock. ret (lock, Some f)))
          (\<lambda>err. bindP (closeClient E f) (\<lambda>_. throw err)) s2"
      "tab (world s2) = tab (world s)" "\<not> up (world s) f" "\<not> closed (world s) f"
      "up (world s2) = (up (world s))(f := True)" "closed (world s2) = closed (world s)"
      "reach (world s2) = reach (world s)"
      by (rule one_shot [OF E use lk c False])
    have "up (world s2) f" "lt_owner (tab (world s2)) key = None" using s2 free by simp_all
    from Obtain_free [OF this, of lockTTL] obtain h w' where w':
      "lk_Obtain K key lockTTL f (world s2) = (Inr h, w')" "lt_issued (tab (world s2)) h = None"
      "tab w' = grant key h f lockTTL (tab (world s2))"
      "clients (world s2) w'" by blast
    show thesis
    proof (rule that [of h "Some f" "s2\<lparr>world := w'\<rparr>" f])
      show "tryObtainLock E K rs key s = Some (Ok (h, Some f), s2\<lparr>world := w'\<rparr>)"
        using w'(1) by (simp add: s2(1) prog_simps)
    qed (use w' s2 in \<open>simp_all add: same_clients_def\<close>)
  qed
qed

lemma tryObtain_taken:
  assumes E: "redis E = R" and use: "usable E rs s" and lk: "locker rs = client rs"
    and taken: "lt_owner (tab (world s)) key \<noteq> None"
  obtains s' where "tryObtainLock E K rs key s = Some (Err errNotObtained, s')"
    and "tab (world s') = tab (world s)" and "up (world s') = up (world s)" and "usable E rs s'"
proof -
  from use obtain c where c: "client rs = Some c" by (auto simp: usable_def)
  have nc: "\<not> isClientClosedErr errNotObtained"
    by (simp add: isClientClosedErr_def errNotObtained_def HasPrefix_def)
  show thesis
  proof (cases "up (world s) c")
    case True
    from Obtain_taken [OF True taken, of lockTTL] obtain w' where w':
      "lk_Obtain K key lockTTL c (world s) = (Inl errNotObtained, w')" "tab w' = tab (world s)" "clients (world s) w'" by blast
    show thesis
    proof (rule that [of "s\<lparr>world := w'\<rparr>"])
      show "tryObtainLock E K rs key s = Some (Err errNotObtained, s\<lparr>world := w'\<rparr>)"
        using w'(1) lk c nc by (simp add: tryObtainLock_def prog_simps)
    qed (use w' use in \<open>auto simp: same_clients_def usable_def\<close>)
  next
    case False
    obtain f s2 where s2: "tryObtainLock E K rs key s =
        handleP (bindP (call (lk_Obtain K key lockTTL) (Some f)) (\<lambda>lock. ret (lock, Some f)))
          (\<lambda>err. bindP (closeClient E f) (\<lambda>_. throw err)) s2"
      "tab (world s2) = tab (world s)" "\<not> up (world s) f" "\<not> closed (world s) f"
      "up (world s2) = (up (world s))(f := True)" "closed (world s2) = closed (world s)"
      "reach (world s2) = reach (world s)"
      by (rule one_shot [OF E use lk c False])
    have "up (world s2) f" "lt_owner (tab (world s2)) key \<noteq> None" using s2 taken by simp_all
    from Obtain_taken [OF this, of lockTTL] obtain w' where w':
      "lk_Obtain K key lockTTL f (world s2) = (Inl errNotObtained, w')" "tab w' = tab (world s2)" "clients (world s2) w'" by blast
    let ?s' = "s2\<lparr>world := api_Close R f w'\<rparr>"
    show thesis
    proof (rule that [of ?s'])
      show "tryObtainLock E K rs key s = Some (Err errNotObtained, ?s')"
        using w'(1) E by (simp add: s2(1) prog_simps closeClient_def)
      show "up (world ?s') = up (world s)" using w' s2 by (auto simp: same_clients_def Close fun_eq_iff)
      show "usable E rs ?s'" using w' s2 use by (auto simp: same_clients_def Close usable_def)
    qed (use w' s2 in \<open>simp add: Close_tab\<close>)
  qed
qed

text \<open>\<open>Lock\<close> on a free key.\<close>

lemma Lock_free:
  assumes E: "redis E = R" and use: "usable E rs (base s)" and lk: "locker rs = client rs" "locks rs"
    and free: "lt_owner (tab (world (base s))) key = None"
  obtains h fc c s' where "Lock_loop E K rs wait key s = Some (Ok (), s')"
    and "held s' = (held s)(key \<mapsto> \<lparr>hl_lock = h, hl_cancel = length (refreshers s), freshClient = fc\<rparr>)"
    and "refreshers s' = refreshers s @ [\<lparr>rf_lock = h, rf_cancelled = False, rf_running = True\<rparr>]"
    and "lt_issued (tab (world (base s))) h = None"
    and "tab (world (base s')) = grant key h c lockTTL (tab (world (base s)))"
    and "up (world (base s')) c"
    and "case fc of None \<Rightarrow> client rs = Some c \<and> up (world (base s')) = up (world (base s))
       | Some f \<Rightarrow> c = f \<and> \<not> up (world (base s)) f \<and> up (world (base s')) = (up (world (base s)))(f := True)"
proof -
  obtain h fc c b where b: "tryObtainLock E K rs key (base s) = Some (Ok (h, fc), b)"
    "lt_issued (tab (world (base s))) h = None"
    "tab (world b) = grant key h c lockTTL (tab (world (base s)))"
    "up (world b) c"
    "case fc of None \<Rightarrow> client rs = Some c \<and> up (world b) = up (world (base s))
       | Some f \<Rightarrow> c = f \<and> \<not> up (world (base s)) f \<and> \<not> closed (world (base s)) f \<and> up (world b) = (up (world (base s)))(f := True)"
    by (rule tryObtain_free [OF E use lk(1) free])
  let ?s' = "s\<lparr>base := b, held := (held s)(key \<mapsto> \<lparr>hl_lock = h, hl_cancel = length (refreshers s), freshClient = fc\<rparr>),
      refreshers := refreshers s @ [\<lparr>rf_lock = h, rf_cancelled = False, rf_running = True\<rparr>]\<rparr>"
  show thesis
  proof (rule that [of ?s' h fc c])
    show "Lock_loop E K rs wait key s = Some (Ok (), ?s')"
      using b(1) lk(2) by (subst Lock_loop.simps) (simp add: onBase_def keepLock_def)
  qed (use b in \<open>auto split: option.splits\<close>)
qed

text \<open>
  \<open>Lock\<close> on a key that becomes free after some rounds of waiting returns with the lock; while it
  waits it keeps nothing open.
\<close>

lemma Lock_eventually:
  assumes E: "redis E = R" and lk: "locker rs = client rs" "locks rs"
  shows "freed_after tab (usable E rs) wait key n s \<Longrightarrow>
    \<exists>h s'. Lock_loop E K rs wait key s = Some (Ok (), s') \<and> held s' key = Some h
      \<and> lt_owner (tab (world (base s'))) key = Some (hl_lock h) \<and> hl_cancel h < length (refreshers s')
      \<and> refreshers s' ! hl_cancel h = \<lparr>rf_lock = hl_lock h, rf_cancelled = False, rf_running = True\<rparr>"
proof (induction n arbitrary: s)
  case 0
  then have use: "usable E rs (base s)" and free: "lt_owner (tab (world (base s))) key = None" by simp_all
  obtain h fc c s' where "Lock_loop E K rs wait key s = Some (Ok (), s')"
    "held s' = (held s)(key \<mapsto> \<lparr>hl_lock = h, hl_cancel = length (refreshers s), freshClient = fc\<rparr>)"
    "refreshers s' = refreshers s @ [\<lparr>rf_lock = h, rf_cancelled = False, rf_running = True\<rparr>]"
    "tab (world (base s')) = grant key h c lockTTL (tab (world (base s)))"
    by (rule Lock_free [OF E use lk free])
  then show ?case by simp
next
  case (Suc n)
  then have use: "usable E rs (base s)" and taken: "lt_owner (tab (world (base s))) key \<noteq> None" by simp_all
  obtain b where b: "tryObtainLock E K rs key (base s) = Some (Err errNotObtained, b)"
    "tab (world b) = tab (world (base s))" "usable E rs b" by (rule tryObtain_taken [OF E use lk(1) taken])
  obtain o' t where w: "wait (s\<lparr>base := b\<rparr>) = (o', t)" by fastforce
  with Suc.prems b(2,3) have "o' = None" "freed_after tab (usable E rs) wait key n t" by auto
  with Suc.IH [of t] w b(1) show ?case
    by (subst Lock_loop.simps) (simp add: onBase_def)
qed

text \<open>
  \<open>Unlock\<close> of a lock that is still owned, of one that was lost, and of one whose client was closed.
\<close>

lemma Unlock_owned:
  assumes E: "redis E = R" and lk: "locks rs" and h: "held s (prefixLock rs name) = Some h"
    and iss: "lt_issued (tab (world (base s))) (hl_lock h) = Some (key, c)" and up: "up (world (base s)) c"
    and own: "owns (tab (world (base s))) (hl_lock h)"
  obtains s' where "Unlock E K rs name s = Some (Ok (), s')" and "held s' = (held s)(prefixLock rs name := None)"
    and "tab (world (base s')) = vacate key (tab (world (base s)))"
    and "up (world (base s')) = (case freshClient h of None \<Rightarrow> up (world (base s)) | Some f \<Rightarrow> (up (world (base s)))(f := False))"
    and "refreshers s' = refreshers (cancelRefresher (hl_cancel h) s)"
proof -
  from Release [OF iss up own] obtain w' where w': "lk_Release K (hl_lock h) (world (base s)) = (Inr (), w')"
    "tab w' = vacate key (tab (world (base s)))"
    "clients (world (base s)) w'" by blast
  let ?w = "case freshClient h of None \<Rightarrow> w' | Some f \<Rightarrow> api_Close R f w'"
  let ?s = "cancelRefresher (hl_cancel h) (s\<lparr>held := (held s)(prefixLock rs name := None)\<rparr>)"
  show thesis
  proof (rule that [of "?s\<lparr>base := (base ?s)\<lparr>world := ?w\<rparr>\<rparr>"])
    show "Unlock E K rs name s = Some (Ok (), ?s\<lparr>base := (base ?s)\<lparr>world := ?w\<rparr>\<rparr>)"
      using w'(1) E h lk by (simp add: Unlock_def Let_def cancelRefresher_def split: option.split)
  qed (use w' in \<open>auto simp: cancelRefresher_def same_clients_def Close Close_tab split: option.split\<close>)
qed

lemma Unlock_other:
  assumes E: "redis E = R" and lk: "locks rs" and h: "held s (prefixLock rs name) = Some h"
    and iss: "lt_issued (tab (world (base s))) (hl_lock h) = Some (key, c)"
    and lost: "up (world (base s)) c \<and> \<not> owns (tab (world (base s))) (hl_lock h) \<or> closed (world (base s)) c"
  obtains s' where "Unlock E K rs name s =
      Some (if closed (world (base s)) c then Ok ()
        else Err (errorf_v (''Unable to release lock for '' @ prefixLock rs name @ '': '') errLockNotHeld), s')"
    and "held s' = (held s)(prefixLock rs name := None)" and "tab (world (base s')) = tab (world (base s))"
    and "up (world (base s')) = (case freshClient h of None \<Rightarrow> up (world (base s)) | Some f \<Rightarrow> (up (world (base s)))(f := False))"
    and "refreshers s' = refreshers (cancelRefresher (hl_cancel h) s)"
proof -
  have nc: "\<not> isClientClosedErr errLockNotHeld"
    by (simp add: isClientClosedErr_def errLockNotHeld_def HasPrefix_def)
  obtain w' where w': "lk_Release K (hl_lock h) (world (base s)) =
      (Inl (if closed (world (base s)) c then closedErr else errLockNotHeld), w')"
    "tab w' = tab (world (base s))" "clients (world (base s)) w'"
    using lost Release_lost [OF iss] Release_closed [OF iss] up_open by (cases "closed (world (base s)) c") auto
  let ?w = "case freshClient h of None \<Rightarrow> w' | Some f \<Rightarrow> api_Close R f w'"
  let ?s = "cancelRefresher (hl_cancel h) (s\<lparr>held := (held s)(prefixLock rs name := None)\<rparr>)"
  show thesis
  proof (rule that [of "?s\<lparr>base := (base ?s)\<lparr>world := ?w\<rparr>\<rparr>"])
    show "Unlock E K rs name s = Some (if closed (world (base s)) c then Ok ()
        else Err (errorf_v (''Unable to release lock for '' @ prefixLock rs name @ '': '') errLockNotHeld),
        ?s\<lparr>base := (base ?s)\<lparr>world := ?w\<rparr>\<rparr>)"
      using w'(1) E h lk nc by (simp add: Unlock_def Let_def cancelRefresher_def split: option.split)
  qed (use w' in \<open>auto simp: cancelRefresher_def same_clients_def Close Close_tab split: option.split\<close>)
qed

text \<open>\<open>Lock\<close> and then \<open>Unlock\<close>: the locks, the map of held locks and the clients are as before.\<close>

lemma lock_unlock:
  assumes E: "redis E = R" and use: "usable E rs (base s)" and lk: "locker rs = client rs" "locks rs"
    and free: "lt_owner (tab (world (base s))) (prefixLock rs name) = None" "held s (prefixLock rs name) = None"
  shows "\<exists>s1 s2. Lock E K rs wait name s = Some (Ok (), s1) \<and> Unlock E K rs name s1 = Some (Ok (), s2)
    \<and> lt_owner (tab (world (base s1))) (prefixLock rs name) \<noteq> None
    \<and> lt_owner (tab (world (base s2))) = lt_owner (tab (world (base s))) \<and> held s2 = held s
    \<and> up (world (base s2)) = up (world (base s)) \<and> rf_cancelled (last (refreshers s2))"
proof -
  let ?k = "prefixLock rs name"
  obtain h fc c s1 where s1: "Lock_loop E K rs wait ?k s = Some (Ok (), s1)"
    "held s1 = (held s)(?k \<mapsto> \<lparr>hl_lock = h, hl_cancel = length (refreshers s), freshClient = fc\<rparr>)"
    "refreshers s1 = refreshers s @ [\<lparr>rf_lock = h, rf_cancelled = False, rf_running = True\<rparr>]"
    "tab (world (base s1)) = grant ?k h c lockTTL (tab (world (base s)))"
    "up (world (base s1)) c"
    "case fc of None \<Rightarrow> client rs = Some c \<and> up (world (base s1)) = up (world (base s))
       | Some f \<Rightarrow> c = f \<and> \<not> up (world (base s)) f \<and> up (world (base s1)) = (up (world (base s)))(f := True)"
    by (rule Lock_free [OF E use lk free(1)])
  have "held s1 ?k = Some \<lparr>hl_lock = h, hl_cancel = length (refreshers s), freshClient = fc\<rparr>" using s1 by simp
  from Unlock_owned [OF E lk(2) this, of ?k c] s1(4,5) obtain s2 where s2:
    "Unlock E K rs name s1 = Some (Ok (), s2)" "held s2 = (held s1)(?k := None)"
    "tab (world (base s2)) = vacate ?k (tab (world (base s1)))"
    "up (world (base s2)) = (case fc of None \<Rightarrow> up (world (base s1)) | Some f \<Rightarrow> (up (world (base s1)))(f := False))"
    "refreshers s2 = refreshers (cancelRefresher (length (refreshers s)) s1)"
    by (auto simp: owns_def)
  moreover have "up (world (base s2)) = up (world (base s))"
    using s2(4) s1(6) by (auto simp: fun_eq_iff split: option.splits)
  ultimately show ?thesis using s1 free by (auto simp: Lock_def cancelRefresher_def fun_upd_idem)
qed

end

subsection \<open>The locks of the in-memory server\<close>

definition mem_tab :: "mem \<Rightarrow> locktab" where
  "mem_tab w = \<lparr>lt_owner = mem_owner w,
     lt_issued = (\<lambda>h. if h < length (mem_handles w) then Some (mem_handles w ! h) else None),
     lt_expires = mem_expires w, lt_now = mem_now w\<rparr>"

definition mem_fail :: "nat \<Rightarrow> mem \<Rightarrow> go_error" where
  "mem_fail c w = (if mem_closed w c then closedErr else netErr)"

definition mem_locks :: "mem lock_api" where
  "mem_locks = \<lparr>
     lk_Obtain = (\<lambda>key ttl c w.
       if \<not> mem_up w c then (Inl (mem_fail c w), w)
       else if mem_owner w key \<noteq> None then (Inl errNotObtained, w)
       else (Inr (length (mem_handles w)),
             w\<lparr>mem_owner := (mem_owner w)(key \<mapsto> length (mem_handles w)), mem_handles := mem_handles w @ [(key, c)],
               mem_expires := (mem_expires w)(key \<mapsto> mem_now w + sint ttl)\<rparr>)),
     lk_Refresh = (\<lambda>ttl h w. if h \<ge> length (mem_handles w) then (Inl errNotObtained, w)
       else case mem_handles w ! h of (key, c) \<Rightarrow>
         (if \<not> mem_up w c then (Inl (mem_fail c w), w)
          else if mem_owner w key = Some h then (Inr (), w\<lparr>mem_expires := (mem_expires w)(key \<mapsto> mem_now w + sint ttl)\<rparr>)
          else (Inl errNotObtained, w))),
     lk_Release = (\<lambda>h w. if h \<ge> length (mem_handles w) then (Inl errLockNotHeld, w)
       else case mem_handles w ! h of (key, c) \<Rightarrow>
         (if \<not> mem_up w c then (Inl (mem_fail c w), w)
          else if mem_owner w key = Some h then (Inr (), w\<lparr>mem_owner := (mem_owner w)(key := None), mem_expires := (mem_expires w)(key := None)\<rparr>)
          else (Inl errLockNotHeld, w)))\<rparr>"

lemma mem_lock_status [simp]:
  "mem_status (w\<lparr>mem_owner := x\<rparr>) = mem_status w" "mem_status (w\<lparr>mem_handles := y\<rparr>) = mem_status w"
  "mem_status (w\<lparr>mem_expires := z\<rparr>) = mem_status w" "mem_status (w\<lparr>mem_now := n\<rparr>) = mem_status w"
  by (simp_all add: mem_status_def fun_eq_iff)

lemmas mem_lock_defs = mem_tab_def mem_locks_def mem_fail_def same_clients_def mem_up_def mem_closed_def owns_def
  grant_def prolong_def vacate_def

interpretation memlock: lock_service "mem_api nb ks" mem_db mem_up mem_closed mem_reachable mem_locks mem_tab
proof (unfold_locales, goal_cases)
  case (1 w c key ttl)
  then show ?case by (auto simp: mem_lock_defs fun_eq_iff nth_append)
qed (auto simp: mem_lock_defs mem_api_def mem_new_def mem_close_def mem_do_def spec_Ping_def fun_eq_iff split: if_splits)

text \<open>The process with one cached client, in a state given by the server.\<close>

definition mem_lstate :: "mem \<Rightarrow> mem lstate" where
  "mem_lstate w = \<lparr>base = \<lparr>reconnectCount = 0, reconnectMetric = 0, world = w\<rparr>, held = Map.empty, refreshers = []\<rparr>"

end
