(* ===== verification/Lock_Safety.thy ===== *)
theory Lock_Safety
  imports Lock
begin

section \<open>Mutual exclusion between instances\<close>

text \<open>
  Several storage instances (in one process after reloads, or in several processes) share a
  server. A step is an attempt of some \<open>Lock\<close> loop, an \<open>Unlock\<close>, a round of a refresh goroutine,
  a reload that closes a cached client, anything outside that leaves the locks alone (the network,
  other commands), or the passing of time, in which the server removes the locks that reach the
  end of their time to live.

  Of time only this is assumed: the ticker of a goroutine fires every \<open>lockRefreshInterval\<close>, and
  the goroutine handles a tick at most \<open>slack\<close> later. Nothing is assumed about the answer it gets:
  a refresh may fail, the goroutine then waits for the next tick, and the lock may expire meanwhile.
\<close>

subsection \<open>The system\<close>

text \<open>
  For every goroutine of every instance, \<open>ss_due\<close> is the time of its next tick and \<open>ss_shaky\<close> tells
  that the last refresh ended with an error the goroutine retries (\<open>Failed to refresh lock, will retry\<close>).
\<close>

record 'w system =
  ss_world :: 'w
  ss_inst :: "nat \<Rightarrow> 'w lstate"
  ss_due :: "nat \<Rightarrow> nat \<Rightarrow> int"
  ss_shaky :: "nat \<Rightarrow> nat \<Rightarrow> bool"

definition inst :: "'w system \<Rightarrow> nat \<Rightarrow> 'w lstate" where
  "inst S i = (ss_inst S i)\<lparr>base := (base (ss_inst S i))\<lparr>world := ss_world S\<rparr>\<rparr>"

definition put_inst :: "'w system \<Rightarrow> nat \<Rightarrow> 'w lstate \<Rightarrow> 'w system" where
  "put_inst S i s = S\<lparr>ss_world := world (base s), ss_inst := (ss_inst S)(i := s)\<rparr>"

definition note_round :: "nat \<Rightarrow> nat \<Rightarrow> int \<Rightarrow> bool \<Rightarrow> 'w system \<Rightarrow> 'w system" where
  "note_round i j due shaky S = S\<lparr>ss_due := (ss_due S)(i := (ss_due S i)(j := due)),
     ss_shaky := (ss_shaky S)(i := (ss_shaky S i)(j := shaky))\<rparr>"

text \<open>A goroutine that refreshes its lock and was not told to stop.\<close>

definition live :: "'w lstate \<Rightarrow> nat \<Rightarrow> bool" where
  "live s j \<longleftrightarrow> j < length (refreshers s) \<and> rf_running (refreshers s ! j) \<and> \<not> rf_cancelled (refreshers s ! j)"

definition handle :: "'w system \<Rightarrow> nat \<Rightarrow> nat \<Rightarrow> nat" where
  "handle S i j = rf_lock (refreshers (ss_inst S i) ! j)"

text \<open>The answers after which the source retries at the next tick.\<close>

definition transient :: "go_error + unit \<Rightarrow> bool" where
  "transient r = (case r of Inr _ \<Rightarrow> False | Inl e \<Rightarrow> e \<noteq> errNotObtained \<and> \<not> isClientClosedErr e)"

inductive sys_step :: "'w sysenv \<Rightarrow> 'w lock_api \<Rightarrow> ('w \<Rightarrow> locktab) \<Rightarrow> int \<Rightarrow> (nat \<Rightarrow> RedisStorage) \<Rightarrow> 'w system \<Rightarrow> 'w system \<Rightarrow> bool"
  for E K tab slack rs where
  obtained: "onBase (tryObtainLock E K (rs i) key) (inst S i) = Some (Ok (lock, fresh), t) \<Longrightarrow>
     keepLock (rs i) key lock fresh t = Some (Ok (), t') \<Longrightarrow>
     sys_step E K tab slack rs S (note_round i (length (refreshers t))
       (lt_now (tab (world (base t'))) + sint lockRefreshInterval) False (put_inst S i t'))"
| not_obtained: "onBase (tryObtainLock E K (rs i) key) (inst S i) = Some (Err e, t) \<Longrightarrow>
     sys_step E K tab slack rs S (put_inst S i t)"
| unlock: "Unlock E K (rs i) name (inst S i) = Some (r, t) \<Longrightarrow> sys_step E K tab slack rs S (put_inst S i t)"
| tick: "wakes (inst S i) j TickerFired \<Longrightarrow> ss_due S i j \<le> lt_now (tab (ss_world S)) \<Longrightarrow>
     sys_step E K tab slack rs S (note_round i j (ss_due S i j + sint lockRefreshInterval)
       (transient (fst (lk_Refresh K lockTTL (handle S i j) (ss_world S))))
       (put_inst S i (refreshRound K j TickerFired (inst S i))))"
| cancelled: "wakes (inst S i) j ContextDone \<Longrightarrow>
     sys_step E K tab slack rs S (put_inst S i (refreshRound K j ContextDone (inst S i)))"
| reload: "onBase (Cleanup E (rs i)) (inst S i) = Some (r, t) \<Longrightarrow> sys_step E K tab slack rs S (put_inst S i t)"
| outside: "tab w = tab (ss_world S) \<Longrightarrow> sys_step E K tab slack rs S (S\<lparr>ss_world := w\<rparr>)"
| time: "tab w = pass d (tab (ss_world S)) \<Longrightarrow> d \<ge> 0 \<Longrightarrow>
     \<forall>i j. live (ss_inst S i) j \<longrightarrow> lt_now (tab (ss_world S)) + d \<le> ss_due S i j + slack \<Longrightarrow>
     sys_step E K tab slack rs S (S\<lparr>ss_world := w\<rparr>)"

inductive sys_reach :: "'w sysenv \<Rightarrow> 'w lock_api \<Rightarrow> ('w \<Rightarrow> locktab) \<Rightarrow> int \<Rightarrow> (nat \<Rightarrow> RedisStorage) \<Rightarrow> 'w system \<Rightarrow> bool"
  for E K tab slack rs where
  start: "\<forall>i. held (ss_inst S i) = Map.empty \<and> refreshers (ss_inst S i) = [] \<Longrightarrow> sys_reach E K tab slack rs S"
| step: "sys_reach E K tab slack rs S \<Longrightarrow> sys_step E K tab slack rs S S' \<Longrightarrow> sys_reach E K tab slack rs S'"

text \<open>
  An instance holds a key when its map has a lock for it whose goroutine is live and is not
  retrying a failed refresh.
\<close>

definition holds :: "'w system \<Rightarrow> nat \<Rightarrow> string \<Rightarrow> bool" where
  "holds S i key \<longleftrightarrow> (\<exists>h. held (ss_inst S i) key = Some h \<and> live (ss_inst S i) (hl_cancel h)
     \<and> \<not> ss_shaky S i (hl_cancel h))"

subsection \<open>The invariant\<close>

abbreviation slot :: "'w system \<Rightarrow> nat \<Rightarrow> nat \<Rightarrow> bool" where
  "slot S i j \<equiv> j < length (refreshers (ss_inst S i))"

text \<open>The handle owns its key, at least until \<open>d\<close>.\<close>

definition leased :: "locktab \<Rightarrow> nat \<Rightarrow> int \<Rightarrow> bool" where
  "leased t h d \<longleftrightarrow> (\<exists>key c e. lt_issued t h = Some (key, c) \<and> lt_owner t key = Some h
     \<and> lt_expires t key = Some e \<and> d \<le> e)"

text \<open>What the time to live leaves after a tick that is due.\<close>

definition margin :: int where
  "margin = sint lockTTL - sint lockRefreshInterval"

definition sys_inv :: "('w \<Rightarrow> locktab) \<Rightarrow> 'w system \<Rightarrow> bool" where
  "sys_inv tab S \<longleftrightarrow>
     (\<forall>i j. slot S i j \<longrightarrow> lt_issued (tab (ss_world S)) (handle S i j) \<noteq> None) \<and>
     (\<forall>i j i' j'. slot S i j \<longrightarrow> slot S i' j' \<longrightarrow> handle S i j = handle S i' j' \<longrightarrow> i = i' \<and> j = j') \<and>
     (\<forall>i key h. held (ss_inst S i) key = Some h \<longrightarrow> slot S i (hl_cancel h) \<and> handle S i (hl_cancel h) = hl_lock h
        \<and> (\<exists>c. lt_issued (tab (ss_world S)) (hl_lock h) = Some (key, c))) \<and>
     (\<forall>i j. live (ss_inst S i) j \<longrightarrow> \<not> ss_shaky S i j \<longrightarrow> leased (tab (ss_world S)) (handle S i j) (ss_due S i j + margin))"

lemma sys_invD:
  assumes "sys_inv tab S"
  shows "slot S i j \<Longrightarrow> lt_issued (tab (ss_world S)) (handle S i j) \<noteq> None"
    and "slot S i j \<Longrightarrow> slot S i' j' \<Longrightarrow> handle S i j = handle S i' j' \<Longrightarrow> i = i' \<and> j = j'"
    and "held (ss_inst S i) key = Some h \<Longrightarrow> slot S i (hl_cancel h) \<and> handle S i (hl_cancel h) = hl_lock h
        \<and> (\<exists>c. lt_issued (tab (ss_world S)) (hl_lock h) = Some (key, c))"
    and "live (ss_inst S i) j \<Longrightarrow> \<not> ss_shaky S i j \<Longrightarrow> leased (tab (ss_world S)) (handle S i j) (ss_due S i j + margin)"
  using assms unfolding sys_inv_def by blast+

lemma inst_simps [simp]:
  "held (inst S i) = held (ss_inst S i)" "refreshers (inst S i) = refreshers (ss_inst S i)"
  "world (base (inst S i)) = ss_world S" "live (inst S i) = live (ss_inst S i)"
  by (simp_all add: inst_def live_def fun_eq_iff)

lemma put_inst_simps [simp]:
  "ss_world (put_inst S i s) = world (base s)" "ss_due (put_inst S i s) = ss_due S" "ss_shaky (put_inst S i s) = ss_shaky S"
  "ss_inst (put_inst S i s) k = (if k = i then s else ss_inst S k)"
  by (simp_all add: put_inst_def)

lemma note_round_simps [simp]:
  "ss_world (note_round i j d b S) = ss_world S" "ss_inst (note_round i j d b S) = ss_inst S"
  "ss_due (note_round i j d b S) k l = (if k = i \<and> l = j then d else ss_due S k l)"
  "ss_shaky (note_round i j d b S) k l = (if k = i \<and> l = j then b else ss_shaky S k l)"
  by (simp_all add: note_round_def)

lemma leased_owner: "leased t h d \<Longrightarrow> lt_issued t h = Some (key, c) \<Longrightarrow> lt_owner t key = Some h"
  by (auto simp: leased_def)

text \<open>A lease survives what happens to other keys.\<close>

lemma leased_other:
  assumes "leased t h d"
  shows "lt_owner t key \<noteq> Some h \<Longrightarrow> leased (vacate key t) h d"
    and "lt_owner t key \<noteq> Some h \<Longrightarrow> leased (prolong key ttl t) h d"
    and "lt_owner t key = None \<Longrightarrow> lt_issued t g = None \<Longrightarrow> leased (grant key g c ttl t) h d"
    and "lt_now t + dt < d \<Longrightarrow> leased (pass dt t) h d"
proof -
  from assms obtain k c0 e where h: "lt_issued t h = Some (k, c0)" "lt_owner t k = Some h" "lt_expires t k = Some e" "d \<le> e"
    by (auto simp: leased_def)
  show "leased (vacate key t) h d" if "lt_owner t key \<noteq> Some h" using h that by (cases "k = key") (auto simp: leased_def)
  show "leased (prolong key ttl t) h d" if "lt_owner t key \<noteq> Some h" using h that by (cases "k = key") (auto simp: leased_def)
  show "leased (grant key g c ttl t) h d" if "lt_owner t key = None" "lt_issued t g = None" for c
    using h that by (cases "k = key"; cases "h = g") (auto simp: leased_def)
  show "leased (pass dt t) h d" if "lt_now t + dt < d" using h that by (auto simp: leased_def expired_def)
qed

text \<open>
  A step that leaves the handles, the issued locks and the map alone keeps the invariant if it
  leaves every live goroutine its lease.
\<close>

lemma sys_inv_frame:
  assumes inv: "sys_inv tab S"
    and refs: "\<And>k. map rf_lock (refreshers (ss_inst S' k)) = map rf_lock (refreshers (ss_inst S k))"
    and held: "\<And>k key h. held (ss_inst S' k) key = Some h \<Longrightarrow> held (ss_inst S k) key = Some h"
    and iss: "lt_issued (tab (ss_world S')) = lt_issued (tab (ss_world S))"
    and own: "\<And>k j. live (ss_inst S' k) j \<Longrightarrow> \<not> ss_shaky S' k j \<Longrightarrow>
        leased (tab (ss_world S')) (handle S k j) (ss_due S' k j + margin)"
  shows "sys_inv tab S'"
proof -
  have slot: "slot S' k j \<longleftrightarrow> slot S k j" for k j using refs [of k] by (metis length_map)
  have hd: "handle S' k j = handle S k j" if "slot S k j" for k j
    using refs [of k] that slot [of j k] unfolding handle_def by (metis nth_map)
  show ?thesis
    unfolding sys_inv_def slot
  proof (intro conjI allI impI)
    fix k j assume "slot S k j"
    then show "lt_issued (tab (ss_world S')) (handle S' k j) \<noteq> None"
      using sys_invD(1) [OF inv] iss by (simp add: hd)
  next
    fix k j k' j' assume "slot S k j" "slot S k' j'" "handle S' k j = handle S' k' j'"
    then show "k = k'" "j = j'" using sys_invD(2) [OF inv] by (auto simp: hd)
  next
    fix k key h assume "held (ss_inst S' k) key = Some h"
    from sys_invD(3) [OF inv held [OF this]] show "slot S k (hl_cancel h)" "handle S' k (hl_cancel h) = hl_lock h"
      "\<exists>c. lt_issued (tab (ss_world S')) (hl_lock h) = Some (key, c)" using iss by (simp_all add: hd)
  next
    fix k j assume l: "live (ss_inst S' k) j" and ok: "\<not> ss_shaky S' k j"
    have "slot S k j" using l slot by (simp add: live_def)
    with own [OF l ok] show "leased (tab (ss_world S')) (handle S' k j) (ss_due S' k j + margin)" by (simp add: hd)
  qed
qed

subsection \<open>Every step keeps the invariant\<close>

lemma sys_inv_obtained:
  assumes inv: "sys_inv tab S" and eff: "attempt_effect key (tab (ss_world S)) (tab (world b)) (Ok h)"
  shows "sys_inv tab (note_round i (length (refreshers (ss_inst S i))) (lt_now (tab (world b)) + sint lockRefreshInterval) False
      (put_inst S i ((inst S i)\<lparr>base := b,
        held := (held (ss_inst S i))(key \<mapsto> \<lparr>hl_lock = h, hl_cancel = length (refreshers (ss_inst S i)), freshClient = fc\<rparr>),
        refreshers := refreshers (ss_inst S i) @ [\<lparr>rf_lock = h, rf_cancelled = False, rf_running = True\<rparr>]\<rparr>)))"
    (is "sys_inv tab ?S")
proof -
  let ?n = "length (refreshers (ss_inst S i))" and ?T = "tab (ss_world S)"
  from eff obtain c where free: "lt_owner ?T key = None" and new: "lt_issued ?T h = None"
    and T: "tab (ss_world ?S) = grant key h c lockTTL ?T" and Tb: "tab (world b) = grant key h c lockTTL ?T"
    by (auto simp: attempt_effect_def)
  have slot: "slot ?S k j \<longleftrightarrow> slot S k j \<or> k = i \<and> j = ?n" for k j by auto
  have hd: "handle ?S k j = (if k = i \<and> j = ?n then h else handle S k j)" if "slot ?S k j" for k j
    using that by (auto simp: handle_def nth_append split: if_splits)
  have old: "handle S k j \<noteq> h" if "slot S k j" for k j
    using sys_invD(1) [OF inv that] new by auto
  have lv: "live (ss_inst ?S k) j \<longleftrightarrow> live (ss_inst S k) j \<or> k = i \<and> j = ?n" for k j
    by (auto simp: live_def nth_append)
  show ?thesis
    unfolding sys_inv_def
  proof (intro conjI allI impI)
    fix k j assume s: "slot ?S k j"
    then have "k = i \<and> j = ?n \<or> slot S k j" using slot by blast
    then show "lt_issued (tab (ss_world ?S)) (handle ?S k j) \<noteq> None"
      using sys_invD(1) [OF inv, where i = k and j = j] unfolding hd [OF s] T by auto
  next
    fix k j k' j' assume s: "slot ?S k j" "slot ?S k' j'" and eq: "handle ?S k j = handle ?S k' j'"
    then show "k = k'" "j = j'"
      using sys_invD(2) [OF inv, where i = k and j = j and i' = k' and j' = j'] old [where k = k and j = j] old [where k = k' and j = j'] unfolding hd [OF s(1)] hd [OF s(2)]
      by (auto simp: slot split: if_splits)
  next
    fix k key' h' assume hk: "held (ss_inst ?S k) key' = Some h'"
    have "slot ?S k (hl_cancel h') \<and> handle ?S k (hl_cancel h') = hl_lock h'
        \<and> (\<exists>c. lt_issued (tab (ss_world ?S)) (hl_lock h') = Some (key', c))"
    proof (cases "k = i \<and> key' = key")
      case True
      with hk show ?thesis unfolding T by (auto simp: handle_def)
    next
      case False
      with hk have "held (ss_inst S k) key' = Some h'" by (auto split: if_splits)
      from sys_invD(3) [OF inv this] new show ?thesis
        unfolding T by (auto simp: hd slot)
    qed
    then show "slot ?S k (hl_cancel h')" "handle ?S k (hl_cancel h') = hl_lock h'"
      "\<exists>c. lt_issued (tab (ss_world ?S)) (hl_lock h') = Some (key', c)" by blast+
  next
    fix k j assume l: "live (ss_inst ?S k) j" and ok: "\<not> ss_shaky ?S k j"
    then have s: "slot ?S k j" by (simp add: live_def)
    show "leased (tab (ss_world ?S)) (handle ?S k j) (ss_due ?S k j + margin)"
    proof (cases "k = i \<and> j = ?n")
      case True
      then show ?thesis unfolding hd [OF s] T by (auto simp: leased_def Tb margin_def)
    next
      case False
      with l lv have "live (ss_inst S k) j" by blast
      moreover have "\<not> ss_shaky S k j" using ok False by auto
      ultimately have "leased ?T (handle S k j) (ss_due S k j + margin)" by (rule sys_invD(4) [OF inv])
      from leased_other(3) [OF this free new] False show ?thesis unfolding hd [OF s] T by auto
    qed
  qed
qed

context lock_service
begin

lemma Release_any:
  assumes "lt_issued (tab w) h = Some (key, c)" and "lk_Release K h w = (r, w')"
  shows "tab w' = tab w \<or> owns (tab w) h \<and> tab w' = vacate key (tab w)"
proof -
  consider "up w c" "owns (tab w) h" | "up w c" "\<not> owns (tab w) h" | "closed w c" | "\<not> up w c" "\<not> closed w c" by blast
  then show ?thesis
    using Release [OF assms(1)] Release_lost [OF assms(1)] Release_closed [OF assms(1)] Release_down [OF assms(1)] assms(2)
    by cases auto
qed

lemma Cleanup_tab:
  assumes "redis E = R" and "Cleanup E rs s = Some (r, s')"
  shows "tab (world s') = tab (world s)"
  using assms(2) by (auto simp: Cleanup_def closeClient_def Close_tab assms(1) split: option.splits)

text \<open>A step of instance \<open>i\<close> that leaves the locks, the map and the handles alone.\<close>

lemma step_same_locks:
  assumes inv: "sys_inv tab S" and "tab (world (base t)) = tab (ss_world S)" and "held t = held (ss_inst S i)"
    and "map rf_lock (refreshers t) = map rf_lock (refreshers (ss_inst S i))"
    and "\<And>j. live t j \<Longrightarrow> live (ss_inst S i) j"
  shows "sys_inv tab (put_inst S i t)"
  by (rule sys_inv_frame [OF inv]) (use assms sys_invD(4) [OF inv] in \<open>auto split: if_splits\<close>)

lemma step_unlock:
  assumes E: "redis E = R" and inv: "sys_inv tab S" and run: "Unlock E K rs name (inst S i) = Some (r, t)"
  shows "sys_inv tab (put_inst S i t)"
proof (cases "locks rs \<and> held (ss_inst S i) (prefixLock rs name) \<noteq> None")
  case False
  with run have t: "t = inst S i" by (auto simp: Unlock_def Let_def split: if_splits)
  show ?thesis unfolding t by (rule step_same_locks [OF inv]) simp_all
next
  case True
  let ?k = "prefixLock rs name"
  from True obtain h where h: "held (ss_inst S i) ?k = Some h" by blast
  from sys_invD(3) [OF inv h] obtain c where slot: "slot S i (hl_cancel h)" and hh: "handle S i (hl_cancel h) = hl_lock h"
    and iss: "lt_issued (tab (ss_world S)) (hl_lock h) = Some (?k, c)" by blast
  obtain e w where rel: "lk_Release K (hl_lock h) (ss_world S) = (e, w)" by fastforce
  have tt: "tab (world (base t)) = tab w" and refs: "refreshers t = refreshers (cancelRefresher (hl_cancel h) (ss_inst S i))"
    and held: "held t = (held (ss_inst S i))(?k := None)"
    using run True h rel
    by (auto simp: Unlock_def Let_def cancelRefresher_def Close_tab E split: if_splits sum.splits option.splits)
  have T: "tab w = tab (ss_world S) \<or> owns (tab (ss_world S)) (hl_lock h) \<and> tab w = vacate ?k (tab (ss_world S))"
    by (rule Release_any [OF iss rel])
  have rf: "refreshers t ! j = (if j = hl_cancel h then (refreshers (ss_inst S i) ! j)\<lparr>rf_cancelled := True\<rparr>
      else refreshers (ss_inst S i) ! j)" for j
    using slot by (simp add: refs cancelRefresher_def nth_list_update)
  have live: "live t j \<longleftrightarrow> live (ss_inst S i) j \<and> j \<noteq> hl_cancel h" for j
    using slot by (auto simp: live_def rf) (simp_all add: refs cancelRefresher_def)
  show ?thesis
  proof (rule sys_inv_frame [OF inv])
    show "map rf_lock (refreshers (ss_inst (put_inst S i t) k)) = map rf_lock (refreshers (ss_inst S k))" for k
      using slot by (simp add: refs cancelRefresher_def map_update list_update_same_conv)
    show "held (ss_inst S k) key = Some g" if "held (ss_inst (put_inst S i t) k) key = Some g" for k key g
      using that by (auto simp: held split: if_splits)
    show "lt_issued (tab (ss_world (put_inst S i t))) = lt_issued (tab (ss_world S))" using T tt by auto
    fix k j assume l: "live (ss_inst (put_inst S i t) k) j" and ok: "\<not> ss_shaky (put_inst S i t) k j"
    have lv: "live (ss_inst S k) j" "\<not> (k = i \<and> j = hl_cancel h)" using l by (auto simp: live split: if_splits)
    then have "slot S k j" "\<not> (k = i \<and> j = hl_cancel h)" by (simp_all add: live_def)
    then have ne: "handle S k j \<noteq> hl_lock h" using sys_invD(2) [OF inv _ slot] hh by metis
    have le: "leased (tab (ss_world S)) (handle S k j) (ss_due S k j + margin)"
      using sys_invD(4) [OF inv lv(1)] ok by simp
    from T have "leased (tab w) (handle S k j) (ss_due S k j + margin)"
    proof
      assume T': "owns (tab (ss_world S)) (hl_lock h) \<and> tab w = vacate ?k (tab (ss_world S))"
      then have "lt_owner (tab (ss_world S)) ?k = Some (hl_lock h)" using iss by (simp add: owns_def)
      then show ?thesis using leased_other(1) [OF le] ne T' by simp
    qed (use le in simp)
    then show "leased (tab (ss_world (put_inst S i t))) (handle S k j) (ss_due (put_inst S i t) k j + margin)"
      using tt by simp
  qed
qed

text \<open>
  A tick that is due and is answered starts the time to live again, long enough for the next tick;
  one that is answered otherwise ends the goroutine, or the refresh is retried.
\<close>

lemma refreshRound_frame:
  "held (refreshRound K j w s) = held s"
  "map rf_lock (refreshers (refreshRound K j w s)) = map rf_lock (refreshers s)"
  "live (refreshRound K j w s) k \<Longrightarrow> live s k"
proof -
  have refs: "refreshers (refreshRound K j w s) = refreshers s \<or>
      j < length (refreshers s) \<and> refreshers (refreshRound K j w s) = (refreshers s)[j := (refreshers s ! j)\<lparr>rf_running := False\<rparr>]"
    by (auto simp: refreshRound_def Let_def split: wake.split prod.split)
  show "held (refreshRound K j w s) = held s"
    by (auto simp: refreshRound_def Let_def split: wake.split prod.split)
  show "map rf_lock (refreshers (refreshRound K j w s)) = map rf_lock (refreshers s)"
    using refs by (auto simp: map_update list_update_same_conv)
  show "live s k" if "live (refreshRound K j w s) k"
    using refs that by (auto simp: live_def nth_list_update split: if_splits)
qed

lemma step_tick:
  assumes inv: "sys_inv tab S" and due: "ss_due S i j \<le> lt_now (tab (ss_world S))"
  shows "sys_inv tab (note_round i j (ss_due S i j + sint lockRefreshInterval)
       (transient (fst (lk_Refresh K lockTTL (handle S i j) (ss_world S))))
       (put_inst S i (refreshRound K j TickerFired (inst S i))))" (is "sys_inv tab ?S")
proof (cases "slot S i j \<and> rf_running (refreshers (ss_inst S i) ! j)")
  case False
  then have same: "refreshRound K j TickerFired (inst S i) = inst S i" by (auto simp: refreshRound_def)
  have dead: "\<not> live (ss_inst S i) j" using False by (auto simp: live_def)
  show ?thesis unfolding same
    by (rule sys_inv_frame [OF inv]) (use sys_invD(4) [OF inv] dead in \<open>auto split: if_splits\<close>)
next
  case True
  let ?h = "handle S i j" and ?T = "tab (ss_world S)"
  from True obtain key c where iss: "lt_issued ?T ?h = Some (key, c)"
    using sys_invD(1) [OF inv, where i = i and j = j] by auto
  from Refresh [OF iss, of lockTTL] obtain r w' where r: "lk_Refresh K lockTTL ?h (ss_world S) = (r, w')"
    and w': "tab w' = ?T \<or> owns ?T ?h \<and> tab w' = prolong key lockTTL ?T"
      "r = Inr () \<longrightarrow> owns ?T ?h \<and> tab w' = prolong key lockTTL ?T" by blast
  let ?t = "refreshRound K j TickerFired (inst S i)"
  have tab: "tab (world (base ?t)) = tab w'"
    using True r by (simp add: refreshRound_def Let_def handle_def)
  have stop: "\<not> live ?t j" if "r = Inl e" "\<not> transient r" for e
    using True r that by (auto simp: refreshRound_def Let_def handle_def live_def transient_def)
  show ?thesis
  proof (rule sys_inv_frame [OF inv])
    fix k l assume l: "live (ss_inst ?S k) l" and ok: "\<not> ss_shaky ?S k l"
    have lv: "live (ss_inst S k) l" using l refreshRound_frame(3) by (fastforce split: if_splits)
    show "leased (tab (ss_world ?S)) (handle S k l) (ss_due ?S k l + margin)"
    proof (cases "k = i \<and> l = j")
      case True
      with l ok stop r have "r = Inr ()" by (cases r) auto
      with w'(2) iss due show ?thesis using True
        by (auto simp: tab leased_def owns_def margin_def)
    next
      case False
      have "slot S k l" using lv by (simp add: live_def)
      with False \<open>slot S i j \<and> _\<close> have ne: "handle S k l \<noteq> ?h" using sys_invD(2) [OF inv, of l k j i] by metis
      have le: "leased ?T (handle S k l) (ss_due S k l + margin)" using sys_invD(4) [OF inv lv] ok False by auto
      from w'(1) have "leased (tab w') (handle S k l) (ss_due S k l + margin)"
      proof
        assume "owns ?T ?h \<and> tab w' = prolong key lockTTL ?T"
        then show ?thesis using leased_other(2) [OF le] ne iss by (auto simp: owns_def)
      qed (use le in simp)
      then show ?thesis using False tab by auto
    qed
  qed (use w'(1) in \<open>auto simp: refreshRound_frame tab split: if_splits\<close>)
qed

lemma sys_step_inv:
  assumes E: "redis E = R" and slack: "slack < margin" and inv: "sys_inv tab S" and step: "sys_step E K tab slack rs S S'"
  shows "sys_inv tab S'"
  using step
proof cases
  case (obtained i key lock fresh t t')
  then obtain b where b: "tryObtainLock E K (rs i) key (base (inst S i)) = Some (Ok (lock, fresh), b)"
    and t: "t = (inst S i)\<lparr>base := b\<rparr>" by (auto simp: onBase_def split: option.splits)
  from tryObtain_effect [OF E b] have "attempt_effect key (tab (ss_world S)) (tab (world b)) (Ok lock)" by simp
  from sys_inv_obtained [OF inv this, of i fresh] obtained(1,3) t show ?thesis
    by (auto simp: keepLock_def split: if_splits)
next
  case (not_obtained i key e t)
  then obtain b where b: "tryObtainLock E K (rs i) key (base (inst S i)) = Some (Err e, b)"
    and t: "t = (inst S i)\<lparr>base := b\<rparr>" by (auto simp: onBase_def split: option.splits)
  from tryObtain_effect [OF E b] have "tab (world b) = tab (ss_world S)" by (simp add: attempt_effect_def)
  with step_same_locks [OF inv, of t i] t not_obtained show ?thesis by (simp add: live_def)
next
  case (unlock i name r t)
  then show ?thesis using step_unlock [OF E inv] by simp
next
  case (tick i j)
  then show ?thesis using step_tick [OF inv] by simp
next
  case (cancelled i j)
  have "tab (world (base (refreshRound K j ContextDone (inst S i)))) = tab (ss_world S)" by (simp add: refreshRound_def)
  from step_same_locks [OF inv this] refreshRound_frame [where s = "inst S i"] cancelled(1) show ?thesis by simp
next
  case (reload i r t)
  then obtain b where b: "Cleanup E (rs i) (base (inst S i)) = Some (r, b)"
    and t: "t = (inst S i)\<lparr>base := b\<rparr>" by (auto simp: onBase_def split: option.splits)
  from step_same_locks [OF inv, of t i] Cleanup_tab [OF E b] t reload(1) show ?thesis by (simp add: live_def)
next
  case (outside w)
  then show ?thesis using inv by (simp add: sys_inv_def handle_def)
next
  case (time w d)
  show ?thesis unfolding time(1)
  proof (rule sys_inv_frame [OF inv])
    fix k j assume "live (ss_inst (S\<lparr>ss_world := w\<rparr>) k) j" and "\<not> ss_shaky (S\<lparr>ss_world := w\<rparr>) k j"
    then have l: "live (ss_inst S k) j" "\<not> ss_shaky S k j" by simp_all
    have "lt_now (tab (ss_world S)) + d < ss_due S k j + margin" using time(4) l(1) slack by fastforce
    from leased_other(4) [OF sys_invD(4) [OF inv l] this]
    show "leased (tab (ss_world (S\<lparr>ss_world := w\<rparr>))) (handle S k j) (ss_due (S\<lparr>ss_world := w\<rparr>) k j + margin)"
      using time(2) by simp
  qed (simp_all add: time(2))
qed

lemma sys_reach_inv:
  assumes E: "redis E = R" and slack: "slack < margin" and "sys_reach E K tab slack rs S"
  shows "sys_inv tab S"
  using assms(3)
proof induction
  case (start S)
  then show ?case by (simp add: sys_inv_def live_def)
next
  case (step S S')
  then show ?case by (blast intro: sys_step_inv [OF E slack])
qed

text \<open>Two holders of a key are the same instance, and the server agrees with them.\<close>

lemma holds_owner:
  assumes "sys_inv tab S" and "holds S i key"
  shows "\<exists>h. held (ss_inst S i) key = Some h \<and> lt_owner (tab (ss_world S)) key = Some (hl_lock h)"
proof -
  from assms(2) obtain h where h: "held (ss_inst S i) key = Some h" "live (ss_inst S i) (hl_cancel h)"
    "\<not> ss_shaky S i (hl_cancel h)" by (auto simp: holds_def)
  from sys_invD(3) [OF assms(1) h(1)] sys_invD(4) [OF assms(1) h(2,3)] h(1) show ?thesis
    by (auto dest: leased_owner)
qed

lemma mutual_exclusion:
  assumes inv: "sys_inv tab S" and "holds S i key" and "holds S i' key"
  shows "i = i'"
proof -
  from holds_owner [OF inv assms(2)] holds_owner [OF inv assms(3)] obtain h h' where
    h: "held (ss_inst S i) key = Some h" "held (ss_inst S i') key = Some h'" "hl_lock h = hl_lock h'" by auto
  from sys_invD(3) [OF inv h(1)] sys_invD(3) [OF inv h(2)] h(3) sys_invD(2) [OF inv] show ?thesis by metis
qed

end

subsection \<open>Mutual exclusion\<close>

text \<open>
  C5. Mutual exclusion with time: goroutines handle their ticks with a delay below two seconds
  (the time to live of five seconds less the interval of three), refreshes may fail, locks expire
  on the server. In every reachable state of any number of instances, two instances that hold the
  same key, with a live goroutine that is not retrying a failed refresh, are the same instance, and
  the server names its lock as the owner of the key.
\<close>

theorem lock_mutual_exclusion:
  assumes "lock_service R view up closed reach K tab" and "redis E = R"
    and "slack < sint lockTTL - sint lockRefreshInterval" and "sys_reach E K tab slack rs S"
    and "holds S i key" and "holds S i' key"
  shows "i = i' \<and> (\<exists>h. held (ss_inst S i) key = Some h \<and> lt_owner (tab (ss_world S)) key = Some (hl_lock h))"
proof -
  have inv: "sys_inv tab S" by (rule lock_service.sys_reach_inv [OF assms(1,2) assms(3) [folded margin_def] assms(4)])
  show ?thesis
    using lock_service.mutual_exclusion [OF assms(1) inv assms(5,6)] lock_service.holds_owner [OF assms(1) inv assms(5)]
    by blast
qed

text \<open>Two instances on the in-memory server, with ticks handled on time.\<close>

definition ex_env :: "mem sysenv" where
  "ex_env = \<lparr>redis = mem_api True [], ReadFile = (\<lambda>_. Inl (errors_New ''no such file'')), AppendCertsFromPEM = (\<lambda>_. False)\<rparr>"

definition ex_locking :: RedisStorage where
  "ex_locking = New\<lparr>Address := [''127.0.0.1:6379''], client := Some 0, locker := Some 0, locks := True\<rparr>"

definition ex_server :: "cstatus \<Rightarrow> mem" where
  "ex_server cs = \<lparr>mem_db = Map.empty, mem_clients = [cs], mem_reach = True, mem_owner = Map.empty, mem_handles = [],
     mem_expires = Map.empty, mem_now = 0\<rparr>"

abbreviation lk_step :: "mem system \<Rightarrow> mem system \<Rightarrow> bool" where
  "lk_step \<equiv> sys_step ex_env mem_locks mem_tab 0 (\<lambda>_. ex_locking)"

abbreviation lk_reach :: "mem system \<Rightarrow> bool" where
  "lk_reach \<equiv> sys_reach ex_env mem_locks mem_tab 0 (\<lambda>_. ex_locking)"

text \<open>The state of an instance that has the key ''k'' with the first goroutine, and the server at a time.\<close>

definition lk_proc :: "mem \<Rightarrow> mem proc" where
  "lk_proc w = \<lparr>reconnectCount = 0, reconnectMetric = 0, world = w\<rparr>"

definition lk_holder :: "nat \<Rightarrow> mem \<Rightarrow> mem lstate" where
  "lk_holder h w = \<lparr>base = lk_proc w, held = [''k'' \<mapsto> \<lparr>hl_lock = h, hl_cancel = 0, freshClient = None\<rparr>],
     refreshers = [\<lparr>rf_lock = h, rf_cancelled = False, rf_running = True\<rparr>]\<rparr>"

definition lk_world :: "cstatus \<Rightarrow> int \<Rightarrow> int \<Rightarrow> mem" where
  "lk_world cs now expires = \<lparr>mem_db = Map.empty, mem_clients = [cs], mem_reach = True,
     mem_owner = (if expires \<le> now then Map.empty else [''k'' \<mapsto> 0]),
     mem_handles = [(''k'', 0)], mem_expires = [''k'' \<mapsto> expires], mem_now = now\<rparr>"

definition ex_system :: "mem system" where
  "ex_system = \<lparr>ss_world = ex_server COpen, ss_inst = (\<lambda>_. mem_lstate (ex_server COpen)),
     ss_due = (\<lambda>_ _. 0), ss_shaky = (\<lambda>_ _. False)\<rparr>"

text \<open>The system after the first instance got its lock at time 0: world, last state written by the instance, next tick.\<close>

definition lk_sys :: "mem \<Rightarrow> mem \<Rightarrow> int \<Rightarrow> bool \<Rightarrow> mem system" where
  "lk_sys w v due shaky = \<lparr>ss_world = w, ss_inst = (ss_inst ex_system)(0 := lk_holder 0 v),
     ss_due = (\<lambda>_ _. 0)(0 := (\<lambda>_. 0)(0 := due)), ss_shaky = (\<lambda>_ _. False)(0 := (\<lambda>_. False)(0 := shaky))\<rparr>"

lemma lk_simps [simp]:
  "mem_now (lk_world cs a e) = a" "mem_expires (lk_world cs a e) = [''k'' \<mapsto> e]" "mem_handles (lk_world cs a e) = [(''k'', 0)]"
  "mem_owner (lk_world cs a e) = (if e \<le> a then Map.empty else [''k'' \<mapsto> 0])" "mem_status (lk_world cs a e) 0 = Some cs"
  "ss_world (lk_sys w v due shaky) = w" "ss_inst (lk_sys w v due shaky) = (ss_inst ex_system)(0 := lk_holder 0 v)"
  "ss_due (lk_sys w v due shaky) 0 0 = due" "ss_world_update (\<lambda>_. w') (lk_sys w v due shaky) = lk_sys w' v due shaky"
  "refreshers (lk_holder h w) = [\<lparr>rf_lock = h, rf_cancelled = False, rf_running = True\<rparr>]"
  "held (lk_holder h w) = [''k'' \<mapsto> \<lparr>hl_lock = h, hl_cancel = 0, freshClient = None\<rparr>]"
  "world (base (lk_holder h w)) = w" "refreshers (ss_inst ex_system i) = []"
  by (simp_all add: lk_world_def lk_sys_def lk_holder_def lk_proc_def mem_status_def ex_system_def mem_lstate_def)

lemma mem_tab_simps [simp]:
  "lt_now (mem_tab w) = mem_now w" "lt_owner (mem_tab w) = mem_owner w" "lt_expires (mem_tab w) = mem_expires w"
  by (simp_all add: mem_tab_def)


lemma lk_pass: "a < e \<Longrightarrow> mem_tab (lk_world cs b e) = pass (b - a) (mem_tab (lk_world cs a e))"
  by (auto simp: mem_tab_def pass_def expired_def fun_eq_iff)

lemmas lk_steps =
  sys_step.obtained [where E = ex_env and K = mem_locks and tab = mem_tab and slack = 0 and rs = "\<lambda>_. ex_locking"]
  sys_step.tick [where E = ex_env and K = mem_locks and tab = mem_tab and slack = 0 and rs = "\<lambda>_. ex_locking"]
  sys_step.outside [where E = ex_env and K = mem_locks and tab = mem_tab and slack = 0 and rs = "\<lambda>_. ex_locking"]
  sys_step.time [where E = ex_env and K = mem_locks and tab = mem_tab and slack = 0 and rs = "\<lambda>_. ex_locking"]

lemma sint_durations: "sint lockTTL = 5000000000" "sint lockRefreshInterval = 3000000000"
  by (simp_all add: lockTTL_def lockRefreshInterval_def second_def)

lemma ex_obtain:
  assumes "mem_up w 0" and "mem_owner w key = None" and "world b = w"
  shows "tryObtainLock ex_env mem_locks ex_locking key b = Some (Ok (length (mem_handles w), None),
    b\<lparr>world := w\<lparr>mem_owner := (mem_owner w)(key \<mapsto> length (mem_handles w)), mem_handles := mem_handles w @ [(key, 0)],
               mem_expires := (mem_expires w)(key \<mapsto> mem_now w + sint lockTTL)\<rparr>\<rparr>)"
  using assms by (simp add: tryObtainLock_def mem_locks_def ex_locking_def call_def prog_simps)

lemma lk_start: "lk_reach (lk_sys (lk_world COpen 0 5000000000) (lk_world COpen 0 5000000000) 3000000000 False)"
proof (rule sys_reach.step)
  show "lk_reach ex_system" by (rule sys_reach.start) (simp add: ex_system_def mem_lstate_def)
  have i: "inst ex_system 0 = mem_lstate (ex_server COpen)"
    by (simp add: inst_def ex_system_def mem_lstate_def)
  have t: "onBase (tryObtainLock ex_env mem_locks ex_locking ''k'') (inst ex_system 0) = Some (Ok (0, None),
      (mem_lstate (ex_server COpen))\<lparr>base := lk_proc (lk_world COpen 0 5000000000)\<rparr>)"
    unfolding i by (simp add: onBase_def, subst ex_obtain)
      (auto simp: ex_server_def mem_lstate_def mem_up_def mem_status_def sint_durations lk_world_def lk_proc_def)
  have k: "keepLock ex_locking ''k'' 0 None ((mem_lstate (ex_server COpen))\<lparr>base := lk_proc (lk_world COpen 0 5000000000)\<rparr>)
      = Some (Ok (), lk_holder 0 (lk_world COpen 0 5000000000))"
    by (simp add: keepLock_def ex_locking_def mem_lstate_def lk_holder_def)
  have "lk_sys (lk_world COpen 0 5000000000) (lk_world COpen 0 5000000000) 3000000000 False =
      note_round 0 0 3000000000 False (put_inst ex_system 0 (lk_holder 0 (lk_world COpen 0 5000000000)))"
    by (simp add: lk_sys_def note_round_def put_inst_def ex_system_def lk_holder_def lk_proc_def fun_eq_iff)
  with lk_steps(1) [OF t k]
  show "lk_step ex_system (lk_sys (lk_world COpen 0 5000000000) (lk_world COpen 0 5000000000) 3000000000 False)"
    by (simp add: mem_lstate_def lk_holder_def lk_proc_def mem_tab_def lk_world_def sint_durations)
qed

lemma lk_time:
  assumes "lk_reach (lk_sys (lk_world cs a e) v due shaky)" and "a \<le> b" and "b \<le> due" and "a < e"
  shows "lk_reach (lk_sys (lk_world cs b e) v due shaky)"
proof -
  have "\<forall>i j. live (ss_inst (lk_sys (lk_world cs a e) v due shaky) i) j \<longrightarrow>
      lt_now (mem_tab (ss_world (lk_sys (lk_world cs a e) v due shaky))) + (b - a) \<le> ss_due (lk_sys (lk_world cs a e) v due shaky) i j + 0"
    using assms(3) by (auto simp: live_def)
  moreover have "mem_tab (lk_world cs b e) = pass (b - a) (mem_tab (ss_world (lk_sys (lk_world cs a e) v due shaky)))"
    using lk_pass [OF assms(4), of cs b] by simp
  moreover have "b - a \<ge> 0" using assms(2) by simp
  ultimately show ?thesis using sys_reach.step [OF assms(1) lk_steps(4)] unfolding lk_simps by blast
qed


lemma lk_tick:
  assumes "lk_reach (lk_sys (lk_world cs a e) v due shaky)" and "due \<le> a" and "a < e" and "cs \<noteq> CClosed"
  shows "lk_reach (lk_sys (lk_world cs a (if cs = COpen then a + 5000000000 else e))
      (lk_world cs a (if cs = COpen then a + 5000000000 else e)) (due + 3000000000) (cs \<noteq> COpen))"
proof -
  let ?S = "lk_sys (lk_world cs a e) v due shaky" and ?w = "lk_world cs a (if cs = COpen then a + 5000000000 else e)"
  have r: "lk_Refresh mem_locks lockTTL 0 (lk_world cs a e) = (if cs = COpen then Inr () else Inl netErr, ?w)"
    using assms(3,4) by (cases cs) (auto simp: mem_locks_def lk_world_def mem_up_def mem_closed_def mem_fail_def mem_status_def sint_durations)
  have tr: "transient (Inl netErr)" "netErr \<noteq> errNotObtained" "\<not> isClientClosedErr netErr"
    by (simp_all add: transient_def netErr_def errNotObtained_def errors_New_def isClientClosedErr_def HasPrefix_def)
  have i: "inst ?S 0 = lk_holder 0 (lk_world cs a e)"
    by (simp add: inst_def) (simp add: lk_holder_def lk_proc_def)
  have round: "refreshRound mem_locks 0 TickerFired (inst ?S 0) = lk_holder 0 ?w"
    unfolding i refreshRound_def using r tr by (cases "cs = COpen") (simp_all add: Let_def lk_holder_def lk_proc_def)
  have h: "handle ?S 0 0 = 0" by (simp add: handle_def)
  have sh: "transient (fst (lk_Refresh mem_locks lockTTL (handle ?S 0 0) (lk_world cs a e))) = (cs \<noteq> COpen)"
    using r tr(1) by (simp add: h transient_def)
  have S': "note_round 0 0 (due + 3000000000) (cs \<noteq> COpen) (put_inst ?S 0 (lk_holder 0 ?w)) = lk_sys ?w ?w (due + 3000000000) (cs \<noteq> COpen)"
    by (simp add: note_round_def put_inst_def fun_eq_iff) (simp add: lk_sys_def fun_eq_iff)
  have "wakes (inst ?S 0) 0 TickerFired" "ss_due ?S 0 0 \<le> lt_now (mem_tab (ss_world ?S))"
    using assms(2) by (simp_all add: wakes_def)
  from sys_reach.step [OF assms(1) lk_steps(2) [OF this]] show ?thesis
    unfolding round sh sint_durations lk_simps S' .
qed

text \<open>The lock is refreshed after three seconds and still held after six, beyond its first time to live.\<close>

theorem lock_mutual_exclusion_witness:
  "(0::nat) = 0 \<and> (\<exists>h. held (ss_inst (lk_sys (lk_world COpen 6000000000 8000000000) (lk_world COpen 3000000000 8000000000) 6000000000 False) 0) ''k'' = Some h
     \<and> lt_owner (mem_tab (ss_world (lk_sys (lk_world COpen 6000000000 8000000000) (lk_world COpen 3000000000 8000000000) 6000000000 False))) ''k''
       = Some (hl_lock h))"
proof (rule lock_mutual_exclusion [OF memlock.lock_service_axioms])
  have "lk_reach (lk_sys (lk_world COpen 3000000000 5000000000) (lk_world COpen 0 5000000000) 3000000000 False)"
    by (rule lk_time [OF lk_start]) simp_all
  from lk_tick [OF this] have "lk_reach (lk_sys (lk_world COpen 3000000000 8000000000) (lk_world COpen 3000000000 8000000000) 6000000000 False)"
    by simp
  then show "lk_reach (lk_sys (lk_world COpen 6000000000 8000000000) (lk_world COpen 3000000000 8000000000) 6000000000 False)"
    by (rule lk_time) simp_all
  show "holds (lk_sys (lk_world COpen 6000000000 8000000000) (lk_world COpen 3000000000 8000000000) 6000000000 False) 0 ''k''"
    "holds (lk_sys (lk_world COpen 6000000000 8000000000) (lk_world COpen 3000000000 8000000000) 6000000000 False) 0 ''k''"
    by (simp_all add: holds_def live_def) (simp_all add: lk_sys_def)
qed (simp_all add: ex_env_def sint_durations)


subsection \<open>The outcomes of the loop\<close>

text \<open>\<open>polled s t\<close>: from \<open>s\<close>, some attempts failed with \<open>ErrNotObtained\<close> and were waited for; the next one is in \<open>t\<close>.\<close>

inductive polled :: "'w sysenv \<Rightarrow> 'w lock_api \<Rightarrow> RedisStorage \<Rightarrow> ('w lstate \<Rightarrow> go_error option \<times> 'w lstate) \<Rightarrow> string
    \<Rightarrow> 'w lstate \<Rightarrow> 'w lstate \<Rightarrow> bool" for E K rs wait key where
  here: "polled E K rs wait key s s"
| again: "onBase (tryObtainLock E K rs key) s = Some (Err errNotObtained, s1) \<Longrightarrow> wait s1 = (None, s2) \<Longrightarrow>
     polled E K rs wait key s2 t \<Longrightarrow> polled E K rs wait key s t"

text \<open>How the attempt in \<open>t\<close> ends the loop.\<close>

definition last_attempt :: "'w sysenv \<Rightarrow> 'w lock_api \<Rightarrow> RedisStorage \<Rightarrow> ('w lstate \<Rightarrow> go_error option \<times> 'w lstate) \<Rightarrow> string
    \<Rightarrow> 'w lstate \<Rightarrow> unit outcome \<times> 'w lstate \<Rightarrow> bool" where
  "last_attempt E K rs wait key t y \<longleftrightarrow> (\<exists>r t'. onBase (tryObtainLock E K rs key) t = Some (r, t') \<and>
     (case r of
        Panic \<Rightarrow> y = (Panic, t')
      | Ok (lock, fresh) \<Rightarrow> keepLock rs key lock fresh t' = Some y
      | Err e \<Rightarrow> if e = errNotObtained then \<exists>ctxErr s'. wait t' = (Some ctxErr, s') \<and> y = (Err ctxErr, s')
          else y = (Err (errorf_v (''Unable to obtain lock for '' @ key @ '': '') e), t')))"

lemma Lock_loop_outcome:
  assumes "Lock_loop E K rs wait key s = Some y"
  shows "\<exists>t. polled E K rs wait key s t \<and> last_attempt E K rs wait key t y"
proof (rule Lock_loop.raw_induct [where P = "\<lambda>E K rs wait key s y. \<exists>t. polled E K rs wait key s t \<and> last_attempt E K rs wait key t y", OF _ assms])
  fix loop :: "'a sysenv \<Rightarrow> 'a lock_api \<Rightarrow> RedisStorage \<Rightarrow> ('a lstate \<Rightarrow> go_error option \<times> 'a lstate) \<Rightarrow> string
      \<Rightarrow> 'a lstate \<Rightarrow> (unit outcome \<times> 'a lstate) option"
    and E K rs wait key s y
  assume IH: "\<And>E K rs wait key s y. loop E K rs wait key s = Some y \<Longrightarrow> \<exists>t. polled E K rs wait key s t \<and> last_attempt E K rs wait key t y"
    and run: "(case onBase (tryObtainLock E K rs key) s of
        None \<Rightarrow> None
      | Some (Ok (lock, fresh), s) \<Rightarrow> keepLock rs key lock fresh s
      | Some (Err err, s) \<Rightarrow>
          if err \<noteq> errNotObtained then throw (errorf_v (''Unable to obtain lock for '' @ key @ '': '') err) s
          else (case wait s of (None, s) \<Rightarrow> loop E K rs wait key s | (Some ctxErr, s) \<Rightarrow> throw ctxErr s)
      | Some (Panic, s) \<Rightarrow> Some (Panic, s)) = Some y"
  then obtain r s1 where o1: "onBase (tryObtainLock E K rs key) s = Some (r, s1)" by (auto split: option.splits)
  obtain c s2 where w: "wait s1 = (c, s2)" by fastforce
  show "\<exists>t. polled E K rs wait key s t \<and> last_attempt E K rs wait key t y"
  proof (cases "r = Err errNotObtained \<and> c = None")
    case True
    with run o1 w have "loop E K rs wait key s2 = Some y" by simp
    from IH [OF this] True o1 w show ?thesis by (blast intro: polled.again)
  next
    case False
    with run o1 w have "last_attempt E K rs wait key s y"
      by (cases r; cases c) (auto simp: last_attempt_def throw_def split: if_splits prod.splits)
    then show ?thesis by (blast intro: polled.here)
  qed
qed

lemma ex_lock_key: "prefixLock ex_locking ''k'' = ''caddy/locks/k''"
  using prefixLock_canon [of ex_locking "[''caddy'']" "[''k'']"]
  by (simp add: ex_locking_def New_def defaultKeyPrefix_def seg_ok_def)

lemma ex_usable_lock: "cs \<noteq> CDown \<Longrightarrow>
    usable_with mem_up mem_closed mem_reachable ex_env ex_locking (base (mem_lstate (ex_server cs)))"
  by (cases cs) (auto simp: usable_with_def ex_locking_def ex_env_def ex_server_def mem_lstate_def mem_up_def mem_closed_def
      mem_status_def client_plan_def tls_options_def New_def default_defs)

lemma ex_locking_simps [simp]: "locker ex_locking = client ex_locking" "locks ex_locking" "redis ex_env = mem_api True []"
  by (simp_all add: ex_locking_def ex_env_def)

text \<open>
  C16. Every return of \<open>Lock\<close>, after any number of attempts that failed with \<open>ErrNotObtained\<close> and
  were waited for. Success: in the last attempt the key was free, and now the server names the new
  lock as its owner, the map of held locks has it and a refresh goroutine runs for it. An error is
  the one of the context, which ended during the wait after an attempt that found the key taken; or
  it wraps the error of the last attempt, which is not \<open>ErrNotObtained\<close>, and then the storage could
  not reach the server. An error changes neither the server's locks nor the map in the last attempt.
\<close>

theorem lock_outcomes:
  assumes "lock_service R view up closed reach K tab" and "redis E = R" and "locker rs = client rs"
    and "Lock E K rs wait name s = Some (r, s')"
  shows "\<exists>t. polled E K rs wait (prefixLock rs name) s t \<and> (case r of
      Panic \<Rightarrow> \<not> locks rs \<or> (\<exists>t'. onBase (tryObtainLock E K rs (prefixLock rs name)) t = Some (Panic, t'))
    | Ok _ \<Rightarrow> lt_owner (tab (world (base t))) (prefixLock rs name) = None \<and> locks rs
        \<and> (\<exists>h. held s' = (held t)(prefixLock rs name \<mapsto> h) \<and> lt_owner (tab (world (base s'))) (prefixLock rs name) = Some (hl_lock h)
          \<and> hl_cancel h = length (refreshers t)
          \<and> refreshers s' = refreshers t @ [\<lparr>rf_lock = hl_lock h, rf_cancelled = False, rf_running = True\<rparr>])
    | Err e \<Rightarrow> (\<exists>e' t'. onBase (tryObtainLock E K rs (prefixLock rs name)) t = Some (Err e', t')
        \<and> tab (world (base t')) = tab (world (base t)) \<and> held t' = held t \<and> refreshers t' = refreshers t
        \<and> (if e' = errNotObtained then wait t' = (Some e, s')
           else e = errorf_v (''Unable to obtain lock for '' @ prefixLock rs name @ '': '') e' \<and> s' = t'
             \<and> \<not> usable_with up closed reach E rs (base t))))"
proof -
  let ?k = "prefixLock rs name"
  obtain t where t: "polled E K rs wait ?k s t" "last_attempt E K rs wait ?k t (r, s')"
    using Lock_loop_outcome [OF assms(4) [unfolded Lock_def]] by blast
  from t(2) obtain r1 t' where r1: "onBase (tryObtainLock E K rs ?k) t = Some (r1, t')"
    by (auto simp: last_attempt_def)
  then obtain b where b: "tryObtainLock E K rs ?k (base t) = Some (r1, b)" "t' = t\<lparr>base := b\<rparr>"
    by (auto simp: onBase_def split: option.splits)
  note eff = lock_service.tryObtain_effect [OF assms(1,2) b(1)]
  have reach: "r1 = Err errNotObtained \<or> (\<exists>x. r1 = Ok x)" if "usable_with up closed reach E rs (base t)"
  proof (cases "lt_owner (tab (world (base t))) ?k")
    case None
    from lock_service.tryObtain_free [OF assms(1,2) that assms(3) None] b show ?thesis by (metis option.inject prod.inject)
  next
    case (Some o')
    then have "lt_owner (tab (world (base t))) ?k \<noteq> None" by simp
    from lock_service.tryObtain_taken [OF assms(1,2) that assms(3) this] b show ?thesis by (metis option.inject prod.inject)
  qed
  show ?thesis
    by (rule exI [of _ t], rule conjI [OF t(1)])
       (use t(2) r1 b(2) eff reach in \<open>auto simp: last_attempt_def keepLock_def attempt_effect_def split: outcome.splits prod.splits if_splits\<close>)
qed

text \<open>
  C10. \<open>Lock\<close> and then \<open>Unlock\<close> on a free key, also when the cached client was closed: both succeed,
  the server has the lock in between, and afterwards the server's locks, the map of held locks and
  the set of open clients are as before, with the refresh goroutine cancelled.
\<close>

theorem lock_unlock_roundtrip:
  assumes "lock_service R view up closed reach K tab" and "redis E = R"
    and "usable_with up closed reach E rs (base s)" and "locker rs = client rs" and "locks rs"
    and "lt_owner (tab (world (base s))) (prefixLock rs name) = None" and "held s (prefixLock rs name) = None"
  shows "\<exists>s1 s2. Lock E K rs wait name s = Some (Ok (), s1) \<and> Unlock E K rs name s1 = Some (Ok (), s2)
    \<and> lt_owner (tab (world (base s1))) (prefixLock rs name) \<noteq> None
    \<and> lt_owner (tab (world (base s2))) = lt_owner (tab (world (base s))) \<and> held s2 = held s
    \<and> up (world (base s2)) = up (world (base s)) \<and> rf_cancelled (last (refreshers s2))"
  using lock_service.lock_unlock [OF assms] .

theorem lock_unlock_roundtrip_witness:
  "\<exists>s1 s2. Lock ex_env mem_locks ex_locking (\<lambda>s. (None, s)) ''k'' (mem_lstate (ex_server CClosed)) = Some (Ok (), s1)
    \<and> Unlock ex_env mem_locks ex_locking ''k'' s1 = Some (Ok (), s2)
    \<and> lt_owner (mem_tab (world (base s1))) (prefixLock ex_locking ''k'') \<noteq> None
    \<and> lt_owner (mem_tab (world (base s2))) = lt_owner (mem_tab (world (base (mem_lstate (ex_server CClosed)))))
    \<and> held s2 = held (mem_lstate (ex_server CClosed))
    \<and> mem_up (world (base s2)) = mem_up (world (base (mem_lstate (ex_server CClosed)))) \<and> rf_cancelled (last (refreshers s2))"
  by (rule lock_unlock_roundtrip [OF memlock.lock_service_axioms _ ex_usable_lock])
     (simp_all add: mem_tab_def mem_lstate_def ex_server_def)

theorem lock_outcomes_witness:
  "\<exists>s'. Lock ex_env mem_locks ex_locking (\<lambda>s. (None, s)) ''k'' (mem_lstate (ex_server COpen)) = Some (Ok (), s')
    \<and> (\<exists>t h. polled ex_env mem_locks ex_locking (\<lambda>s. (None, s)) (prefixLock ex_locking ''k'') (mem_lstate (ex_server COpen)) t
        \<and> held s' = (held t)(prefixLock ex_locking ''k'' \<mapsto> h)
        \<and> lt_owner (mem_tab (world (base s'))) (prefixLock ex_locking ''k'') = Some (hl_lock h)
        \<and> refreshers s' = refreshers t @ [\<lparr>rf_lock = hl_lock h, rf_cancelled = False, rf_running = True\<rparr>])"
proof -
  obtain s' where s': "Lock ex_env mem_locks ex_locking (\<lambda>s. (None, s)) ''k'' (mem_lstate (ex_server COpen)) = Some (Ok (), s')"
    using memlock.lock_unlock [of ex_env True "[]" ex_locking "mem_lstate (ex_server COpen)" "''k''" "\<lambda>s. (None, s)"]
      ex_usable_lock [of COpen] by (auto simp: mem_tab_def mem_lstate_def ex_server_def)
  have "redis ex_env = mem_api True []" "locker ex_locking = client ex_locking" by simp_all
  from lock_outcomes [OF memlock.lock_service_axioms this s'] s' show ?thesis by simp blast
qed

text \<open>
  C9. \<open>Lock\<close> waits: if the key is taken for some rounds of polling during which the context does
  not end, and then becomes free, \<open>Lock\<close> returns successfully as the owner of the key, with a
  running refresh goroutine.
\<close>

theorem lock_waits_until_free:
  assumes "lock_service R view up closed reach K tab" and "redis E = R" and "locker rs = client rs" and "locks rs"
    and "freed_after tab (usable_with up closed reach E rs) wait (prefixLock rs name) n s"
  shows "\<exists>h s'. Lock E K rs wait name s = Some (Ok (), s') \<and> held s' (prefixLock rs name) = Some h
    \<and> lt_owner (tab (world (base s'))) (prefixLock rs name) = Some (hl_lock h) \<and> hl_cancel h < length (refreshers s')
    \<and> refreshers s' ! hl_cancel h = \<lparr>rf_lock = hl_lock h, rf_cancelled = False, rf_running = True\<rparr>"
  using lock_service.Lock_eventually [OF assms] unfolding Lock_def .

text \<open>A wait during which the other holder's lock goes away.\<close>

definition ex_wait :: "mem lstate \<Rightarrow> go_error option \<times> mem lstate" where
  "ex_wait s = (None, s\<lparr>base := (base s)\<lparr>world := (world (base s))\<lparr>mem_owner := Map.empty\<rparr>\<rparr>\<rparr>)"

definition ex_taken :: "mem lstate" where
  "ex_taken = mem_lstate ((ex_server COpen)\<lparr>mem_owner := [prefixLock ex_locking ''k'' \<mapsto> 0], mem_handles := [(''caddy/locks/k'', 0)]\<rparr>)"

theorem lock_waits_until_free_witness:
  "\<exists>h s'. Lock ex_env mem_locks ex_locking ex_wait ''k'' ex_taken = Some (Ok (), s')
    \<and> held s' (prefixLock ex_locking ''k'') = Some h
    \<and> lt_owner (mem_tab (world (base s'))) (prefixLock ex_locking ''k'') = Some (hl_lock h) \<and> hl_cancel h < length (refreshers s')
    \<and> refreshers s' ! hl_cancel h = \<lparr>rf_lock = hl_lock h, rf_cancelled = False, rf_running = True\<rparr>"
proof (rule lock_waits_until_free [OF memlock.lock_service_axioms, where n = 1])
  have use: "usable_with mem_up mem_closed mem_reachable ex_env ex_locking (b\<lparr>world := (world b)\<lparr>mem_owner := x\<rparr>\<rparr>)"
    if "usable_with mem_up mem_closed mem_reachable ex_env ex_locking b" for b x
    using that by (simp add: usable_with_def mem_up_def mem_closed_def)
  have "usable_with mem_up mem_closed mem_reachable ex_env ex_locking (base ex_taken)"
    using ex_usable_lock [of COpen] by (simp add: usable_with_def ex_taken_def mem_lstate_def mem_up_def mem_closed_def)
  then show "freed_after mem_tab (usable_with mem_up mem_closed mem_reachable ex_env ex_locking) ex_wait (prefixLock ex_locking ''k'') 1 ex_taken"
    using use by (simp add: ex_wait_def mem_tab_def) (simp add: ex_taken_def mem_lstate_def)
qed simp_all

text \<open>
  C17. \<open>Unlock\<close> of a lock that was lost or whose client was closed: the entry is removed, the
  goroutine is cancelled and the one-shot client is closed all the same; a closed client is not
  an error, a lost lock is reported.
\<close>

theorem unlock_always_cleans_up:
  assumes "lock_service R view up closed reach K tab" and "redis E = R" and "locks rs"
    and "held s (prefixLock rs name) = Some h" and "lt_issued (tab (world (base s))) (hl_lock h) = Some (key, c)"
    and "up (world (base s)) c \<and> \<not> owns (tab (world (base s))) (hl_lock h) \<or> closed (world (base s)) c"
  shows "\<exists>s'. Unlock E K rs name s =
      Some (if closed (world (base s)) c then Ok ()
        else Err (errorf_v (''Unable to release lock for '' @ prefixLock rs name @ '': '') errLockNotHeld), s')
    \<and> held s' = (held s)(prefixLock rs name := None) \<and> tab (world (base s')) = tab (world (base s))
    \<and> up (world (base s')) = (case freshClient h of None \<Rightarrow> up (world (base s)) | Some f \<Rightarrow> (up (world (base s)))(f := False))
    \<and> refreshers s' = refreshers (cancelRefresher (hl_cancel h) s)"
  using lock_service.Unlock_other [OF assms] by metis

definition ex_lost :: "cstatus \<Rightarrow> mem lstate" where
  "ex_lost cs = (mem_lstate ((ex_server cs)\<lparr>mem_handles := [(''caddy/locks/k'', 0)]\<rparr>))
     \<lparr>held := [prefixLock ex_locking ''k'' \<mapsto> \<lparr>hl_lock = 0, hl_cancel = 0, freshClient = Some 0\<rparr>],
      refreshers := [\<lparr>rf_lock = 0, rf_cancelled = False, rf_running = True\<rparr>]\<rparr>"

theorem unlock_always_cleans_up_witness:
  "\<exists>s'. Unlock ex_env mem_locks ex_locking ''k'' (ex_lost COpen) =
      Some (if mem_closed (world (base (ex_lost COpen))) 0 then Ok ()
        else Err (errorf_v (''Unable to release lock for '' @ prefixLock ex_locking ''k'' @ '': '') errLockNotHeld), s')
    \<and> held s' = (held (ex_lost COpen))(prefixLock ex_locking ''k'' := None)
    \<and> mem_tab (world (base s')) = mem_tab (world (base (ex_lost COpen)))
    \<and> mem_up (world (base s')) = (case Some (0::nat) of None \<Rightarrow> mem_up (world (base (ex_lost COpen)))
         | Some f \<Rightarrow> (mem_up (world (base (ex_lost COpen))))(f := False))
    \<and> refreshers s' = refreshers (cancelRefresher 0 (ex_lost COpen))"
  using unlock_always_cleans_up [OF memlock.lock_service_axioms,
      of ex_env True "[]" ex_locking "ex_lost COpen" "''k''" "\<lparr>hl_lock = 0, hl_cancel = 0, freshClient = Some 0\<rparr>" "''caddy/locks/k''" 0]
  by (simp add: ex_lost_def mem_lstate_def ex_server_def mem_tab_def owns_def mem_up_def mem_status_def)

end
