(* ===== verification/Go_Net.thy ===== *)
theory Go_Net
  imports Go_Strings
begin

section \<open>Addresses and encodings of the Go library\<close>

text \<open>
  \<open>net.ParseIP\<close> with \<open>IsLoopback\<close>, \<open>encoding/hex\<close> and the raw URL form of
  \<open>encoding/base64\<close>, as far as the sources use them.
\<close>

subsection \<open>IP addresses\<close>

text \<open>The fields of a dotted quad: decimal without leading zeros, at most 255.\<close>

definition octet :: "string \<Rightarrow> nat option" where
  "octet f = (if f = [] \<or> \<not> list_all is_digit f \<or> length f > 1 \<and> hd f = CHR ''0'' \<or> decimal_val f > 255
     then None else Some (decimal_val f))"

definition ParseIPv4 :: "string \<Rightarrow> nat list option" where
  "ParseIPv4 s = (case map octet (Split CHR ''.'' s) of
       [Some a, Some b, Some c, Some d] \<Rightarrow> Some [a, b, c, d]
     | _ \<Rightarrow> None)"

definition hex_digit :: "char \<Rightarrow> nat option" where
  "hex_digit c = (if is_digit c then Some (byte c - byte (CHR ''0''))
     else if in_range (CHR ''a'') (CHR ''f'') c then Some (byte c - byte (CHR ''a'') + 10)
     else if in_range (CHR ''A'') (CHR ''F'') c then Some (byte c - byte (CHR ''A'') + 10)
     else None)"

definition hex_run :: "string \<Rightarrow> string" where
  "hex_run s = takeWhile (\<lambda>c. hex_digit c \<noteq> None) s"

definition hex_val :: "string \<Rightarrow> nat" where
  "hex_val ds = foldl (\<lambda>acc c. acc * 16 + (case hex_digit c of Some v \<Rightarrow> v | None \<Rightarrow> 0)) 0 ds"

text \<open>
  The loop of the IPv6 parser: the bytes read so far, where the double colon was, the rest of the
  text. The result is the bytes and the place of the double colon.
\<close>

function v6_loop :: "nat list \<Rightarrow> nat option \<Rightarrow> string \<Rightarrow> (nat list \<times> nat option) option" where
  "v6_loop ip ell s =
     (if length ip \<ge> 16 then (if s = [] then Some (ip, ell) else None)
      else
        let ds = hex_run s; rest = drop (length ds) s in
        if ds = [] \<or> length ds > 4 then None
        else if HasPrefix rest ''.''
        then (if ell = None \<and> length ip \<noteq> 12 \<or> length ip + 4 > 16 then None
              else case ParseIPv4 s of None \<Rightarrow> None | Some q \<Rightarrow> Some (ip @ q, ell))
        else
          let ip = ip @ [hex_val ds div 256, hex_val ds mod 256] in
          if rest = [] then Some (ip, ell)
          else if \<not> HasPrefix rest '':'' \<or> length rest = 1 then None
          else if HasPrefix rest ''::''
          then (if ell \<noteq> None then None
                else if length rest = 2 then Some (ip, Some (length ip))
                else v6_loop ip (Some (length ip)) (drop 2 rest))
          else v6_loop ip ell (drop 1 rest))"
  by pat_completeness auto
termination by (relation "measure (\<lambda>(ip, ell, s). 16 - length ip)") auto

declare v6_loop.simps [simp del]

definition ParseIPv6 :: "string \<Rightarrow> nat list option" where
  "ParseIPv6 s =
     (if s = ''::'' then Some (replicate 16 0)
      else case (if HasPrefix s ''::'' then v6_loop [] (Some 0) (drop 2 s) else v6_loop [] None s) of
        None \<Rightarrow> None
      | Some (ip, ell) \<Rightarrow>
          if length ip < 16
          then (case ell of None \<Rightarrow> None | Some e \<Rightarrow> Some (take e ip @ replicate (16 - length ip) 0 @ drop e ip))
          else (case ell of None \<Rightarrow> Some ip | Some e \<Rightarrow> None))"

text \<open>The first of dot, colon and percent sign decides; a zone is not accepted.\<close>

definition ParseIP :: "string \<Rightarrow> nat list option" where
  "ParseIP s = (case find (\<lambda>c. c \<in> {CHR ''.'', CHR '':'', CHR ''%''}) s of
       None \<Rightarrow> None
     | Some c \<Rightarrow> if c = CHR ''.'' then ParseIPv4 s
         else if c = CHR '':'' \<and> CHR ''%'' \<notin> set s then ParseIPv6 s else None)"

definition To4 :: "nat list \<Rightarrow> nat list option" where
  "To4 ip = (if length ip = 4 then Some ip
     else if take 12 ip = replicate 10 0 @ [255, 255] then Some (drop 12 ip) else None)"

definition IsLoopback :: "nat list \<Rightarrow> bool" where
  "IsLoopback ip = (case To4 ip of Some q \<Rightarrow> hd q = 127 | None \<Rightarrow> ip = replicate 15 0 @ [1])"

subsection \<open>Hexadecimal\<close>

definition hex_char :: "nat \<Rightarrow> char" where
  "hex_char d = (if d < 10 then char_of (48 + d) else char_of (87 + d))"

definition hex_EncodeToString :: "bytes \<Rightarrow> string" where
  "hex_EncodeToString bs = concat (map (\<lambda>c. [hex_char (byte c div 16), hex_char (byte c mod 16)]) bs)"

lemma hex_EncodeToString_length [simp]: "length (hex_EncodeToString bs) = 2 * length bs"
  by (induction bs) (simp_all add: hex_EncodeToString_def)

subsection \<open>Base64 in its raw URL form\<close>

definition b64_alphabet :: string where
  "b64_alphabet = ''ABCDEFGHIJKLMNOPQRSTUVWXYZabcdefghijklmnopqrstuvwxyz0123456789-_''"

definition b64_char :: "nat \<Rightarrow> char" where
  "b64_char v = b64_alphabet ! v"

definition b64_val :: "char \<Rightarrow> nat option" where
  "b64_val c = find (\<lambda>v. b64_char v = c) [0..<64]"

text \<open>On the values of bytes: six bits per character, the last group without padding.\<close>

fun b64_groups :: "nat list \<Rightarrow> nat list" where
  "b64_groups [] = []"
| "b64_groups [a] = [a div 4, a mod 4 * 16]"
| "b64_groups [a, b] = [a div 4, a mod 4 * 16 + b div 16, b mod 16 * 4]"
| "b64_groups (a # b # c # r) = [a div 4, a mod 4 * 16 + b div 16, b mod 16 * 4 + c div 64, c mod 64] @ b64_groups r"

text \<open>Strict decoding: the unused bits of the last character must be zero.\<close>

fun b64_bytes :: "nat list \<Rightarrow> nat list option" where
  "b64_bytes [] = Some []"
| "b64_bytes [u] = None"
| "b64_bytes [u, v] = (if v mod 16 = 0 then Some [u * 4 + v div 16] else None)"
| "b64_bytes [u, v, w] = (if w mod 4 = 0 then Some [u * 4 + v div 16, v mod 16 * 16 + w div 4] else None)"
| "b64_bytes (u # v # w # x # r) = (case b64_bytes r of None \<Rightarrow> None
     | Some bs \<Rightarrow> Some ([u * 4 + v div 16, v mod 16 * 16 + w div 4, w mod 4 * 64 + x] @ bs))"

definition RawURL_Encode :: "bytes \<Rightarrow> string" where
  "RawURL_Encode bs = map b64_char (b64_groups (map byte bs))"

text \<open>Line breaks in the input are skipped.\<close>

definition RawURL_StrictDecode :: "string \<Rightarrow> bytes option" where
  "RawURL_StrictDecode s =
     (let vs = map b64_val (filter (\<lambda>c. byte c \<noteq> 10 \<and> byte c \<noteq> 13) s)
      in if None \<in> set vs then None else map_option (map char_of) (b64_bytes (map the vs)))"

lemma b64_alphabet_ok: "distinct b64_alphabet" "length b64_alphabet = 64"
  by (simp_all add: b64_alphabet_def)

lemma find_upt: "v < n \<Longrightarrow> find (\<lambda>u. u = v) [0..<n] = Some v"
proof -
  assume "v < n"
  then have "v < length [0..<n] \<and> [0..<n] ! v = v \<and> v = [0..<n] ! v \<and> (\<forall>j < v. [0..<n] ! j \<noteq> v)" by simp
  then show ?thesis unfolding find_Some_iff by blast
qed

lemma b64_val_char: "v < 64 \<Longrightarrow> b64_val (b64_char v) = Some v"
proof -
  assume v: "v < 64"
  have "b64_val (b64_char v) = find (\<lambda>u. u = v) [0..<64]"
    unfolding b64_val_def by (rule find_cong) (use v b64_alphabet_ok in \<open>simp_all add: b64_char_def nth_eq_iff_index_eq\<close>)
  also have "\<dots> = Some v" using v by (rule find_upt)
  finally show ?thesis .
qed

lemma b64_char_no_break: "v < 64 \<Longrightarrow> byte (b64_char v) \<noteq> 10 \<and> byte (b64_char v) \<noteq> 13"
proof -
  assume "v < 64"
  then have "b64_char v \<in> set b64_alphabet" using b64_alphabet_ok(2) by (simp add: b64_char_def)
  moreover have "\<forall>c \<in> set b64_alphabet. byte c \<noteq> 10 \<and> byte c \<noteq> 13" by (simp add: b64_alphabet_def byte_def)
  ultimately show ?thesis by blast
qed

lemma b64_groups_bound: "\<forall>a \<in> set bs. a < 256 \<Longrightarrow> v \<in> set (b64_groups bs) \<Longrightarrow> v < 64"
proof (induction bs rule: b64_groups.induct)
  case (4 a b c r)
  then show ?case by (auto; linarith?)
qed auto

lemma b64_bytes_groups: "\<forall>a \<in> set bs. a < 256 \<Longrightarrow> b64_bytes (b64_groups bs) = Some bs"
  by (induction bs rule: b64_groups.induct) auto

lemma RawURL_roundtrip: "RawURL_StrictDecode (RawURL_Encode bs) = Some bs"
proof -
  let ?g = "b64_groups (map byte bs)"
  have lt: "\<forall>a \<in> set (map byte bs). a < 256" by (simp add: byte_def)
  have g: "\<forall>v \<in> set ?g. v < 64" using b64_groups_bound [OF lt] by blast
  have f: "filter (\<lambda>c. byte c \<noteq> 10 \<and> byte c \<noteq> 13) (map b64_char ?g) = map b64_char ?g"
    using g b64_char_no_break by (auto simp: filter_id_conv)
  have m: "map b64_val (map b64_char ?g) = map Some ?g" using g b64_val_char by simp
  have "map (char_of \<circ> byte) bs = bs" by (simp add: byte_def map_idI)
  then show ?thesis
    unfolding RawURL_StrictDecode_def RawURL_Encode_def f m Let_def
    by (simp add: b64_bytes_groups [OF lt] comp_def)
qed

end
