(* ===== verification/Caddyfile.thy ===== *)
theory Caddyfile
  imports Reconnect Go_Net
begin

section \<open>Configuration\<close>

text \<open>
  \<open>caddyfile.go\<close>: reading the Caddyfile block, and provisioning, which expands placeholders,
  validates and normalises every field and makes the client. Caddy's dispenser and replacer and the
  host lookup are outside the sources and parameters here. The main result is
  that a provisioned storage has everything the operations rely on: a canonical key prefix, keys
  of the right size, a known compression and a client.
\<close>

subsection \<open>The Caddyfile block\<close>

definition multiValueKeys :: "string list" where
  "multiValueKeys = [''address'', ''host'', ''port'', ''decryption_keys'']"

text \<open>An assignment that ignores an empty value.\<close>

definition unless_empty :: "string \<Rightarrow> (RedisStorage \<Rightarrow> RedisStorage) \<Rightarrow> RedisStorage \<Rightarrow> RedisStorage" where
  "unless_empty v f rs = (if v \<noteq> '''' then f rs else rs)"

definition parse_bool_for :: "string \<Rightarrow> string \<Rightarrow> string + bool" where
  "parse_bool_for key v = (case ParseBool v of Some b \<Rightarrow> Inr b
     | None \<Rightarrow> Inl (''invalid boolean value for '' @ CHR 0x27 # key @ CHR 0x27 # '': '' @ v))"

definition parse_compression :: "string \<Rightarrow> string + string" where
  "parse_compression v = (case ParseBool v of
       Some b \<Rightarrow> Inr (if b then CompressionFlate else CompressionNone)
     | None \<Rightarrow> if v = CompressionFlate \<or> v = CompressionZlib then Inr v
         else Inl (''invalid value for '' @ CHR 0x27 # ''compression'' @ CHR 0x27 # '': '' @ v @ '' (expected ''
           @ CHR 0x27 # ''true'' @ CHR 0x27 # '', '' @ CHR 0x27 # ''flate'' @ CHR 0x27 # '', ''
           @ CHR 0x27 # ''zlib'' @ CHR 0x27 # '', or '' @ CHR 0x27 # ''false'' @ CHR 0x27 # '')''))"

text \<open>The switch over the configuration keys; an error is the text for \<open>d.Errf\<close>.\<close>

definition applyKey :: "string \<Rightarrow> string list \<Rightarrow> RedisStorage \<Rightarrow> string + RedisStorage" where
  "applyKey key vals rs =
     (let v = hd vals in
      if key = ''address'' then Inr (rs\<lparr>Address := vals\<rparr>)
      else if key = ''host'' then Inr (rs\<lparr>Host := vals\<rparr>)
      else if key = ''port'' then Inr (rs\<lparr>Port := vals\<rparr>)
      else if key = ''db'' then Inr (rs\<lparr>DB := v\<rparr>)
      else if key = ''timeout'' then Inr (rs\<lparr>Timeout := v\<rparr>)
      else if key = ''username'' then Inr (unless_empty v (\<lambda>rs. rs\<lparr>Username := v\<rparr>) rs)
      else if key = ''password'' then Inr (unless_empty v (\<lambda>rs. rs\<lparr>Password := v\<rparr>) rs)
      else if key = ''sentinel_password'' then Inr (unless_empty v (\<lambda>rs. rs\<lparr>SentinelPassword := v\<rparr>) rs)
      else if key = ''master_name'' then Inr (unless_empty v (\<lambda>rs. rs\<lparr>MasterName := v\<rparr>) rs)
      else if key = ''key_prefix'' then Inr (unless_empty v (\<lambda>rs. rs\<lparr>KeyPrefix := v\<rparr>) rs)
      else if key = ''encryption_key'' \<or> key = ''aes_key'' then Inr (rs\<lparr>EncryptionKey := v\<rparr>)
      else if key = ''decryption_keys'' then Inr (rs\<lparr>DecryptionKeys := vals\<rparr>)
      else if key = ''client_name'' then Inr (rs\<lparr>ClientName := v\<rparr>)
      else if key = ''compression''
      then (case parse_compression v of Inl e \<Rightarrow> Inl e | Inr c \<Rightarrow> Inr (rs\<lparr>Compression := c\<rparr>))
      else if key = ''tls_enabled''
      then (case parse_bool_for key v of Inl e \<Rightarrow> Inl e | Inr b \<Rightarrow> Inr (rs\<lparr>TlsEnabled := b\<rparr>))
      else if key = ''tls_insecure''
      then (case parse_bool_for key v of Inl e \<Rightarrow> Inl e | Inr b \<Rightarrow> Inr (rs\<lparr>TlsInsecure := b\<rparr>))
      else if key = ''tls_server_certs_pem'' then Inr (unless_empty v (\<lambda>rs. rs\<lparr>TlsServerCertsPEM := v\<rparr>) rs)
      else if key = ''tls_server_certs_path'' then Inr (unless_empty v (\<lambda>rs. rs\<lparr>TlsServerCertsPath := v\<rparr>) rs)
      else if key = ''route_by_latency''
      then (case parse_bool_for key v of Inl e \<Rightarrow> Inl e | Inr b \<Rightarrow> Inr (rs\<lparr>RouteByLatency := b\<rparr>))
      else if key = ''route_randomly''
      then (case parse_bool_for key v of Inl e \<Rightarrow> Inl e | Inr b \<Rightarrow> Inr (rs\<lparr>RouteRandomly := b\<rparr>))
      else Inl (''unknown configuration key: '' @ key))"

text \<open>The methods of \<open>caddyfile.Dispenser\<close> the code calls.\<close>

record 'd dispenser =
  d_Next :: "'d \<Rightarrow> bool \<times> 'd"
  d_NextArg :: "'d \<Rightarrow> bool \<times> 'd"
  d_NextBlock :: "int \<Rightarrow> 'd \<Rightarrow> bool \<times> 'd"
  d_RemainingArgs :: "'d \<Rightarrow> string list \<times> 'd"
  d_Val :: "'d \<Rightarrow> string"
  d_Nesting :: "'d \<Rightarrow> int"
  d_ArgErr :: "'d \<Rightarrow> go_error"
  d_Errf :: "string \<Rightarrow> 'd \<Rightarrow> go_error"

text \<open>The inner loop over a nested list of values.\<close>

partial_function (option) blockValues :: "'d dispenser \<Rightarrow> int \<Rightarrow> string list \<Rightarrow> 'd \<Rightarrow> (string list \<times> 'd) option" where
  "blockValues A n acc d = (case d_NextBlock A n d of (again, d) \<Rightarrow>
      if again then blockValues A n (acc @ [d_Val A d]) d else Some (acc, d))"

text \<open>One configuration item: its values, or the error.\<close>

definition configValues :: "'d dispenser \<Rightarrow> string \<Rightarrow> ('d, string list) prog" where
  "configValues A key = (\<lambda>d. case d_NextArg A d of
      (True, d) \<Rightarrow> (case d_RemainingArgs A d of (extra, d') \<Rightarrow>
          if extra \<noteq> [] \<and> key \<notin> set multiValueKeys
          then Some (Err (d_Errf A (''too many values on one line for configuration key '' @ CHR 0x27 # key @ [CHR 0x27]) d'), d')
          else Some (Ok (d_Val A d # extra), d'))
    | (False, d) \<Rightarrow> (case blockValues A (d_Nesting A d) [] d of
          None \<Rightarrow> None
        | Some ([], d) \<Rightarrow> Some (Err (d_Errf A (''no value supplied for configuraton key '' @ CHR 0x27 # key @ [CHR 0x27]) d), d)
        | Some (vals, d) \<Rightarrow> Some (Ok vals, d)))"

partial_function (option) configItems ::
    "'d dispenser \<Rightarrow> int \<Rightarrow> RedisStorage \<Rightarrow> ('d, RedisStorage) prog" where
  "configItems A n rs d = (case d_NextBlock A n d of (again, d) \<Rightarrow>
      if again
      then bindP (configValues A (d_Val A d))
          (\<lambda>vals d'. case applyKey (d_Val A d) vals rs of
             Inl msg \<Rightarrow> throw (d_Errf A msg d') d'
           | Inr rs \<Rightarrow> configItems A n rs d') d
      else Some (Ok rs, d))"

text \<open>The optional client type after the module name.\<close>

definition clientTypeArg :: "'d dispenser \<Rightarrow> RedisStorage \<Rightarrow> ('d, RedisStorage) prog" where
  "clientTypeArg A rs = (\<lambda>d. case d_NextArg A d of (again, d) \<Rightarrow>
     if \<not> again then Some (Ok rs, d)
     else if d_Val A d = ''cluster'' \<or> d_Val A d = ''failover''
     then Some (Ok (rs\<lparr>ClientType := d_Val A d\<rparr>), d) else Some (Err (d_ArgErr A d), d))"

partial_function (option) UnmarshalCaddyfile :: "'d dispenser \<Rightarrow> RedisStorage \<Rightarrow> ('d, RedisStorage) prog" where
  "UnmarshalCaddyfile A rs d = (case d_Next A d of (again, d) \<Rightarrow>
      if again
      then bindP (clientTypeArg A rs)
             (\<lambda>rs d. bindP (configItems A (d_Nesting A d) rs) (\<lambda>rs d. UnmarshalCaddyfile A rs d) d) d
      else Some (Ok rs, d))"

subsection \<open>Provisioning\<close>

definition validateClientName :: "string \<Rightarrow> go_error option" where
  "validateClientName name =
     (if \<exists>c \<in> set name. byte c < byte (CHR ''!'') \<or> byte c > byte (CHR ''~'')
      then Some (errors_New (''invalid '' @ CHR 0x27 # ''client_name'' @ CHR 0x27 # '': only printable ASCII without spaces is allowed''))
      else None)"

definition bad_segment :: "string \<Rightarrow> bool" where
  "bad_segment seg = (seg = '''' \<or> seg = ''.'' \<or> seg = ''..'')"

definition normalizeKeyPrefix :: "string \<Rightarrow> go_error + string" where
  "normalizeKeyPrefix raw =
     (let p = Trim (TrimSpace raw) CHR ''/''
      in if p = '''' then Inr p
         else case find bad_segment (Split CHR ''/'' p) of
             Some segment \<Rightarrow> Inl (errors_New (''invalid key_prefix segment: '' @ CHR 0x22 # segment @ [CHR 0x22]))
           | None \<Rightarrow> Inr p)"

text \<open>\<open>finalizeDecryptionKeys\<close>: the loop with the index for the error and the keys kept so far.\<close>

fun decryptionKeysLoop :: "(string \<Rightarrow> string \<Rightarrow> string) \<Rightarrow> string \<Rightarrow> nat \<Rightarrow> string list \<Rightarrow> string list \<Rightarrow> go_error + string list" where
  "decryptionKeysLoop ReplaceAll enc idx [] keys = Inr keys"
| "decryptionKeysLoop ReplaceAll enc idx (key # rest) keys =
     (let key = ReplaceAll key '''' in
      if length key < 32
      then Inl (errors_New (''invalid length for '' @ CHR 0x27 # ''decryption_keys'' @ CHR 0x27 # '' entry ''
             @ Itoa (int idx) @ '', must contain at least 32 bytes''))
      else let key = take 32 key in
           decryptionKeysLoop ReplaceAll enc (Suc idx) rest
             (if key = enc \<or> key \<in> set keys then keys else keys @ [key]))"

definition finalizeDecryptionKeys :: "(string \<Rightarrow> string \<Rightarrow> string) \<Rightarrow> RedisStorage \<Rightarrow> go_error + RedisStorage" where
  "finalizeDecryptionKeys ReplaceAll rs =
     (if DecryptionKeys rs = [] then Inr rs
      else if EncryptionKey rs = ''''
      then Inl (errors_New (CHR 0x27 # ''decryption_keys'' @ CHR 0x27 # '' requires '' @ CHR 0x27 # ''encryption_key'' @ [CHR 0x27]))
      else case decryptionKeysLoop ReplaceAll (EncryptionKey rs) 0 (DecryptionKeys rs) [] of
          Inl e \<Rightarrow> Inl e
        | Inr keys \<Rightarrow> Inr (rs\<lparr>DecryptionKeys := keys\<rparr>))"

text \<open>Outside the sources: Caddy's placeholder expansion (value, replacement for an unknown one) and the resolver.\<close>

record netenv =
  ReplaceAll :: "string \<Rightarrow> string \<Rightarrow> string"
  LookupHost :: "string \<Rightarrow> bool"

text \<open>The three loops over address, host and port.\<close>

fun map_result :: "('a \<Rightarrow> go_error + 'b) \<Rightarrow> 'a list \<Rightarrow> go_error + 'b list" where
  "map_result f [] = Inr []"
| "map_result f (x # xs) = (case f x of Inl e \<Rightarrow> Inl e
     | Inr y \<Rightarrow> (case map_result f xs of Inl e \<Rightarrow> Inl e | Inr ys \<Rightarrow> Inr (y # ys)))"

definition finalizeAddress :: "netenv \<Rightarrow> string \<Rightarrow> go_error + string" where
  "finalizeAddress N v = (let v = ReplaceAll N v '''' in
     case SplitHostPort v of None \<Rightarrow> Inl (errors_New (''invalid address: '' @ v))
     | Some (host, port) \<Rightarrow> Inr (JoinHostPort host port))"

definition finalizeHost :: "netenv \<Rightarrow> string \<Rightarrow> go_error + string" where
  "finalizeHost N v = (let v = ReplaceAll N v defaultHost in
     if ParseIP v = None \<and> \<not> LookupHost N v then Inl (errors_New (''invalid host value: '' @ v)) else Inr v)"

definition finalizePort :: "netenv \<Rightarrow> string \<Rightarrow> go_error + string" where
  "finalizePort N v = (let v = ReplaceAll N v defaultPort in
     case Atoi v of None \<Rightarrow> Inl (errors_New (''invalid port value: '' @ v)) | Some _ \<Rightarrow> Inr v)"

definition finalizeLists :: "netenv \<Rightarrow> RedisStorage \<Rightarrow> go_error + RedisStorage" where
  "finalizeLists N rs = (case map_result (finalizeAddress N) (Address rs) of Inl e \<Rightarrow> Inl e
     | Inr address \<Rightarrow> (case map_result (finalizeHost N) (Host rs) of Inl e \<Rightarrow> Inl e
     | Inr host \<Rightarrow> (case map_result (finalizePort N) (Port rs) of Inl e \<Rightarrow> Inl e
     | Inr port \<Rightarrow> Inr (rs\<lparr>Address := address, Host := host, Port := port\<rparr>))))"

text \<open>Timeout, credentials and the key prefix.\<close>

definition finalizeTimeout :: "netenv \<Rightarrow> RedisStorage \<Rightarrow> go_error + RedisStorage" where
  "finalizeTimeout N rs = (let t = ReplaceAll N (Timeout rs) '''' in
     if t \<noteq> '''' \<and> (case Atoi t of None \<Rightarrow> True | Some v \<Rightarrow> v < 0)
     then Inl (errors_New (''invalid timeout value: '' @ t)) else Inr (rs\<lparr>Timeout := t\<rparr>))"

definition finalizeNames :: "netenv \<Rightarrow> RedisStorage \<Rightarrow> go_error + RedisStorage" where
  "finalizeNames N rs =
     (let rs = rs\<lparr>MasterName := ReplaceAll N (MasterName rs) '''', Username := ReplaceAll N (Username rs) '''',
            Password := ReplaceAll N (Password rs) '''', SentinelPassword := ReplaceAll N (SentinelPassword rs) '''',
            KeyPrefix := ReplaceAll N (KeyPrefix rs) defaultKeyPrefix\<rparr>
      in case normalizeKeyPrefix (KeyPrefix rs) of Inl e \<Rightarrow> Inl e
         | Inr keyPrefix \<Rightarrow> Inr (rs\<lparr>KeyPrefix := keyPrefix\<rparr>))"

definition finalizeEncryptionKey :: "netenv \<Rightarrow> RedisStorage \<Rightarrow> go_error + RedisStorage" where
  "finalizeEncryptionKey N rs =
     (if length (EncryptionKey rs) > 0
      then let k = ReplaceAll N (EncryptionKey rs) '''' in
           if length k < 32
           then Inl (errors_New (''invalid length for '' @ CHR 0x27 # ''encryption_key'' @ CHR 0x27 # '', must contain at least 32 bytes''))
           else Inr (rs\<lparr>EncryptionKey := take 32 k\<rparr>)
      else Inr rs)"

definition finalizeClientName :: "netenv \<Rightarrow> RedisStorage \<Rightarrow> go_error + RedisStorage" where
  "finalizeClientName N rs = (let rs = rs\<lparr>ClientName := ReplaceAll N (ClientName rs) ''''\<rparr> in
     case validateClientName (ClientName rs) of Some e \<Rightarrow> Inl e
     | None \<Rightarrow> Inr (rs\<lparr>TlsServerCertsPEM := ReplaceAll N (TlsServerCertsPEM rs) '''',
                     TlsServerCertsPath := ReplaceAll N (TlsServerCertsPath rs) ''''\<rparr>))"

definition finalizeCompression :: "netenv \<Rightarrow> RedisStorage \<Rightarrow> go_error + RedisStorage" where
  "finalizeCompression N rs = (let c = ReplaceAll N (Compression rs) '''' in
     if c = CompressionNone \<or> c = ''false'' then Inr (rs\<lparr>Compression := CompressionNone\<rparr>)
     else if c = CompressionFlate \<or> c = ''true'' then Inr (rs\<lparr>Compression := CompressionFlate\<rparr>)
     else if c = CompressionZlib then Inr (rs\<lparr>Compression := CompressionZlib\<rparr>)
     else Inl (errors_New (''invalid compression value: '' @ CHR 0x22 # Compression rs @ CHR 0x22 # '' (expected ''
        @ CHR 0x27 # ''flate'' @ CHR 0x27 # '', '' @ CHR 0x27 # ''zlib'' @ CHR 0x27 # '', or '' @ CHR 0x27 # ''false'' @ CHR 0x27 # '')'')))"

definition finalizeDB :: "netenv \<Rightarrow> RedisStorage \<Rightarrow> go_error + RedisStorage" where
  "finalizeDB N rs = (let db = ReplaceAll N (DB rs) defaultDb in
     if (case Atoi db of None \<Rightarrow> True | Some v \<Rightarrow> v < 0) then Inl (errors_New (''invalid db value: '' @ db))
     else Inr (rs\<lparr>DB := db\<rparr>))"

text \<open>The loop that pairs hosts and ports; the last one of the shorter list is repeated.\<close>

fun pairAddresses :: "string \<Rightarrow> string \<Rightarrow> string list \<Rightarrow> string list \<Rightarrow> string list" where
  "pairAddresses host port [] [] = []"
| "pairAddresses host port (h # hs) [] = JoinHostPort h port # pairAddresses h port hs []"
| "pairAddresses host port [] (p # ps) = JoinHostPort host p # pairAddresses host p [] ps"
| "pairAddresses host port (h # hs) (p # ps) = JoinHostPort h p # pairAddresses h p hs ps"

definition finalizePairs :: "RedisStorage \<Rightarrow> RedisStorage" where
  "finalizePairs rs = (if Address rs = []
     then rs\<lparr>Address := pairAddresses '''' '''' (Host rs) (Port rs), Host := [], Port := []\<rparr> else rs)"

definition bindR :: "go_error + 'a \<Rightarrow> ('a \<Rightarrow> go_error + 'b) \<Rightarrow> go_error + 'b" where
  "bindR r f = (case r of Inl e \<Rightarrow> Inl e | Inr x \<Rightarrow> f x)"

text \<open>Everything before the client is made, in the order of the source.\<close>

definition finalizeFields :: "netenv \<Rightarrow> RedisStorage \<Rightarrow> go_error + RedisStorage" where
  "finalizeFields N rs =
     bindR (finalizeLists N rs) (\<lambda>rs. bindR (finalizeTimeout N rs) (\<lambda>rs. bindR (finalizeNames N rs)
       (\<lambda>rs. bindR (finalizeEncryptionKey N rs) (\<lambda>rs. bindR (finalizeDecryptionKeys (ReplaceAll N) rs)
       (\<lambda>rs. bindR (finalizeClientName N rs) (\<lambda>rs. bindR (finalizeCompression N rs)
       (\<lambda>rs. bindR (finalizeDB N rs) (\<lambda>rs. Inr (finalizePairs rs)))))))))"

definition finalizeConfiguration :: "'w sysenv \<Rightarrow> netenv \<Rightarrow> RedisStorage \<Rightarrow> ('w proc, RedisStorage) prog" where
  "finalizeConfiguration E N rs = bindP (pureP (finalizeFields N rs)) (initRedisClient E)"

text \<open>\<open>Provision\<close>: the metrics are registered first; a warning of theirs is only logged.\<close>

definition Provision :: "'w sysenv \<Rightarrow> netenv \<Rightarrow> (unit \<Rightarrow> register_error option) option \<Rightarrow> RedisStorage
    \<Rightarrow> ('w proc, RedisStorage \<times> go_error option) prog" where
  "Provision E N reg rs =
     (let warning = registerMetrics reg
      in bindP (finalizeConfiguration E N rs) (\<lambda>rs. ret (rs, warning)))"

subsection \<open>What provisioning guarantees\<close>

definition config_ok :: "RedisStorage \<Rightarrow> bool" where
  "config_ok rs \<longleftrightarrow>
     (\<exists>pre. canon pre \<and> KeyPrefix rs = pjoin pre)
     \<and> (EncryptionKey rs = '''' \<or> length (EncryptionKey rs) = 32)
     \<and> (\<forall>k \<in> set (DecryptionKeys rs). length k = 32 \<and> k \<noteq> EncryptionKey rs) \<and> distinct (DecryptionKeys rs)
     \<and> (DecryptionKeys rs \<noteq> [] \<longrightarrow> EncryptionKey rs \<noteq> '''')
     \<and> Compression rs \<in> {CompressionNone, CompressionFlate, CompressionZlib}
     \<and> (Timeout rs \<noteq> '''' \<longrightarrow> (\<exists>v \<ge> 0. Atoi (Timeout rs) = Some v))
     \<and> (\<exists>v \<ge> 0. Atoi (DB rs) = Some v)
     \<and> (\<forall>c \<in> set (ClientName rs). byte (CHR ''!'') \<le> byte c \<and> byte c \<le> byte (CHR ''~''))
     \<and> (Address rs = [] \<longrightarrow> Host rs = [] \<and> Port rs = [])"

lemma normalizeKeyPrefix_canon:
  assumes "normalizeKeyPrefix raw = Inr p"
  shows "\<exists>pre. canon pre \<and> p = pjoin pre \<and> (p \<noteq> '''' \<longrightarrow> pre \<noteq> [])"
proof (cases "p = ''''")
  case True
  then show ?thesis by (intro exI [of _ "[]"]) simp
next
  case False
  with assms have "find bad_segment (Split CHR ''/'' p) = None"
    by (auto simp: normalizeKeyPrefix_def Let_def split: if_splits option.splits)
  then have "\<forall>seg \<in> set (Split CHR ''/'' p). seg_ok seg"
    by (auto simp: find_None_iff bad_segment_def seg_ok_def dest: Split_pieces)
  then show ?thesis
    using Join_Split [of "CHR ''/''" p] by (intro exI [of _ "Split CHR ''/'' p"]) (simp add: canon_def list_all_iff)
qed

text \<open>The keys that stay: the first occurrences of the truncated entries other than the encryption key.\<close>

lemma decryptionKeysLoop_keys:
  assumes "decryptionKeysLoop repl enc idx rest keys = Inr keys'"
    and "distinct keys" and "\<forall>k \<in> set keys. length k = 32 \<and> k \<noteq> enc"
  shows "distinct keys' \<and> (\<forall>k \<in> set keys'. length k = 32 \<and> k \<noteq> enc)
    \<and> set keys' = set keys \<union> ((\<lambda>k. take 32 (repl k '''')) ` set rest - {enc})"
  using assms
proof (induction rest arbitrary: idx keys)
  case (Cons key rest)
  let ?k = "take 32 (repl key '''')"
  let ?keys = "if ?k = enc \<or> ?k \<in> set keys then keys else keys @ [?k]"
  have len: "\<not> length (repl key '''') < 32" and run: "decryptionKeysLoop repl enc (Suc idx) rest ?keys = Inr keys'"
    using Cons.prems(1) by (auto simp: Let_def split: if_splits)
  have k: "distinct ?keys" "\<forall>k \<in> set ?keys. length k = 32 \<and> k \<noteq> enc" using len Cons.prems(2,3) by auto
  have s: "set ?keys = set keys \<union> ({?k} - {enc})" by auto
  note IH = Cons.IH [OF run k]
  from IH have "set keys' = set ?keys \<union> ((\<lambda>k. take 32 (repl k '''')) ` set rest - {enc})" by blast
  then have "set keys' = set keys \<union> ((\<lambda>k. take 32 (repl k '''')) ` set (key # rest) - {enc})" unfolding s by auto
  with IH show ?case by blast
qed simp

lemma decryptionKeysLoop_error:
  "decryptionKeysLoop repl enc idx rest keys = Inl e \<Longrightarrow> \<exists>k \<in> set rest. length (repl k '''') < 32"
  by (induction rest arbitrary: idx keys) (auto simp: Let_def split: if_splits)

text \<open>The elements of a list in the order of their first occurrences.\<close>

definition first_occurrences :: "'a list \<Rightarrow> 'a list" where
  "first_occurrences xs = rev (remdups (rev xs))"

lemma first_occurrences_simps [simp]:
  "set (first_occurrences xs) = set xs" "distinct (first_occurrences xs)"
  by (simp_all add: first_occurrences_def)

lemma first_occurrences_snoc:
  "first_occurrences (xs @ [x]) = (if x \<in> set xs then first_occurrences xs else first_occurrences xs @ [x])"
  by (simp add: first_occurrences_def)

lemma decryptionKeysLoop_first:
  "decryptionKeysLoop repl enc idx rest (first_occurrences seen) = Inr keys \<Longrightarrow>
    (\<forall>k \<in> set rest. 32 \<le> length (repl k ''''))
    \<and> keys = first_occurrences (seen @ filter (\<lambda>k. k \<noteq> enc) (map (\<lambda>k. take 32 (repl k '''')) rest))"
proof (induction rest arbitrary: idx seen)
  case (Cons key rest)
  let ?k = "take 32 (repl key '''')"
  let ?seen = "if ?k = enc then seen else seen @ [?k]"
  have "first_occurrences ?seen = (if ?k = enc \<or> ?k \<in> set (first_occurrences seen) then first_occurrences seen
      else first_occurrences seen @ [?k])" by (simp add: first_occurrences_snoc)
  with Cons.prems have len: "\<not> length (repl key '''') < 32"
    and run: "decryptionKeysLoop repl enc (Suc idx) rest (first_occurrences ?seen) = Inr keys"
    by (auto simp: Let_def split: if_splits)
  from Cons.IH [OF run] len show ?case by (auto split: if_splits)
qed simp

lemma decryptionKeysLoop_list:
  assumes "decryptionKeysLoop repl enc idx rest [] = Inr keys"
  shows "\<forall>k \<in> set rest. 32 \<le> length (repl k '''')"
    and "keys = first_occurrences (filter (\<lambda>k. k \<noteq> enc) (map (\<lambda>k. take 32 (repl k '''')) rest))"
  using decryptionKeysLoop_first [of repl enc idx rest "[]" keys] assms by (simp_all add: first_occurrences_def)

lemma bindR_Inr: "bindR r f = Inr y \<longleftrightarrow> (\<exists>x. r = Inr x \<and> f x = Inr y)"
  by (cases r) (simp_all add: bindR_def)

lemma finalizeFields_ok:
  assumes "finalizeFields N rs = Inr rs'"
  shows "config_ok rs'"
proof -
  from assms obtain r1 r2 r3 r4 r5 r6 r7 r8 where
    1: "finalizeLists N rs = Inr r1" and 2: "finalizeTimeout N r1 = Inr r2" and 3: "finalizeNames N r2 = Inr r3"
    and 4: "finalizeEncryptionKey N r3 = Inr r4" and 5: "finalizeDecryptionKeys (ReplaceAll N) r4 = Inr r5"
    and 6: "finalizeClientName N r5 = Inr r6" and 7: "finalizeCompression N r6 = Inr r7"
    and 8: "finalizeDB N r7 = Inr r8" and 9: "rs' = finalizePairs r8"
    by (auto simp: finalizeFields_def bindR_Inr)
  have t2: "Timeout r2 \<noteq> '''' \<longrightarrow> (\<exists>v \<ge> 0. Atoi (Timeout r2) = Some v)"
    using 2 by (auto simp: finalizeTimeout_def Let_def split: if_splits option.splits)
  from 3 obtain raw p where "normalizeKeyPrefix raw = Inr p" "KeyPrefix r3 = p" and t3: "Timeout r3 = Timeout r2"
    by (auto simp: finalizeNames_def Let_def split: sum.splits)
  then have p3: "\<exists>pre. canon pre \<and> KeyPrefix r3 = pjoin pre" using normalizeKeyPrefix_canon by blast
  have f4: "Timeout r4 = Timeout r3" "KeyPrefix r4 = KeyPrefix r3" "EncryptionKey r4 = '''' \<or> length (EncryptionKey r4) = 32"
    using 4 by (auto simp: finalizeEncryptionKey_def Let_def split: if_splits)
  have f5: "Timeout r5 = Timeout r4" "KeyPrefix r5 = KeyPrefix r4" "EncryptionKey r5 = EncryptionKey r4"
    using 5 by (auto simp: finalizeDecryptionKeys_def split: if_splits sum.splits)
  have d5: "(\<forall>k \<in> set (DecryptionKeys r5). length k = 32 \<and> k \<noteq> EncryptionKey r5) \<and> distinct (DecryptionKeys r5)
      \<and> (DecryptionKeys r5 \<noteq> [] \<longrightarrow> EncryptionKey r5 \<noteq> '''')"
  proof (cases "DecryptionKeys r4 = []")
    case True
    with 5 show ?thesis by (auto simp: finalizeDecryptionKeys_def)
  next
    case False
    with 5 obtain keys where run: "decryptionKeysLoop (ReplaceAll N) (EncryptionKey r4) 0 (DecryptionKeys r4) [] = Inr keys"
      and r5: "r5 = r4\<lparr>DecryptionKeys := keys\<rparr>" "EncryptionKey r4 \<noteq> ''''"
      by (auto simp: finalizeDecryptionKeys_def split: if_splits sum.splits)
    have "distinct keys \<and> (\<forall>k \<in> set keys. length k = 32 \<and> k \<noteq> EncryptionKey r4)"
      using decryptionKeysLoop_keys [OF run distinct.simps(1) [THEN iffD2, OF TrueI]] by (metis empty_iff empty_set)
    with r5 show ?thesis by simp
  qed
  have f6: "Timeout r6 = Timeout r5" "KeyPrefix r6 = KeyPrefix r5" "EncryptionKey r6 = EncryptionKey r5"
    "DecryptionKeys r6 = DecryptionKeys r5"
    "\<forall>c \<in> set (ClientName r6). byte (CHR ''!'') \<le> byte c \<and> byte c \<le> byte (CHR ''~'')"
    using 6 by (auto simp: finalizeClientName_def validateClientName_def Let_def not_less split: if_splits)
  have f7: "Timeout r7 = Timeout r6" "KeyPrefix r7 = KeyPrefix r6" "EncryptionKey r7 = EncryptionKey r6"
    "DecryptionKeys r7 = DecryptionKeys r6" "ClientName r7 = ClientName r6"
    "Compression r7 \<in> {CompressionNone, CompressionFlate, CompressionZlib}"
    using 7 by (auto simp: finalizeCompression_def Let_def split: if_splits)
  have f8: "Timeout r8 = Timeout r7" "KeyPrefix r8 = KeyPrefix r7" "EncryptionKey r8 = EncryptionKey r7"
    "DecryptionKeys r8 = DecryptionKeys r7" "ClientName r8 = ClientName r7" "Compression r8 = Compression r7"
    "\<exists>v \<ge> 0. Atoi (DB r8) = Some v"
    using 8 by (auto simp: finalizeDB_def Let_def split: if_splits option.splits)
  have f9: "Timeout rs' = Timeout r8" "KeyPrefix rs' = KeyPrefix r8" "EncryptionKey rs' = EncryptionKey r8"
    "DecryptionKeys rs' = DecryptionKeys r8" "ClientName rs' = ClientName r8" "Compression rs' = Compression r8"
    "DB rs' = DB r8" "Address rs' = [] \<longrightarrow> Host rs' = [] \<and> Port rs' = []"
    using 9 by (auto simp: finalizePairs_def)
  show ?thesis
    using t2 t3 p3 f4 f5 d5 f6 f7 f8 f9 unfolding config_ok_def by simp
qed

subsection \<open>Reading the block terminates\<close>

text \<open>
  What the loops rely on: a dispenser over finitely many tokens moves forward whenever it says
  there is more, and never moves back.
\<close>

locale token_dispenser =
  fixes A :: "'d dispenser" and left :: "'d \<Rightarrow> nat"
  assumes Next: "d_Next A d = (b, d') \<Longrightarrow> left d' \<le> left d \<and> (b \<longrightarrow> left d' < left d)"
    and NextArg: "d_NextArg A d = (b, d') \<Longrightarrow> left d' \<le> left d"
    and NextBlock: "d_NextBlock A n d = (b, d') \<Longrightarrow> left d' \<le> left d \<and> (b \<longrightarrow> left d' < left d)"
    and RemainingArgs: "d_RemainingArgs A d = (xs, d') \<Longrightarrow> left d' \<le> left d"
begin

lemma blockValues_ends: "\<exists>vals d'. blockValues A n acc d = Some (vals, d') \<and> left d' \<le> left d"
proof (induction "left d" arbitrary: acc d rule: less_induct)
  case less
  obtain b d1 where b: "d_NextBlock A n d = (b, d1)" by fastforce
  show ?case
  proof (cases b)
    case True
    with NextBlock [OF b] have "left d1 < left d" by simp
    with less [of d1 "acc @ [d_Val A d1]"] b True show ?thesis
      by (subst blockValues.simps) force
  next
    case False
    with b NextBlock [OF b] show ?thesis by (subst blockValues.simps) simp
  qed
qed

lemma configValues_ends: "\<exists>r d'. configValues A key d = Some (r, d') \<and> left d' \<le> left d"
proof -
  obtain b d1 where b: "d_NextArg A d = (b, d1)" by fastforce
  obtain xs d2 where x: "d_RemainingArgs A d1 = (xs, d2)" by fastforce
  obtain vals d3 where v: "blockValues A (d_Nesting A d1) [] d1 = Some (vals, d3)" "left d3 \<le> left d1"
    using blockValues_ends by blast
  show ?thesis
    using NextArg [OF b] RemainingArgs [OF x] b x v by (cases b; cases vals) (auto simp: configValues_def)
qed

lemma configItems_ends: "\<exists>r d'. configItems A n rs d = Some (r, d') \<and> left d' \<le> left d"
proof (induction "left d" arbitrary: rs d rule: less_induct)
  case less
  obtain b d1 where b: "d_NextBlock A n d = (b, d1)" by fastforce
  show ?case
  proof (cases b)
    case False
    with b NextBlock [OF b] show ?thesis by (subst configItems.simps) simp
  next
    case True
    with NextBlock [OF b] have lt: "left d1 < left d" by simp
    obtain r d2 where r: "configValues A (d_Val A d1) d1 = Some (r, d2)" "left d2 \<le> left d1"
      using configValues_ends by blast
    show ?thesis
    proof (cases r)
      case (Ok vals)
      show ?thesis
      proof (cases "applyKey (d_Val A d1) vals rs")
        case (Inl msg)
        with b True r Ok lt show ?thesis by (subst configItems.simps) (simp add: prog_simps)
      next
        case (Inr rs')
        have "left d2 < left d" using r(2) lt by simp
        from less [OF this, of rs'] obtain r' d' where "configItems A n rs' d2 = Some (r', d')" "left d' \<le> left d2" by blast
        with b True r Ok Inr lt show ?thesis by (subst configItems.simps) (simp add: prog_simps)
      qed
    qed (use b True r lt in \<open>subst configItems.simps, simp add: prog_simps\<close>)+
  qed
qed

lemma clientTypeArg_ends: "\<exists>r d'. clientTypeArg A rs d = Some (r, d') \<and> left d' \<le> left d"
  by (auto simp: clientTypeArg_def NextArg split: prod.split)

lemma Unmarshal_ends: "\<exists>r d'. UnmarshalCaddyfile A rs d = Some (r, d')"
proof (induction "left d" arbitrary: rs d rule: less_induct)
  case less
  obtain b d1 where b: "d_Next A d = (b, d1)" by fastforce
  show ?case
  proof (cases b)
    case False
    with b show ?thesis by (subst UnmarshalCaddyfile.simps) simp
  next
    case True
    with Next [OF b] have lt: "left d1 < left d" by simp
    obtain r d2 where r: "clientTypeArg A rs d1 = Some (r, d2)" "left d2 \<le> left d1" using clientTypeArg_ends by blast
    show ?thesis
    proof (cases r)
      case (Ok rs1)
      obtain r' d3 where r': "configItems A (d_Nesting A d2) rs1 d2 = Some (r', d3)" "left d3 \<le> left d2"
        using configItems_ends by blast
      show ?thesis
      proof (cases r')
        case (Ok rs2)
        have "left d3 < left d" using r(2) r'(2) lt by simp
        from less [OF this, of rs2] b True r r' Ok \<open>r = Ok rs1\<close> show ?thesis
          by (subst UnmarshalCaddyfile.simps) (auto simp: prog_simps)
      qed (use b True r r' \<open>r = Ok rs1\<close> in \<open>subst UnmarshalCaddyfile.simps, simp add: prog_simps\<close>)+
    qed (use b True r in \<open>subst UnmarshalCaddyfile.simps, simp add: prog_simps\<close>)+
  qed
qed

end

text \<open>
  A dispenser over a list of tokens with their lines. The cursor counts the tokens read so far;
  a brace opens or closes a block when it ends its line.
\<close>

record tokens =
  tk_list :: "(string \<times> nat) list"
  tk_read :: nat
  tk_nesting :: int

definition tk_val :: "tokens \<Rightarrow> string" where
  "tk_val d = (if 0 < tk_read d \<and> tk_read d \<le> length (tk_list d) then fst (tk_list d ! (tk_read d - 1)) else '''')"

definition tk_next :: "tokens \<Rightarrow> bool \<times> tokens" where
  "tk_next d = (if tk_read d < length (tk_list d) then (True, d\<lparr>tk_read := Suc (tk_read d)\<rparr>) else (False, d))"

definition tk_same_line :: "tokens \<Rightarrow> bool" where
  "tk_same_line d = (0 < tk_read d \<and> tk_read d < length (tk_list d)
     \<and> snd (tk_list d ! tk_read d) = snd (tk_list d ! (tk_read d - 1)))"

definition tk_arg :: "tokens \<Rightarrow> bool \<times> tokens" where
  "tk_arg d = (if tk_same_line d then (True, d\<lparr>tk_read := Suc (tk_read d)\<rparr>) else (False, d))"

definition tk_block :: "int \<Rightarrow> tokens \<Rightarrow> bool \<times> tokens" where
  "tk_block n d =
     (if tk_nesting d > n
      then case tk_next d of (b, d') \<Rightarrow>
             if \<not> b then (False, d')
             else let d'' = (if tk_val d' = ''}'' \<and> \<not> tk_same_line d' then d'\<lparr>tk_nesting := tk_nesting d' - 1\<rparr>
                             else if tk_val d' = ''{'' \<and> \<not> tk_same_line d' then d'\<lparr>tk_nesting := tk_nesting d' + 1\<rparr> else d')
                  in (tk_nesting d'' > n, d'')
      else case tk_arg d of (b, d') \<Rightarrow>
             if \<not> b \<or> tk_val d' \<noteq> ''{'' then (False, d)
             else let d'' = snd (tk_next d') in
                  if tk_val d'' = ''}'' then (False, d'') else (True, d''\<lparr>tk_nesting := tk_nesting d'' + 1\<rparr>))"

fun tk_rest :: "nat \<Rightarrow> tokens \<Rightarrow> string list \<times> tokens" where
  "tk_rest 0 d = ([], d)"
| "tk_rest (Suc n) d = (case tk_arg d of (b, d') \<Rightarrow>
     if \<not> b \<or> tk_val d' = ''{'' then ([], d) else case tk_rest n d' of (xs, d'') \<Rightarrow> (tk_val d' # xs, d''))"

definition token_list :: "tokens dispenser" where
  "token_list = \<lparr>d_Next = tk_next, d_NextArg = (\<lambda>d. case tk_arg d of (b, d') \<Rightarrow>
       if b \<and> tk_val d' \<noteq> ''{'' then (True, d') else (False, d)),
     d_NextBlock = tk_block, d_RemainingArgs = (\<lambda>d. tk_rest (length (tk_list d)) d),
     d_Val = tk_val, d_Nesting = tk_nesting,
     d_ArgErr = (\<lambda>d. errors_New (''wrong argument count or unexpected line ending after '' @ tk_val d)),
     d_Errf = (\<lambda>m d. errors_New m)\<rparr>"

definition tk_left :: "tokens \<Rightarrow> nat" where
  "tk_left d = length (tk_list d) - tk_read d"

lemma tk_arg_left: "tk_arg d = (b, d') \<Longrightarrow> tk_left d' \<le> tk_left d \<and> (b \<longrightarrow> tk_left d' < tk_left d)"
  by (auto simp: tk_arg_def tk_left_def tk_same_line_def split: if_splits)

lemma tk_next_left: "tk_next d = (b, d') \<Longrightarrow> tk_left d' \<le> tk_left d \<and> (b \<longrightarrow> tk_left d' < tk_left d)"
  by (auto simp: tk_next_def tk_left_def split: if_splits)

lemma tk_rest_left: "tk_rest n d = (xs, d') \<Longrightarrow> tk_left d' \<le> tk_left d"
proof (induction n arbitrary: d xs d')
  case (Suc n)
  obtain b d1 where "tk_arg d = (b, d1)" by fastforce
  moreover obtain ys d2 where "tk_rest n d1 = (ys, d2)" by fastforce
  ultimately show ?case using Suc.prems Suc.IH [of d1 ys d2] tk_arg_left [of d b d1] by (auto split: if_splits)
qed simp

lemma tk_left_nesting [simp]: "tk_left (d\<lparr>tk_nesting := n\<rparr>) = tk_left d"
  by (simp add: tk_left_def)

lemma tk_block_left:
  assumes "tk_block n d = (b, d')"
  shows "tk_left d' \<le> tk_left d \<and> (b \<longrightarrow> tk_left d' < tk_left d)"
proof -
  obtain b1 d1 where n: "tk_next d = (b1, d1)" by fastforce
  obtain b2 d2 where a: "tk_arg d = (b2, d2)" by fastforce
  obtain b3 d3 where n3: "tk_next d2 = (b3, d3)" by fastforce
  show ?thesis
    using assms tk_next_left [OF n] tk_arg_left [OF a] tk_next_left [OF n3] n a n3
    by (auto simp: tk_block_def Let_def split: if_splits)
qed

interpretation caddyfile_tokens: token_dispenser token_list tk_left
proof (unfold_locales, goal_cases)
  case (2 d b d')
  then show ?case
    using tk_arg_left [of d] by (auto simp: token_list_def split: prod.splits if_splits)
qed (auto simp: token_list_def dest: tk_next_left tk_block_left tk_rest_left)

subsection \<open>Properties\<close>

context redis_server
begin

lemma buildClient_outcome:
  assumes E: "redis E = R" and run: "buildClient E rs s = Some (r, s')"
  shows "case r of Ok c \<Rightarrow> up (world s') c \<and> \<not> up (world s) c | Err e \<Rightarrow> up (world s') = up (world s) | Panic \<Rightarrow> False"
proof (cases "client_plan E rs")
  case (Inl e)
  with run show ?thesis by (auto simp: buildClient_plan)
next
  case (Inr p)
  obtain kd opts where p: "p = (kd, opts)" by fastforce
  show ?thesis
  proof (cases "reach (world s) opts")
    case True
    from connect_reach [OF E True, of kd] obtain c t where "connect E kd opts s = Some (Ok c, t)"
      "\<not> up (world s) c" "up (world t) = (up (world s))(c := True)" by metis
    with run Inr p show ?thesis by (auto simp: buildClient_plan)
  next
    case False
    from connect_unreach [OF E False, of kd] obtain e t where "connect E kd opts s = Some (Err e, t)"
      "up (world t) = up (world s)" by metis
    with run Inr p show ?thesis by (auto simp: buildClient_plan)
  qed
qed

end

lemma init_keeps_config: "config_ok rs \<Longrightarrow> config_ok (rs\<lparr>client := x, locker := y, locks := z\<rparr>)"
  by (simp add: config_ok_def)

text \<open>
  C6. Provisioning: when it succeeds, the key prefix is a canonical path, encryption and decryption
  keys have 32 bytes and are pairwise different, compression, timeout, database and client name are
  valid, and the instance has an open client that it also uses for locks; when it fails, no client
  is left open.
\<close>

theorem provision_establishes_config:
  assumes "redis_server R view up closed reach" and "redis E = R"
    and "Provision E N reg rs s = Some (r, s')"
  shows "case r of
      Ok (rs', w) \<Rightarrow> config_ok rs' \<and> locks rs' \<and> (\<exists>c. client rs' = Some c \<and> locker rs' = Some c \<and> up (world s') c)
    | Err e \<Rightarrow> up (world s') = up (world s)
    | Panic \<Rightarrow> False"
proof (cases "finalizeFields N rs")
  case (Inl e)
  with assms(3) show ?thesis by (auto simp: Provision_def finalizeConfiguration_def prog_simps)
next
  case (Inr rs1)
  have ok: "config_ok rs1" by (rule finalizeFields_ok [OF Inr])
  obtain r1 s1 where b: "buildClient E rs1 s = Some (r1, s1)"
  proof (cases "buildClient E rs1 s")
    case None
    with assms(3) Inr show thesis
      by (simp add: Provision_def finalizeConfiguration_def initRedisClient_def prog_simps)
  qed auto
  note out = redis_server.buildClient_outcome [OF assms(1,2) b]
  show ?thesis
    using assms(3) Inr b out init_keeps_config [OF ok]
    by (cases r1) (auto simp: Provision_def finalizeConfiguration_def initRedisClient_def prog_simps)
qed

definition plain_net :: netenv where
  "plain_net = \<lparr>ReplaceAll = (\<lambda>v d. v), LookupHost = (\<lambda>v. False)\<rparr>"

definition plain_env :: "mem sysenv" where
  "plain_env = \<lparr>redis = mem_api True [], ReadFile = (\<lambda>_. Inl (errors_New ''no such file'')), AppendCertsFromPEM = (\<lambda>_. False)\<rparr>"

definition fresh_proc :: "mem proc" where
  "fresh_proc = \<lparr>reconnectCount = 0, reconnectMetric = 0,
     world = \<lparr>mem_db = Map.empty, mem_clients = [], mem_reach = True, mem_owner = Map.empty, mem_handles = [],
     mem_expires = Map.empty, mem_now = 0\<rparr>\<rparr>"

lemma New_prefix: "normalizeKeyPrefix (KeyPrefix New) = Inr ''caddy''"
  by code_simp

lemma New_fields: "finalizeFields plain_net New = Inr (New\<lparr>Address := [''127.0.0.1:6379''], Host := [], Port := []\<rparr>)"
proof -
  have "Atoi ''6379'' = Some 6379" "Atoi ''0'' = Some 0" "ParseIP ''127.0.0.1'' = Some [127, 0, 0, 1]" by code_simp+
  then show ?thesis
    using New_prefix
    by (simp add: finalizeFields_def bindR_def finalizeLists_def finalizeHost_def finalizePort_def finalizeTimeout_def
        finalizeNames_def finalizeEncryptionKey_def finalizeDecryptionKeys_def finalizeClientName_def validateClientName_def
        finalizeCompression_def finalizeDB_def finalizePairs_def plain_net_def New_def default_defs compression_defs
        JoinHostPort_def Let_def)
qed

theorem provision_establishes_config_witness:
  "\<exists>rs' s'. Provision plain_env plain_net None New fresh_proc = Some (Ok (rs', None), s')
    \<and> config_ok rs' \<and> locks rs' \<and> (\<exists>c. client rs' = Some c \<and> locker rs' = Some c \<and> mem_up (world s') c)"
proof -
  let ?rs = "New\<lparr>Address := [''127.0.0.1:6379''], Host := [], Port := []\<rparr>"
  have plan: "client_plan plain_env ?rs = Inr (SimpleClient, base_options ?rs)"
    by (simp add: client_plan_def tls_options_def routing_options_def timeout_options_def New_def default_defs)
  obtain c t where b: "buildClient plain_env ?rs fresh_proc = Some (Ok c, t)"
  proof -
    have "redis plain_env = mem_api True []" "mem_reach (world fresh_proc)" by (simp_all add: plain_env_def fresh_proc_def)
    from mem.buildClient_reach [OF this(1) plan this(2)] that show thesis by metis
  qed
  then obtain rs' s' where run: "Provision plain_env plain_net None New fresh_proc = Some (Ok (rs', None), s')"
    by (simp add: Provision_def finalizeConfiguration_def New_fields prog_simps initRedisClient_def registerMetrics_def)
  from provision_establishes_config [OF mem.redis_server_axioms _ run, of True "[]"] run show ?thesis
    by (auto simp: plain_env_def)
qed

text \<open>
  C19. Reading a Caddyfile block always ends, with a configuration or an error, for a dispenser
  that moves forward over finitely many tokens.
\<close>

theorem unmarshal_caddyfile_terminates:
  assumes "token_dispenser A left"
  shows "\<exists>r d'. UnmarshalCaddyfile A rs d = Some (r, d')"
  using token_dispenser.Unmarshal_ends [OF assms] .

theorem unmarshal_caddyfile_terminates_witness:
  "\<exists>r d'. UnmarshalCaddyfile token_list New
      \<lparr>tk_list = [(''redis'', 1), (''{'', 1), (''db'', 2), (''3'', 2), (''}'', 3)], tk_read = 0, tk_nesting = 0\<rparr> = Some (r, d')"
  by (rule unmarshal_caddyfile_terminates [OF caddyfile_tokens.token_dispenser_axioms])

text \<open>
  C20. The decryption keys that provisioning keeps: it succeeds exactly when there is an encryption
  key and every entry expands to at least 32 bytes; then the list becomes the entries, expanded and
  cut to 32 bytes, without those equal to the encryption key, each at its first place only, and
  nothing else of the configuration changes.
\<close>

theorem decryption_keys_kept:
  assumes "DecryptionKeys rs \<noteq> []"
  shows "case finalizeDecryptionKeys repl rs of
      Inr rs' \<Rightarrow> EncryptionKey rs \<noteq> '''' \<and> (\<forall>k \<in> set (DecryptionKeys rs). 32 \<le> length (repl k ''''))
        \<and> rs' = rs\<lparr>DecryptionKeys := first_occurrences
            (filter (\<lambda>k. k \<noteq> EncryptionKey rs) (map (\<lambda>k. take 32 (repl k '''')) (DecryptionKeys rs)))\<rparr>
        \<and> distinct (DecryptionKeys rs') \<and> (\<forall>k \<in> set (DecryptionKeys rs'). length k = 32)
        \<and> set (DecryptionKeys rs') = (\<lambda>k. take 32 (repl k '''')) ` set (DecryptionKeys rs) - {EncryptionKey rs}
    | Inl e \<Rightarrow> EncryptionKey rs = '''' \<or> (\<exists>k \<in> set (DecryptionKeys rs). length (repl k '''') < 32)"
proof (cases "EncryptionKey rs = ''''")
  case True
  with assms show ?thesis by (simp add: finalizeDecryptionKeys_def)
next
  case False
  show ?thesis
  proof (cases "decryptionKeysLoop repl (EncryptionKey rs) 0 (DecryptionKeys rs) []")
    case (Inl e)
    with False assms decryptionKeysLoop_error [OF Inl] show ?thesis by (simp add: finalizeDecryptionKeys_def)
  next
    case (Inr keys)
    have fin: "finalizeDecryptionKeys repl rs = Inr (rs\<lparr>DecryptionKeys := keys\<rparr>)"
      using False assms Inr by (simp add: finalizeDecryptionKeys_def)
    from decryptionKeysLoop_list [OF Inr]
    have len: "\<forall>k \<in> set (DecryptionKeys rs). 32 \<le> length (repl k '''')"
      and keys: "keys = first_occurrences (filter (\<lambda>k. k \<noteq> EncryptionKey rs) (map (\<lambda>k. take 32 (repl k '''')) (DecryptionKeys rs)))"
      by simp_all
    have "length k = 32" if k: "k \<in> set keys" for k
    proof -
      from k obtain x where "x \<in> set (DecryptionKeys rs)" "k = take 32 (repl x '''')" unfolding keys by auto
      with len show ?thesis by simp
    qed
    moreover have "set keys = (\<lambda>k. take 32 (repl k '''')) ` set (DecryptionKeys rs) - {EncryptionKey rs}"
      unfolding keys by auto
    moreover have "distinct keys" unfolding keys by simp
    moreover have sel: "DecryptionKeys (rs\<lparr>DecryptionKeys := keys\<rparr>) = keys" by simp
    ultimately show ?thesis unfolding fin sum.case sel using False len keys by blast
  qed
qed

definition ex_old_key :: string where
  "ex_old_key = ''0123456789abcdef0123456789abcdefX''"

theorem decryption_keys_kept_witness:
  "finalizeDecryptionKeys (\<lambda>v d. v) (New\<lparr>EncryptionKey := replicate 32 CHR ''k'', DecryptionKeys := [ex_old_key, replicate 40 CHR ''k'', ex_old_key]\<rparr>)
     = Inr (New\<lparr>EncryptionKey := replicate 32 CHR ''k'', DecryptionKeys := [take 32 ex_old_key]\<rparr>)"
proof -
  define rs where "rs = New\<lparr>EncryptionKey := replicate 32 CHR ''k'', DecryptionKeys := [ex_old_key, replicate 40 CHR ''k'', ex_old_key]\<rparr>"
  have len: "length ex_old_key = 33" by (simp add: ex_old_key_def)
  have ne: "take 32 ex_old_key \<noteq> replicate 32 CHR ''k''" by code_simp
  have K: "EncryptionKey rs = replicate 32 CHR ''k''" "DecryptionKeys rs = [ex_old_key, replicate 40 CHR ''k'', ex_old_key]"
    by (simp_all add: rs_def)
  have keep: "first_occurrences (filter (\<lambda>k. k \<noteq> EncryptionKey rs) (map (take 32) (DecryptionKeys rs))) = [take 32 ex_old_key]"
    unfolding K using ne by (simp add: first_occurrences_def)
  have short: "\<not> (EncryptionKey rs = '''' \<or> (\<exists>k \<in> set (DecryptionKeys rs). length k < 32))" unfolding K using len by simp
  have "DecryptionKeys rs \<noteq> []" unfolding K by simp
  note kept = decryption_keys_kept [OF this, of "\<lambda>v d. v"]
  have "finalizeDecryptionKeys (\<lambda>v d. v) rs = Inr (rs\<lparr>DecryptionKeys := [take 32 ex_old_key]\<rparr>)"
  proof (cases "finalizeDecryptionKeys (\<lambda>v d. v) rs")
    case (Inl e)
    show ?thesis using kept short unfolding Inl sum.case by contradiction
  next
    case (Inr rs')
    show ?thesis using kept unfolding Inr sum.case keep by (elim conjE) (simp only:)
  qed
  then show ?thesis unfolding rs_def by simp
qed

lemma pairAddresses_no_hosts:
  "pairAddresses h p [] ps = map (JoinHostPort h) ps"
  by (induction ps arbitrary: p) auto

lemma pairAddresses_no_ports:
  "pairAddresses h p hs [] = map (\<lambda>h. JoinHostPort h p) hs"
  by (induction hs arbitrary: h) auto

definition nth_or_last :: "string list \<Rightarrow> nat \<Rightarrow> string" where
  "nth_or_last xs i = (if i < length xs then xs ! i else last xs)"

lemma pairAddresses_nth:
  "hs \<noteq> [] \<Longrightarrow> ps \<noteq> [] \<Longrightarrow>
   pairAddresses h p hs ps = map (\<lambda>i. JoinHostPort (nth_or_last hs i) (nth_or_last ps i)) [0..<max (length hs) (length ps)]"
proof (induction h p hs ps rule: pairAddresses.induct)
  case (4 host port h hs p ps)
  have up: "[0..<max (length (h # hs)) (length (p # ps))] = 0 # map Suc [0..<max (length hs) (length ps)]"
    by (simp add: map_Suc_upt upt_conv_Cons del: upt_Suc)
  have nl: "nth_or_last (x # xs) (Suc i) = (if xs = [] then x else nth_or_last xs i)" for x xs i
    by (simp add: nth_or_last_def)
  consider "hs = []" | "ps = []" | "hs \<noteq> []" "ps \<noteq> []" by blast
  then show ?case
  proof cases
    case 1
    have "map (JoinHostPort h) ps = map (\<lambda>i. JoinHostPort h (if ps = [] then p else nth_or_last ps i)) [0..<length ps]"
      by (rule nth_equalityI) (auto simp: nth_or_last_def)
    with 1 show ?thesis unfolding up by (simp add: pairAddresses_no_hosts nl) (simp add: nth_or_last_def)
  next
    case 2
    have "map (\<lambda>h. JoinHostPort h p) hs = map (\<lambda>i. JoinHostPort (if hs = [] then h else nth_or_last hs i) p) [0..<length hs]"
      by (rule nth_equalityI) (auto simp: nth_or_last_def)
    with 2 show ?thesis unfolding up by (simp add: pairAddresses_no_ports nl) (simp add: nth_or_last_def)
  next
    case 3
    with 4 show ?thesis unfolding up by (simp add: nl) (simp add: nth_or_last_def)
  qed
qed auto

text \<open>
  Addresses built from hosts and ports: as many as the longer list has, the i-th from the i-th
  host and port, where the last entry of the shorter list is repeated.
\<close>

theorem paired_addresses:
  assumes "Address rs = []" and "Host rs \<noteq> []" and "Port rs \<noteq> []"
  shows "Address (finalizePairs rs) =
    map (\<lambda>i. JoinHostPort (nth_or_last (Host rs) i) (nth_or_last (Port rs) i)) [0..<max (length (Host rs)) (length (Port rs))]"
  using assms by (simp add: finalizePairs_def pairAddresses_nth)

theorem paired_addresses_witness:
  "Address (finalizePairs (New\<lparr>Host := [''a'', ''b'']\<rparr>)) =
    map (\<lambda>i. JoinHostPort (nth_or_last [''a'', ''b''] i) (nth_or_last [''6379''] i)) [0..<max 2 1]"
  using paired_addresses [of "New\<lparr>Host := [''a'', ''b'']\<rparr>"] by (simp add: New_def defaultPort_def)

end
