(* ===== verification/Health.thy ===== *)
theory Health
  imports Prelude Go_Net
begin

section \<open>Validation of certificate health data\<close>

text \<open>
  The predicates and encodings that \<open>certificate_observer.go\<close>, \<open>certificate_probe.go\<close> and
  \<open>certificate_reporter.go\<close> share: host names, issuer keys, hashes, bearer tokens, event
  identifiers, the probe address, and the mismatch candidate.
\<close>

subsection \<open>Definitions\<close>

record MismatchCandidate =
  Hostname :: string
  IssuerKey :: string
  CertificatePath :: string
  KeyPath :: string
  LeafSHA256 :: string
  CertificateSPKISHA256 :: string
  KeySPKISHA256 :: string

text \<open>\<open>strings.ToLower\<close>, for texts of ASCII characters; others fail the checks below in any case.\<close>

definition lower_char :: "char \<Rightarrow> char" where
  "lower_char c = (if in_range (CHR ''A'') (CHR ''Z'') c then char_of (byte c + 32) else c)"

definition ToLower :: "string \<Rightarrow> string" where
  "ToLower s = map lower_char s"

definition host_char :: "char \<Rightarrow> bool" where
  "host_char c = (in_range (CHR ''a'') (CHR ''z'') c \<or> is_digit c \<or> c = CHR ''-'')"

definition host_label :: "string \<Rightarrow> bool" where
  "host_label label = (length label > 0 \<and> length label \<le> 63 \<and> hd label \<noteq> CHR ''-'' \<and> last label \<noteq> CHR ''-''
     \<and> list_all host_char label)"

definition validHealthHostname :: "string \<Rightarrow> bool" where
  "validHealthHostname s =
     (if length s = 0 \<or> length s > 253 \<or> s \<noteq> ToLower s \<or> ParseIP s \<noteq> None then False
      else list_all host_label (Split CHR ''.'' s))"

definition issuer_char :: "char \<Rightarrow> bool" where
  "issuer_char c = (in_range (CHR ''a'') (CHR ''z'') c \<or> in_range (CHR ''A'') (CHR ''Z'') c \<or> is_digit c
     \<or> c \<in> {CHR ''_'', CHR ''-'', CHR ''.''})"

definition validHealthIssuer :: "string \<Rightarrow> bool" where
  "validHealthIssuer s =
     (if s = '''' \<or> s = ''.'' \<or> s = ''..'' \<or> length s > 128 then False else list_all issuer_char s)"

definition lower_hex_char :: "char \<Rightarrow> bool" where
  "lower_hex_char c = (is_digit c \<or> in_range (CHR ''a'') (CHR ''f'') c)"

definition lowerHex :: "string \<Rightarrow> nat \<Rightarrow> bool" where
  "lowerHex s n = (if length s \<noteq> n then False else list_all lower_hex_char s)"

definition validBearer :: "string \<Rightarrow> bool" where
  "validBearer s = (case RawURL_StrictDecode s of None \<Rightarrow> False
     | Some b \<Rightarrow> length b = 32 \<and> RawURL_Encode b = s)"

text \<open>A version 4 identifier from sixteen random bytes: \<open>b[6]&0x0f|0x40\<close> and \<open>b[8]&0x3f|0x80\<close>.\<close>

definition uuid_bytes :: "bytes \<Rightarrow> bytes" where
  "uuid_bytes b = b[6 := char_of (byte (b ! 6) mod 16 + 64), 8 := char_of (byte (b ! 8) mod 64 + 128)]"

definition certificateUUID :: "go_error + bytes \<Rightarrow> go_error + string" where
  "certificateUUID rnd = (case rnd of Inl e \<Rightarrow> Inl e
     | Inr b \<Rightarrow> (let h = hex_EncodeToString (uuid_bytes b) in
         Inr (take 8 h @ ''-'' @ take 4 (drop 8 h) @ ''-'' @ take 4 (drop 12 h) @ ''-'' @ take 4 (drop 16 h) @ ''-'' @ drop 20 h)))"

definition validCertificateUUID :: "string \<Rightarrow> bool" where
  "validCertificateUUID s = (length s = 36 \<and> s ! 8 = CHR ''-'' \<and> s ! 13 = CHR ''-'' \<and> s ! 18 = CHR ''-'' \<and> s ! 23 = CHR ''-''
     \<and> s ! 14 = CHR ''4'' \<and> s ! 19 \<in> set ''89ab'' \<and> lowerHex (filter (\<lambda>c. c \<noteq> CHR ''-'') s) 32)"

definition validProbeAddress :: "string \<Rightarrow> bool" where
  "validProbeAddress address = (case SplitHostPort address of None \<Rightarrow> False
     | Some (host, port) \<Rightarrow>
         (case ParseIP host of None \<Rightarrow> False | Some ip \<Rightarrow> IsLoopback ip)
         \<and> (case Atoi port of None \<Rightarrow> False | Some n \<Rightarrow> n > 0 \<and> n \<le> 65535))"

subsection \<open>Sinks of candidates\<close>

text \<open>
  The interface \<open>MismatchSink\<close>. A sink accepts a candidate or refuses it at once; \<open>pending s\<close>
  are the hosts it holds work for. An accepted host is pending, nothing else is added, a refused
  candidate adds nothing, and the number of hosts is bounded.
\<close>

locale mismatch_sink =
  fixes enq :: "MismatchCandidate \<Rightarrow> 's \<Rightarrow> bool \<times> 's"
    and sink_inv :: "'s \<Rightarrow> bool"
    and pending :: "'s \<Rightarrow> string set"
    and capacity :: nat
  assumes enq_inv: "sink_inv s \<Longrightarrow> enq c s = (b, s') \<Longrightarrow> sink_inv s'"
    and enq_accepts: "enq c s = (True, s') \<Longrightarrow> validHealthHostname (Hostname c) \<and> Hostname c \<in> pending s' \<and> pending s' \<subseteq> insert (Hostname c) (pending s)"
    and enq_refuses: "enq c s = (False, s') \<Longrightarrow> pending s' \<subseteq> pending s"
    and pending_bound: "sink_inv s \<Longrightarrow> finite (pending s) \<and> card (pending s) \<le> capacity"
begin

text \<open>Candidates offered one after the other; the answers in order.\<close>

lemma offers_keep_inv: "sink_inv s \<Longrightarrow> sink_inv (fold (\<lambda>c s. snd (enq c s)) cs s)"
  by (induction cs arbitrary: s) (auto intro: enq_inv prod.collapse [symmetric])

lemma offers_pending: "pending (fold (\<lambda>c s. snd (enq c s)) cs s) \<subseteq> pending s \<union> Hostname ` set cs"
proof (induction cs arbitrary: s)
  case (Cons c cs)
  obtain b s' where e: "enq c s = (b, s')" by fastforce
  then have "pending s' \<subseteq> insert (Hostname c) (pending s)"
    using enq_accepts [of c s s'] enq_refuses [of c s s'] by (cases b) auto
  then show ?case using Cons.IH [of s'] e by auto
qed simp

lemma offers_bound: "sink_inv s \<Longrightarrow> card (pending (fold (\<lambda>c s. snd (enq c s)) cs s)) \<le> capacity"
  using offers_keep_inv pending_bound by blast

end

subsection \<open>Lemmas\<close>

lemma validBearer_iff: "validBearer s \<longleftrightarrow> (\<exists>b. length b = 32 \<and> s = RawURL_Encode b)"
proof
  assume "\<exists>b. length b = 32 \<and> s = RawURL_Encode b"
  then show "validBearer s" by (auto simp: validBearer_def RawURL_roundtrip)
qed (auto simp: validBearer_def split: option.splits)

lemma hex_char_lower: "d < 16 \<Longrightarrow> lower_hex_char (hex_char d)"
  by (auto simp: hex_char_def lower_hex_char_def is_digit_def in_range_def byte_def)

lemma hex_EncodeToString_lower: "lowerHex (hex_EncodeToString bs) (2 * length bs)"
proof -
  have "byte c < 256" for c by (simp add: byte_def)
  then have "byte c div 16 < 16" for c by (metis less_mult_imp_div_less mult.commute numeral_times_numeral semiring_norm(12,13))
  then have "list_all lower_hex_char (hex_EncodeToString bs)"
    by (induction bs) (simp_all add: hex_EncodeToString_def hex_char_lower)
  then show ?thesis by (simp add: lowerHex_def)
qed

lemma lower_hex_no_dash: "lower_hex_char c \<Longrightarrow> c \<noteq> CHR ''-''"
  by (auto simp: lower_hex_char_def is_digit_def in_range_def byte_def)

lemma hex_nth:
  "i < length bs \<Longrightarrow> hex_EncodeToString bs ! (2 * i) = hex_char (byte (bs ! i) div 16)"
  by (induction bs arbitrary: i) (auto simp: hex_EncodeToString_def nth_Cons split: nat.split)

lemma uuid_shape:
  assumes "length b = 16" and "certificateUUID (Inr b) = Inr s"
  defines "h \<equiv> hex_EncodeToString (uuid_bytes b)"
  shows "length s = 36" and "s ! 8 = CHR ''-''" and "s ! 13 = CHR ''-''" and "s ! 18 = CHR ''-''" and "s ! 23 = CHR ''-''"
    and "s ! 14 = h ! 12" and "s ! 19 = h ! 16" and "filter (\<lambda>c. c \<noteq> CHR ''-'') s = h"
proof -
  have len: "length h = 32" using assms(1) by (simp add: h_def uuid_bytes_def)
  have s: "s = take 8 h @ ''-'' @ take 4 (drop 8 h) @ ''-'' @ take 4 (drop 12 h) @ ''-'' @ take 4 (drop 16 h) @ ''-'' @ drop 20 h"
    using assms(2) by (simp add: certificateUUID_def h_def Let_def)
  show "length s = 36" "s ! 8 = CHR ''-''" "s ! 13 = CHR ''-''" "s ! 18 = CHR ''-''" "s ! 23 = CHR ''-''"
    "s ! 14 = h ! 12" "s ! 19 = h ! 16"
    unfolding s using len by (simp_all add: nth_append)
  have "\<forall>c \<in> set h. c \<noteq> CHR ''-''"
    using hex_EncodeToString_lower [of "uuid_bytes b"] lower_hex_no_dash
    by (auto simp: lowerHex_def list_all_iff h_def)
  then have f: "filter (\<lambda>c. c \<noteq> CHR ''-'') x = x" if "set x \<subseteq> set h" for x using that by (auto simp: filter_id_conv)
  have "set (take 8 h) \<subseteq> set h" "set (take 4 (drop i h)) \<subseteq> set h" "set (drop 20 h) \<subseteq> set h" for i
    by (auto dest: in_set_takeD in_set_dropD)
  then have "filter (\<lambda>c. c \<noteq> CHR ''-'') s =
      take 8 h @ take 4 (drop 8 h) @ take 4 (drop 12 h) @ take 4 (drop 16 h) @ drop 20 h"
    unfolding s by (simp add: f)
  also have "\<dots> = h"
    using append_take_drop_id [of 8 h] append_take_drop_id [of 4 "drop 8 h"] append_take_drop_id [of 4 "drop 12 h"]
      append_take_drop_id [of 4 "drop 16 h"] by simp
  finally show "filter (\<lambda>c. c \<noteq> CHR ''-'') s = h" .
qed

subsection \<open>Properties\<close>

lemma uuid_hex_chars: "hex_char 4 = CHR ''4''" "hex_char 8 = CHR ''8''" "hex_char 9 = CHR ''9''"
  "hex_char 10 = CHR ''a''" "hex_char 11 = CHR ''b''"
  by code_simp+

lemma uuid_byte6:
  assumes "length b = 16"
  shows "hex_EncodeToString (uuid_bytes b) ! 12 = CHR ''4''"
proof -
  have "(byte (b ! 6) mod 16 + 64) div 16 = 4" by simp
  then show ?thesis
    using hex_nth [of 6 "uuid_bytes b"] assms uuid_hex_chars(1) by (simp add: uuid_bytes_def byte_def)
qed

lemma uuid_byte8:
  assumes "length b = 16"
  shows "hex_EncodeToString (uuid_bytes b) ! 16 \<in> set ''89ab''"
proof -
  define v where "v = (byte (b ! 8) mod 64 + 128) div 16"
  have "byte (b ! 8) mod 64 < 64" by simp
  then have v: "8 \<le> v" "v < 12" unfolding v_def by linarith+
  have "hex_EncodeToString (uuid_bytes b) ! 16 = hex_char v"
    using hex_nth [of 8 "uuid_bytes b"] assms by (simp add: uuid_bytes_def byte_def v_def)
  moreover have "v = 8 \<or> v = 9 \<or> v = 10 \<or> v = 11" using v by linarith
  ultimately show ?thesis using uuid_hex_chars by auto
qed

text \<open>
  C21. An event identifier made from any sixteen random bytes is accepted by the validation of
  identifiers, and an error of the random source is passed on.
\<close>

theorem generated_uuid_valid:
  "(length b = 16 \<longrightarrow> (\<exists>s. certificateUUID (Inr b) = Inr s \<and> validCertificateUUID s)) \<and> certificateUUID (Inl e) = Inl e"
proof (intro conjI impI)
  assume len: "length b = 16"
  obtain s where s: "certificateUUID (Inr b) = Inr s" by (simp add: certificateUUID_def Let_def)
  note shape = uuid_shape [OF len s]
  have "lowerHex (hex_EncodeToString (uuid_bytes b)) 32"
    using hex_EncodeToString_lower [of "uuid_bytes b"] len by (simp add: uuid_bytes_def)
  then have "validCertificateUUID s"
    unfolding validCertificateUUID_def using shape uuid_byte6 [OF len] uuid_byte8 [OF len] by simp
  with s show "\<exists>s. certificateUUID (Inr b) = Inr s \<and> validCertificateUUID s" by blast
qed (simp add: certificateUUID_def)

theorem generated_uuid_valid_witness:
  "(\<exists>s. certificateUUID (Inr (replicate 16 (CHR ''x''))) = Inr s \<and> validCertificateUUID s)
    \<and> certificateUUID (Inl (errors_New ''no entropy'')) = Inl (errors_New ''no entropy'')"
  using generated_uuid_valid [of "replicate 16 (CHR ''x'')" "errors_New ''no entropy''"] by simp

text \<open>A bearer token is valid exactly when it is the raw URL encoding of 32 bytes.\<close>

theorem bearer_tokens: "validBearer s \<longleftrightarrow> (\<exists>b. length b = 32 \<and> s = RawURL_Encode b)"
  by (rule validBearer_iff)

end
