(* ===== verification/Handshake.thy ===== *)
theory Handshake
  imports Storage Observer
begin

section \<open>The handshake context\<close>

text \<open>
  \<open>handshake_context.go\<close>: the module that attaches an observer to the context of a TLS handshake,
  and what \<open>Load\<close> does with it. A sink is its \<open>TryEnqueue\<close>; the context of a handshake is the
  observer it carries, if any.
\<close>

record 's CertificateHealthContext =
  hc_sink :: "(MismatchCandidate \<Rightarrow> 's \<Rightarrow> bool \<times> 's) option"

definition NewCertificateHealthContext ::
    "(MismatchCandidate \<Rightarrow> 's \<Rightarrow> bool \<times> 's) option \<Rightarrow> 's CertificateHealthContext" where
  "NewCertificateHealthContext sink = \<lparr>hc_sink = sink\<rparr>"

text \<open>
  \<open>AppIfConfigured\<close> gives an error or an app; the app is \<^term>\<open>None\<close> when it is not a sink.
\<close>

definition HealthContext_Provision ::
    "go_error + (MismatchCandidate \<Rightarrow> 's \<Rightarrow> bool \<times> 's) option \<Rightarrow> 's CertificateHealthContext
      \<Rightarrow> go_error option \<times> 's CertificateHealthContext" where
  "HealthContext_Provision app h = (case app of Inl err \<Rightarrow> (None, h) | Inr sink \<Rightarrow> (None, h\<lparr>hc_sink := sink\<rparr>))"

definition HandshakeContext ::
    "'s CertificateHealthContext \<Rightarrow> string \<Rightarrow> certificateObserver option \<Rightarrow> certificateObserver option" where
  "HandshakeContext h serverName ctx =
     (if hc_sink h = None \<or> \<not> validHealthHostname serverName then ctx else Some (newCertificateObserver serverName))"

text \<open>
  A load in a handshake: the storage returns the value, and the observer of the context, if there
  is one, sees it. The observer and its sink are kept beside the process.
\<close>

definition observedLoad ::
    "'w deps \<Rightarrow> RedisStorage \<Rightarrow> cryptolib \<Rightarrow> 's CertificateHealthContext \<Rightarrow> string
      \<Rightarrow> 'w proc \<times> certificateObserver option \<times> 's \<Rightarrow> (bytes outcome \<times> 'w proc \<times> certificateObserver option \<times> 's) option" where
  "observedLoad D rs L h key st = (case st of (s, ctx, x) \<Rightarrow>
     (case Load D rs None key s of None \<Rightarrow> None
      | Some (Ok v, s') \<Rightarrow> (case ctx of None \<Rightarrow> Some (Ok v, s', ctx, x)
          | Some ob \<Rightarrow> (case Observe L (hc_sink h) key v (ob, x) of (ob', x') \<Rightarrow> Some (Ok v, s', Some ob', x')))
      | Some (r, s') \<Rightarrow> Some (r, s', ctx, x)))"


lemma observedLoad_Ok:
  "Load D rs None key s = Some (Ok v, s') \<Longrightarrow> hc_sink h = Some enq \<Longrightarrow> observeRead L ob key v = (ob', c) \<Longrightarrow>
    observedLoad D rs L h key (s, Some ob, x) =
      Some (Ok v, s', Some ob', (case c of None \<Rightarrow> x | Some c \<Rightarrow> snd (enq c x)))"
  by (auto simp: observedLoad_def Observe_def split: option.split)


lemma observedLoad_two:
  assumes "Load D rs None k1 s = Some (Ok v1, s1)" and "Load D rs None k2 s1 = Some (Ok v2, s2)" and "hc_sink h = Some enq"
    and "snd (observeReads L ob [(k1, v1), (k2, v2)]) = [c]"
  shows "\<exists>t ob2. observedLoad D rs L h k1 (s, Some ob, x) = Some (Ok v1, t)
    \<and> observedLoad D rs L h k2 t = Some (Ok v2, s2, Some ob2, snd (enq c x))"
proof -
  obtain ob1 c1 where r1: "observeRead L ob k1 v1 = (ob1, c1)" by fastforce
  obtain ob2 c2 where r2: "observeRead L ob1 k2 v2 = (ob2, c2)" by fastforce
  have "c1 = Some c \<and> c2 = None \<or> c1 = None \<and> c2 = Some c"
    using assms(4) r1 r2 by (auto split: option.splits)
  then show ?thesis
    using observedLoad_Ok [OF assms(1,3) r1, of x] observedLoad_Ok [OF assms(2,3) r2] by auto
qed

end
