(* ===== verification/Go_Codec.thy ===== *)
theory Go_Codec
  imports Go_Net
begin

section \<open>JSON tokens and RFC 3339 times of the Go library\<close>

text \<open>
  What \<open>parseCertificateAcceptance\<close> uses of \<open>encoding/json\<close> and \<open>time\<close>: a decoder read token by
  token and member by member, and times in RFC 3339 form.
\<close>

subsection \<open>Strings\<close>

definition json_space :: "char \<Rightarrow> bool" where
  "json_space c = (c \<in> {CHR '' '', CHR 0x09, CHR 0x0A, CHR 0x0D})"

definition skipSpace :: "string \<Rightarrow> string" where
  "skipSpace s = dropWhile json_space s"

definition runeError :: string where "runeError = [CHR 0xEF, CHR 0xBF, CHR 0xBD]"

text \<open>UTF-8: the encoding of a code point, and the length of a valid sequence at the front of a text.\<close>

definition encodeRune :: "nat \<Rightarrow> string" where
  "encodeRune r =
     (if r < 0x80 then [char_of r]
      else if r < 0x800 then [char_of (0xC0 + r div 64), char_of (0x80 + r mod 64)]
      else if r < 0x10000 then [char_of (0xE0 + r div 4096), char_of (0x80 + r div 64 mod 64), char_of (0x80 + r mod 64)]
      else [char_of (0xF0 + r div 262144), char_of (0x80 + r div 4096 mod 64), char_of (0x80 + r div 64 mod 64), char_of (0x80 + r mod 64)])"

definition byte_in :: "nat \<Rightarrow> nat \<Rightarrow> string \<Rightarrow> nat \<Rightarrow> bool" where
  "byte_in lo hi s i = (i < length s \<and> lo \<le> byte (s ! i) \<and> byte (s ! i) \<le> hi)"

definition runeLen :: "string \<Rightarrow> nat" where
  "runeLen s =
     (if byte_in 0xC2 0xDF s 0 \<and> byte_in 0x80 0xBF s 1 then 2
      else if (byte_in 0xE0 0xE0 s 0 \<and> byte_in 0xA0 0xBF s 1 \<or> byte_in 0xE1 0xEC s 0 \<and> byte_in 0x80 0xBF s 1
          \<or> byte_in 0xED 0xED s 0 \<and> byte_in 0x80 0x9F s 1 \<or> byte_in 0xEE 0xEF s 0 \<and> byte_in 0x80 0xBF s 1)
        \<and> byte_in 0x80 0xBF s 2 then 3
      else if (byte_in 0xF0 0xF0 s 0 \<and> byte_in 0x90 0xBF s 1 \<or> byte_in 0xF1 0xF3 s 0 \<and> byte_in 0x80 0xBF s 1
          \<or> byte_in 0xF4 0xF4 s 0 \<and> byte_in 0x80 0x8F s 1)
        \<and> byte_in 0x80 0xBF s 2 \<and> byte_in 0x80 0xBF s 3 then 4
      else 0)"

text \<open>Four hexadecimal digits after a backslash and \<open>u\<close>.\<close>

definition getu4 :: "string \<Rightarrow> nat option" where
  "getu4 s = (case s of
      b # u # h1 # h2 # h3 # h4 # r \<Rightarrow>
        if b = CHR 0x5C \<and> u = CHR ''u'' \<and> list_all (\<lambda>h. hex_digit h \<noteq> None) [h1, h2, h3, h4]
        then Some (hex_val [h1, h2, h3, h4]) else None
    | _ \<Rightarrow> None)"

definition simple_escape :: "char \<Rightarrow> char option" where
  "simple_escape c = map_of [(CHR 0x22, CHR 0x22), (CHR 0x5C, CHR 0x5C), (CHR ''/'', CHR ''/''), (CHR ''b'', CHR 0x08),
     (CHR ''f'', CHR 0x0C), (CHR ''n'', CHR 0x0A), (CHR ''r'', CHR 0x0D), (CHR ''t'', CHR 0x09)] c"

text \<open>One character of a string literal: its bytes in the decoded text and its length in the input.\<close>

definition unquote1 :: "string \<Rightarrow> (string \<times> nat) option" where
  "unquote1 s = (case s of [] \<Rightarrow> None
    | c # r \<Rightarrow>
        if c = CHR 0x5C
        then (case r of [] \<Rightarrow> None
          | e # _ \<Rightarrow> (case simple_escape e of Some x \<Rightarrow> Some ([x], 2)
              | None \<Rightarrow> (case getu4 s of None \<Rightarrow> None
                  | Some u \<Rightarrow>
                      if 0xD800 \<le> u \<and> u < 0xE000
                      then (case getu4 (drop 6 s) of
                          Some v \<Rightarrow> if u < 0xDC00 \<and> 0xDC00 \<le> v \<and> v < 0xE000
                            then Some (encodeRune (0x10000 + (u - 0xD800) * 1024 + (v - 0xDC00)), 12)
                            else Some (runeError, 6)
                        | None \<Rightarrow> Some (runeError, 6))
                      else Some (encodeRune u, 6))))
        else if byte c < 0x20 then None
        else if byte c < 0x80 then Some ([c], 1)
        else if runeLen s = 0 then Some (runeError, 1) else Some (take (runeLen s) s, runeLen s))"

lemma unquote1_pos: "unquote1 s = Some (x, n) \<Longrightarrow> s \<noteq> [] \<and> 0 < n"
  by (auto simp: unquote1_def split: list.splits if_splits option.splits)

text \<open>The rest of a string literal: the decoded text and what follows the closing quote.\<close>

function jsonString :: "string \<Rightarrow> (string \<times> string) option" where
  "jsonString s =
     (if HasPrefix s [CHR 0x22] then Some ([], drop 1 s)
      else case unquote1 s of None \<Rightarrow> None
        | Some (x, n) \<Rightarrow> (case jsonString (drop n s) of None \<Rightarrow> None | Some (t, r) \<Rightarrow> Some (x @ t, r)))"
  by pat_completeness auto
termination by (relation "measure length") (auto dest: unquote1_pos)

declare jsonString.simps [simp del]

lemma jsonString_shorter: "jsonString s = Some (t, r) \<Longrightarrow> length r < length s"
proof (induction s arbitrary: t rule: jsonString.induct)
  case (1 s)
  show ?case
  proof (cases "HasPrefix s [CHR 0x22]")
    case True
    then show ?thesis using "1.prems" by (subst (asm) jsonString.simps) (cases s, auto simp: HasPrefix_def)
  next
    case False
    with "1.prems" obtain x n t' where u: "unquote1 s = Some (x, n)" and r: "jsonString (drop n s) = Some (t', r)"
      by (subst (asm) jsonString.simps) (auto split: option.splits)
    from "1.IH" [OF False u refl r] show ?thesis by simp
  qed
qed


subsection \<open>The decoder\<close>

text \<open>
  \<open>json.Decoder\<close>: the state of its tokenizer and the input that is left. The callers open one
  object, so the states inside arrays and the stack of enclosing values do not occur; a token that
  is a whole value is \<open>OtherTok\<close>, which the callers refuse.
\<close>

datatype tokenState = TopValue | ObjectStart | ObjectKey | ObjectColon | ObjectValue | ObjectComma

datatype json_token = OpenTok | CloseTok | StringTok string | OtherTok

datatype json_error = EOF | SyntaxError

definition valueAllowed :: "tokenState \<Rightarrow> bool" where
  "valueAllowed st = (st = TopValue \<or> st = ObjectValue)"

definition tokenAfter :: "tokenState \<Rightarrow> string \<Rightarrow> json_error + json_token \<times> tokenState \<times> string" where
  "tokenAfter st s = (case skipSpace s of [] \<Rightarrow> Inl EOF
    | c # r \<Rightarrow>
        if c = CHR ''{'' then (if valueAllowed st then Inr (OpenTok, ObjectStart, r) else Inl SyntaxError)
        else if c = CHR ''}'' then (if st = ObjectStart \<or> st = ObjectComma then Inr (CloseTok, TopValue, r) else Inl SyntaxError)
        else if c = CHR 0x22 \<and> (st = ObjectStart \<or> st = ObjectKey)
        then (case jsonString r of None \<Rightarrow> Inl SyntaxError | Some (x, r) \<Rightarrow> Inr (StringTok x, ObjectColon, r))
        else if c = CHR '','' \<or> c = CHR '':'' \<or> c = CHR '']'' \<or> \<not> valueAllowed st then Inl SyntaxError
        else Inr (OtherTok, st, r))"

definition Token :: "tokenState \<Rightarrow> string \<Rightarrow> json_error + json_token \<times> tokenState \<times> string" where
  "Token st s = (case skipSpace s of [] \<Rightarrow> Inl EOF
    | c # r \<Rightarrow>
        if c = CHR '','' then (if st = ObjectComma then tokenAfter ObjectKey r else Inl SyntaxError)
        else if c = CHR '':'' then (if st = ObjectColon then tokenAfter ObjectValue r else Inl SyntaxError)
        else tokenAfter st (c # r))"

definition More :: "string \<Rightarrow> bool" where
  "More s = (case skipSpace s of [] \<Rightarrow> False | c # r \<Rightarrow> c \<noteq> CHR '']'' \<and> c \<noteq> CHR ''}'')"

text \<open>
  \<open>Decode\<close> of a member after its key, into a string or an int: \<open>null\<close> leaves the variable as it
  is; a value of another kind is an error, well-formed or not.
\<close>

definition memberValue :: "tokenState \<Rightarrow> string \<Rightarrow> string option" where
  "memberValue st s = (if st \<noteq> ObjectColon then None
     else case skipSpace s of c # r \<Rightarrow> if c = CHR '':'' then Some (skipSpace r) else None | [] \<Rightarrow> None)"

definition Decode_string :: "string \<Rightarrow> tokenState \<Rightarrow> string \<Rightarrow> (string \<times> string) option" where
  "Decode_string old st s = (case memberValue st s of None \<Rightarrow> None
    | Some v \<Rightarrow> if HasPrefix v [CHR 0x22] then jsonString (drop 1 v)
        else if HasPrefix v ''null'' then Some (old, drop 4 v) else None)"

text \<open>An integer literal; one that goes on with a fraction or an exponent does not fit an int.\<close>

definition intLiteral :: "string \<Rightarrow> string" where
  "intLiteral v =
     (let sg = (if HasPrefix v ''-'' then ''-'' else ''''); u = drop (length sg) v
      in sg @ (if HasPrefix u ''0'' then ''0'' else takeWhile is_digit u))"

definition Decode_int :: "int \<Rightarrow> tokenState \<Rightarrow> string \<Rightarrow> (int \<times> string) option" where
  "Decode_int old st s = (case memberValue st s of None \<Rightarrow> None
    | Some v \<Rightarrow>
        if HasPrefix v ''null'' then Some (old, drop 4 v)
        else let lit = intLiteral v; r = drop (length lit) v
             in if HasPrefix r ''.'' \<or> HasPrefix r ''e'' \<or> HasPrefix r ''E'' then None
                else map_option (\<lambda>n. (n, r)) (Atoi lit))"

lemma skipSpace_le: "length (skipSpace s) \<le> length s"
  by (simp add: skipSpace_def length_dropWhile_le)

lemma tokenAfter_shorter: "tokenAfter st s = Inr (tk, st', r) \<Longrightarrow> length r < length s"
proof -
  assume t: "tokenAfter st s = Inr (tk, st', r)"
  then obtain c u where c: "skipSpace s = c # u" by (auto simp: tokenAfter_def split: list.splits)
  with t have "length r \<le> length u"
    by (auto simp: tokenAfter_def split: if_splits option.splits dest: jsonString_shorter)
  then show ?thesis using skipSpace_le [of s] c by simp
qed

lemma Token_shorter: "Token st s = Inr (tk, st', r) \<Longrightarrow> length r < length s"
proof -
  assume t: "Token st s = Inr (tk, st', r)"
  then obtain c u where c: "skipSpace s = c # u" by (auto simp: Token_def split: list.splits)
  with t have "length r < length (c # u)"
    by (auto simp: Token_def split: if_splits dest!: tokenAfter_shorter)
  then show ?thesis using skipSpace_le [of s] c by simp
qed

lemma memberValue_le: "memberValue st s = Some v \<Longrightarrow> length v \<le> length s"
proof -
  assume m: "memberValue st s = Some v"
  then obtain r where r: "skipSpace s = CHR '':'' # r" "v = skipSpace r"
    by (auto simp: memberValue_def split: if_splits list.splits)
  then show ?thesis using skipSpace_le [of s] skipSpace_le [of r] by simp
qed

lemma Decode_string_le: "Decode_string old st s = Some (x, r) \<Longrightarrow> length r \<le> length s"
  by (force simp: Decode_string_def split: option.splits if_splits dest: memberValue_le jsonString_shorter)

lemma Decode_int_le: "Decode_int old st s = Some (x, r) \<Longrightarrow> length r \<le> length s"
  by (force simp: Decode_int_def Let_def split: option.splits if_splits dest: memberValue_le)

subsection \<open>Printing JSON\<close>

text \<open>\<open>json.Marshal\<close> of a string, with the escapes for HTML that are on by default.\<close>

definition escapeASCII :: "char \<Rightarrow> string" where
  "escapeASCII c =
     (if c = CHR 0x22 \<or> c = CHR 0x5C then [CHR 0x5C, c]
      else if c = CHR 0x08 then [CHR 0x5C, CHR ''b''] else if c = CHR 0x0C then [CHR 0x5C, CHR ''f'']
      else if c = CHR 0x0A then [CHR 0x5C, CHR ''n''] else if c = CHR 0x0D then [CHR 0x5C, CHR ''r'']
      else if c = CHR 0x09 then [CHR 0x5C, CHR ''t'']
      else if byte c < 0x20 \<or> c = CHR ''<'' \<or> c = CHR ''>'' \<or> c = CHR ''&''
      then CHR 0x5C # ''u00'' @ [hex_char (byte c div 16), hex_char (byte c mod 16)]
      else [c])"

function json_escape :: "string \<Rightarrow> string" where
  "json_escape s = (case s of [] \<Rightarrow> []
    | c # r \<Rightarrow>
        if byte c < 0x80 then escapeASCII c @ json_escape r
        else if runeLen s = 0 then CHR 0x5C # ''ufffd'' @ json_escape r
        else (if take 3 s = [CHR 0xE2, CHR 0x80, CHR 0xA8] then CHR 0x5C # ''u2028''
              else if take 3 s = [CHR 0xE2, CHR 0x80, CHR 0xA9] then CHR 0x5C # ''u2029''
              else take (runeLen s) s) @ json_escape (drop (runeLen s) s))"
  by pat_completeness auto
termination by (relation "measure length") auto

declare json_escape.simps [simp del]

definition json_quote :: "string \<Rightarrow> string" where
  "json_quote s = CHR 0x22 # json_escape s @ [CHR 0x22]"

text \<open>An object with its members in order; a member may be left out when empty.\<close>

definition json_member :: "string \<Rightarrow> string \<Rightarrow> string list" where
  "json_member name v = [json_quote name @ CHR '':'' # v]"

definition json_omitempty :: "string \<Rightarrow> string \<Rightarrow> string list" where
  "json_omitempty name v = (if v = '''' then [] else json_member name (json_quote v))"

definition json_object :: "string list \<Rightarrow> string" where
  "json_object ms = CHR ''{'' # Join_with '','' ms @ ''}''"

subsection \<open>Times\<close>

text \<open>Times are nanoseconds since the Unix epoch; the zero time of Go is the first day of year one.\<close>

type_synonym gotime = int

definition Second :: int where "Second = 10 ^ 9"
definition zeroTime :: gotime where "zeroTime = - 62135596800 * Second"

text \<open>\<open>Truncate(time.Second)\<close>.\<close>

definition TruncateSecond :: "gotime \<Rightarrow> gotime" where
  "TruncateSecond t = t - t mod Second"

text \<open>The days from the epoch to a date of the Gregorian calendar, and back; years begin in March.\<close>

definition days_from_civil :: "int \<Rightarrow> int \<Rightarrow> int \<Rightarrow> int" where
  "days_from_civil y m d =
     (let y = (if m \<le> 2 then y - 1 else y); yoe = y mod 400;
          doy = (153 * (if m > 2 then m - 3 else m + 9) + 2) div 5 + d - 1
      in y div 400 * 146097 + (yoe * 365 + yoe div 4 - yoe div 100 + doy) - 719468)"

definition civil_from_days :: "int \<Rightarrow> int \<times> int \<times> int" where
  "civil_from_days days =
     (let z = days + 719468; doe = z mod 146097;
          yoe = (doe - doe div 1460 + doe div 36524 - doe div 146096) div 365;
          doy = doe - (365 * yoe + yoe div 4 - yoe div 100);
          mp = (5 * doy + 2) div 153; m = (if mp < 10 then mp + 3 else mp - 9)
      in (yoe + z div 146097 * 400 + (if m \<le> 2 then 1 else 0), m, doy - (153 * mp + 2) div 5 + 1))"

definition isLeap :: "nat \<Rightarrow> bool" where
  "isLeap y = (y mod 4 = 0 \<and> (y mod 100 \<noteq> 0 \<or> y mod 400 = 0))"

definition daysIn :: "nat \<Rightarrow> nat \<Rightarrow> nat" where
  "daysIn m y = (if m = 2 then (if isLeap y then 29 else 28) else if m \<in> {4, 6, 9, 11} then 30 else 31)"

definition pad :: "nat \<Rightarrow> int \<Rightarrow> string" where
  "pad w v = (let ds = digits_of (nat \<bar>v\<bar>) in (if v < 0 then ''-'' else '''') @ replicate (w - length ds) (CHR ''0'') @ ds)"

text \<open>\<open>UTC().Format(time.RFC3339)\<close>.\<close>

definition FormatRFC3339 :: "gotime \<Rightarrow> string" where
  "FormatRFC3339 t =
     (let secs = t div Second; rem = secs mod 86400 in
      case civil_from_days (secs div 86400) of (y, m, d) \<Rightarrow>
        pad 4 y @ ''-'' @ pad 2 m @ ''-'' @ pad 2 d @ ''T'' @ pad 2 (rem div 3600) @ '':'' @ pad 2 (rem div 60 mod 60)
          @ '':'' @ pad 2 (rem mod 60) @ ''Z'')"

text \<open>A number at a position of the text, within bounds.\<close>

definition numAt :: "string \<Rightarrow> nat \<Rightarrow> nat \<Rightarrow> nat \<Rightarrow> nat \<Rightarrow> nat option" where
  "numAt s i n lo hi = (let ds = take n (drop i s) in
     if list_all is_digit ds \<and> lo \<le> decimal_val ds \<and> decimal_val ds \<le> hi then Some (decimal_val ds) else None)"

text \<open>The fraction after the seconds in nanoseconds, at most nine digits of it, and the rest.\<close>

definition fraction :: "string \<Rightarrow> nat \<times> string" where
  "fraction s =
     (let ds = takeWhile is_digit (drop 1 s); kept = take 9 ds
      in if HasPrefix s ''.'' \<and> ds \<noteq> [] then (decimal_val kept * 10 ^ (9 - length kept), drop (1 + length ds) s) else (0, s))"

text \<open>The zone in seconds east of Greenwich.\<close>

definition zone :: "string \<Rightarrow> int option" where
  "zone s = (if s = ''Z'' then Some 0
     else if length s \<noteq> 6 \<or> s ! 0 \<noteq> CHR ''-'' \<and> s ! 0 \<noteq> CHR ''+'' \<or> s ! 3 \<noteq> CHR '':'' then None
     else case (numAt s 1 2 0 23, numAt s 4 2 0 59) of
       (Some h, Some m) \<Rightarrow> Some ((if s ! 0 = CHR ''-'' then - 1 else 1) * int (h * 3600 + m * 60))
     | _ \<Rightarrow> None)"

text \<open>
  \<open>time.Parse(time.RFC3339, s)\<close> in the strict form of the standard. The library falls back to a
  laxer reading (a one-digit hour, a comma before the fraction); a text read that way is never
  what \<open>FormatRFC3339\<close> prints, and the caller compares with that.
\<close>

definition ParseRFC3339 :: "string \<Rightarrow> gotime option" where
  "ParseRFC3339 s =
     (if length s < 19 \<or> s ! 4 \<noteq> CHR ''-'' \<or> s ! 7 \<noteq> CHR ''-'' \<or> s ! 10 \<noteq> CHR ''T'' \<or> s ! 13 \<noteq> CHR '':'' \<or> s ! 16 \<noteq> CHR '':'' then None
      else case (numAt s 0 4 0 9999, numAt s 5 2 1 12) of
        (Some y, Some mo) \<Rightarrow>
          (case (numAt s 8 2 1 (daysIn mo y), numAt s 11 2 0 23, numAt s 14 2 0 59, numAt s 17 2 0 59) of
             (Some d, Some h, Some mi, Some sec) \<Rightarrow>
               (case fraction (drop 19 s) of (nsec, r) \<Rightarrow> (case zone r of None \<Rightarrow> None
                  | Some off \<Rightarrow> Some ((days_from_civil (int y) (int mo) (int d) * 86400 + int (h * 3600 + mi * 60 + sec) - off) * Second
                      + int nsec)))
           | _ \<Rightarrow> None)
      | _ \<Rightarrow> None)"

end
