(* ===== verification/Probe.thy ===== *)
theory Probe
  imports Health Go_Codec
begin

section \<open>Confirming a mismatch over local TLS\<close>

text \<open>
  \<open>certificate_probe.go\<close>: the probe dials the local listener and classifies the handshake, and
  the confirming sink runs at most sixteen probes in goroutines of their own before it hands a
  candidate on. The TLS dialer is a parameter; the goroutines are a step relation.
\<close>

subsection \<open>The probe\<close>


definition TLSAlert :: string where "TLSAlert = ''tls_alert''"
definition CertificateInvalid :: string where "CertificateInvalid = ''certificate_invalid''"
definition TLSValid :: string where "TLSValid = ''valid''"

lemmas tls_result_defs = TLSAlert_def CertificateInvalid_def TLSValid_def

record 'p LocalCertificateProbe =
  Address :: string
  RootCAs :: "'p option"
  ClientAuth :: bool

record CertificateProbeResult =
  Result :: string
  CheckedAt :: gotime
  ServedLeafSHA256 :: string

definition emptyResult :: CertificateProbeResult where
  "emptyResult = \<lparr>Result = '''', CheckedAt = zeroTime, ServedLeafSHA256 = ''''\<rparr>"

text \<open>
  What a dial with the three second limit ends with: the state of the connection (the number of
  verified chains and the certificates of the peer), or an error. Of an error the source asks
  whether a certificate verification error is in its chain, and for the operation of a network
  error in it. \<open>dl_Now\<close> is the clock after the dial, \<open>dl_CtxErr\<close> whether the context has ended.
\<close>

datatype dial_outcome = Connected nat "bytes list" | DialError bool "string option"

record dialed =
  dl_Outcome :: dial_outcome
  dl_Now :: gotime
  dl_CtxErr :: bool

text \<open>The arguments of the dial: server name, roots, minimal version and address.\<close>

record 'p dial_args =
  da_ServerName :: string
  da_RootCAs :: "'p option"
  da_MinVersion :: nat
  da_Address :: string

definition VersionTLS12 :: nat where "VersionTLS12 = 0x0303"

definition classify :: "(bytes \<Rightarrow> bytes) \<Rightarrow> dialed \<Rightarrow> CertificateProbeResult" where
  "classify sha d =
     (let result = emptyResult\<lparr>CheckedAt := TruncateSecond (dl_Now d)\<rparr> in
      case dl_Outcome d of
        Connected verifiedChains peers \<Rightarrow>
          (if verifiedChains > 0 \<and> length peers > 0
           then result\<lparr>Result := TLSValid, ServedLeafSHA256 := hex_EncodeToString (sha (hd peers))\<rparr>
           else result)
      | DialError verification remoteOp \<Rightarrow>
          (if dl_CtxErr d then result
           else if verification then result\<lparr>Result := CertificateInvalid\<rparr>
           else if remoteOp = Some ''remote error'' then result\<lparr>Result := TLSAlert\<rparr>
           else result))"

definition Check :: "(bytes \<Rightarrow> bytes) \<Rightarrow> ('p dial_args \<Rightarrow> dialed) \<Rightarrow> 'p LocalCertificateProbe \<Rightarrow> bool \<Rightarrow> string \<Rightarrow> CertificateProbeResult" where
  "Check sha dial p ctxErr hostname =
     (if ClientAuth p \<or> \<not> validHealthHostname hostname \<or> ctxErr \<or> \<not> validProbeAddress (Address p) then emptyResult
      else classify sha (dial \<lparr>da_ServerName = hostname, da_RootCAs = RootCAs p, da_MinVersion = VersionTLS12, da_Address = Address p\<rparr>))"

definition Confirm :: "(bytes \<Rightarrow> bytes) \<Rightarrow> ('p dial_args \<Rightarrow> dialed) \<Rightarrow> 'p LocalCertificateProbe \<Rightarrow> bool \<Rightarrow> string \<Rightarrow> bool" where
  "Confirm sha dial p ctxErr hostname =
     (let r = Check sha dial p ctxErr hostname in Result r = TLSAlert \<or> Result r = CertificateInvalid)"

subsection \<open>The confirming sink\<close>

text \<open>
  The goroutine of an accepted candidate probes, then hands the candidate on or not, then leaves.
  \<open>goroutines\<close> are those the wait group counts. The inner sink has its own state.
\<close>

datatype stage = Probing | Delivering | Leaving

record 's ConfirmingSink =
  inFlight :: "string list"
  sink_closed :: bool
  sink_cancelled :: bool
  goroutines :: "(MismatchCandidate \<times> stage) list"
  inner :: 's

definition NewConfirmingSink :: "bool \<Rightarrow> 's \<Rightarrow> 's ConfirmingSink" where
  "NewConfirmingSink ctxErr s = \<lparr>inFlight = [], sink_closed = False, sink_cancelled = ctxErr, goroutines = [], inner = s\<rparr>"

text \<open>\<open>locked\<close>: whether another goroutine holds the mutex; \<open>hasSink\<close>: whether the inner sink is set.\<close>

definition ConfirmingSink_TryEnqueue :: "bool \<Rightarrow> bool \<Rightarrow> MismatchCandidate \<Rightarrow> 's ConfirmingSink \<Rightarrow> bool \<times> 's ConfirmingSink" where
  "ConfirmingSink_TryEnqueue locked hasSink c s =
     (if locked then (False, s)
      else if sink_closed s \<or> sink_cancelled s \<or> \<not> hasSink \<or> Hostname c \<in> set (inFlight s) \<or> length (inFlight s) \<ge> 16
        \<or> \<not> validHealthHostname (Hostname c)
      then (False, s)
      else (True, s\<lparr>inFlight := Hostname c # inFlight s, goroutines := (c, Probing) # goroutines s\<rparr>))"

text \<open>The goroutine: the probe and the test of the context, the offer to the inner sink, the clean-up.\<close>

definition probed :: "bool \<Rightarrow> MismatchCandidate \<Rightarrow> 's ConfirmingSink \<Rightarrow> 's ConfirmingSink" where
  "probed confirmed c s = s\<lparr>goroutines :=
     (c, if confirmed \<and> \<not> sink_cancelled s then Delivering else Leaving) # remove1 (c, Probing) (goroutines s)\<rparr>"

definition handedOn :: "(MismatchCandidate \<Rightarrow> 's \<Rightarrow> bool \<times> 's) \<Rightarrow> MismatchCandidate \<Rightarrow> 's ConfirmingSink \<Rightarrow> 's ConfirmingSink" where
  "handedOn enq c s = s\<lparr>goroutines := (c, Leaving) # remove1 (c, Delivering) (goroutines s), inner := snd (enq c (inner s))\<rparr>"

definition left_sink :: "MismatchCandidate \<Rightarrow> 's ConfirmingSink \<Rightarrow> 's ConfirmingSink" where
  "left_sink c s = s\<lparr>goroutines := remove1 (c, Leaving) (goroutines s), inFlight := remove1 (Hostname c) (inFlight s)\<rparr>"

text \<open>\<open>Close\<close> marks and cancels, then waits; it returns when no goroutine is left.\<close>

definition Close_begin :: "'s ConfirmingSink \<Rightarrow> 's ConfirmingSink" where
  "Close_begin s = s\<lparr>sink_closed := True, sink_cancelled := True\<rparr>"

definition Close_returns :: "'s ConfirmingSink \<Rightarrow> bool" where
  "Close_returns s = (sink_closed s \<and> goroutines s = [])"

text \<open>
  The steps of callers and goroutines, one at a time; \<open>confirm c\<close> holds when a probe of the
  candidate's host may confirm. The context of the parent may end at any time.
\<close>

inductive sink_step :: "(MismatchCandidate \<Rightarrow> bool) \<Rightarrow> (MismatchCandidate \<Rightarrow> 's \<Rightarrow> bool \<times> 's) \<Rightarrow> bool
    \<Rightarrow> 's ConfirmingSink \<Rightarrow> 's ConfirmingSink \<Rightarrow> bool"
  for confirm enq hasSink where
  offer: "snd (ConfirmingSink_TryEnqueue locked hasSink c s) = s' \<Longrightarrow> sink_step confirm enq hasSink s s'"
| probe: "(c, Probing) \<in> set (goroutines s) \<Longrightarrow> confirmed \<longrightarrow> confirm c \<Longrightarrow> sink_step confirm enq hasSink s (probed confirmed c s)"
| hand: "(c, Delivering) \<in> set (goroutines s) \<Longrightarrow> sink_step confirm enq hasSink s (handedOn enq c s)"
| leave: "(c, Leaving) \<in> set (goroutines s) \<Longrightarrow> sink_step confirm enq hasSink s (left_sink c s)"
| cancel: "sink_step confirm enq hasSink s (s\<lparr>sink_cancelled := True\<rparr>)"
| close: "sink_step confirm enq hasSink s (Close_begin s)"

inductive_cases sink_step_elims: "sink_step confirm enq hasSink s s'"


subsection \<open>Invariant\<close>

text \<open>
  The hosts in flight are those of the running goroutines, each once, at most sixteen; a closed
  sink is cancelled.
\<close>

definition hosts :: "'s ConfirmingSink \<Rightarrow> string list" where
  "hosts s = map (\<lambda>(c, st). Hostname c) (goroutines s)"

definition sink_ok :: "'s ConfirmingSink \<Rightarrow> bool" where
  "sink_ok s \<longleftrightarrow> distinct (inFlight s) \<and> length (inFlight s) \<le> 16 \<and> distinct (hosts s) \<and> set (hosts s) = set (inFlight s)
     \<and> (sink_closed s \<longrightarrow> sink_cancelled s) \<and> (\<forall>h \<in> set (inFlight s). validHealthHostname h)"

lemma hosts_stage:
  assumes "(c, st) \<in> set (goroutines s)" and "distinct (hosts s)"
  shows "set (map (\<lambda>(c, st). Hostname c) ((c, st') # remove1 (c, st) (goroutines s))) = set (hosts s)"
    and "distinct (map (\<lambda>(c, st). Hostname c) ((c, st') # remove1 (c, st) (goroutines s)))"
    and "set (map (\<lambda>(c, st). Hostname c) (remove1 (c, st) (goroutines s))) = set (hosts s) - {Hostname c}"
    and "distinct (map (\<lambda>(c, st). Hostname c) (remove1 (c, st) (goroutines s)))"
proof -
  obtain as bs where g: "goroutines s = as @ (c, st) # bs" "(c, st) \<notin> set as" using split_list_first [OF assms(1)] by blast
  then have r: "remove1 (c, st) (goroutines s) = as @ bs" by (simp add: remove1_append)
  show "set (map (\<lambda>(c, st). Hostname c) ((c, st') # remove1 (c, st) (goroutines s))) = set (hosts s)"
    "distinct (map (\<lambda>(c, st). Hostname c) ((c, st') # remove1 (c, st) (goroutines s)))"
    "set (map (\<lambda>(c, st). Hostname c) (remove1 (c, st) (goroutines s))) = set (hosts s) - {Hostname c}"
    "distinct (map (\<lambda>(c, st). Hostname c) (remove1 (c, st) (goroutines s)))"
    using assms(2) unfolding r by (auto simp: hosts_def g(1))
qed

lemma TryEnqueue_ok: "sink_ok s \<Longrightarrow> ConfirmingSink_TryEnqueue locked hasSink c s = (b, s') \<Longrightarrow> sink_ok s'"
proof -
  have "hosts (s\<lparr>inFlight := h, goroutines := (c, Probing) # goroutines s\<rparr>) = Hostname c # hosts s" for h
    by (simp add: hosts_def)
  then show "sink_ok s \<Longrightarrow> ConfirmingSink_TryEnqueue locked hasSink c s = (b, s') \<Longrightarrow> sink_ok s'"
    by (auto simp: ConfirmingSink_TryEnqueue_def sink_ok_def split: if_splits)
qed

lemma sink_ok_inner [simp]: "sink_ok (s\<lparr>inner := x\<rparr>) = sink_ok s"
  by (simp add: sink_ok_def hosts_def)

lemma stage_ok:
  assumes "sink_ok s" and "(c, st) \<in> set (goroutines s)"
  shows "sink_ok (s\<lparr>goroutines := (c, st') # remove1 (c, st) (goroutines s)\<rparr>)"
  using assms hosts_stage [OF assms(2)] by (simp add: sink_ok_def hosts_def)

lemma left_ok:
  assumes "sink_ok s" and "(c, Leaving) \<in> set (goroutines s)"
  shows "sink_ok (left_sink c s)"
  using assms hosts_stage(3,4) [OF assms(2)] length_remove1 [of "Hostname c" "inFlight s"]
  by (auto simp: sink_ok_def hosts_def left_sink_def)

lemma sink_step_ok: "sink_step confirm enq hasSink s s' \<Longrightarrow> sink_ok s \<Longrightarrow> sink_ok s'"
proof (induction rule: sink_step.induct)
  case (offer locked c s s')
  then show ?case using TryEnqueue_ok [OF _ prod.collapse [symmetric]] by metis
next
  case (probe c s confirmed)
  then show ?case unfolding probed_def by (intro stage_ok)
next
  case (hand c s)
  then show ?case by (simp add: handedOn_def stage_ok)
next
  case (leave c s)
  then show ?case by (rule left_ok [rotated])
qed (simp_all add: Close_begin_def sink_ok_def hosts_def)

lemma sink_ok_new: "sink_ok (NewConfirmingSink ctxErr x)"
  by (simp add: sink_ok_def NewConfirmingSink_def hosts_def)

lemma sink_steps_ok: "(sink_step confirm enq hasSink)\<^sup>*\<^sup>* s s' \<Longrightarrow> sink_ok s \<Longrightarrow> sink_ok s'"
  by (induction rule: rtranclp_induct) (auto intro: sink_step_ok)

text \<open>The confirming sink meets the contract of sinks.\<close>

interpretation confirming: mismatch_sink "ConfirmingSink_TryEnqueue locked hasSink" sink_ok "\<lambda>s. set (inFlight s)" 16
  for locked hasSink
proof unfold_locales
  fix s s' :: "'s ConfirmingSink" and c
  show "ConfirmingSink_TryEnqueue locked hasSink c s = (True, s') \<Longrightarrow> validHealthHostname (Hostname c)
      \<and> Hostname c \<in> set (inFlight s') \<and> set (inFlight s') \<subseteq> insert (Hostname c) (set (inFlight s))"
    by (auto simp: ConfirmingSink_TryEnqueue_def split: if_splits)
  show "ConfirmingSink_TryEnqueue locked hasSink c s = (False, s') \<Longrightarrow> set (inFlight s') \<subseteq> set (inFlight s)"
    by (auto simp: ConfirmingSink_TryEnqueue_def split: if_splits)
  show "sink_ok s \<Longrightarrow> finite (set (inFlight s)) \<and> card (set (inFlight s)) \<le> 16"
    using card_length [of "inFlight s"] by (auto simp: sink_ok_def)
qed (rule TryEnqueue_ok)


subsection \<open>What reaches the inner sink\<close>

text \<open>A goroutine on its way to the inner sink carries a confirmed candidate.\<close>

definition only_confirmed :: "(MismatchCandidate \<Rightarrow> bool) \<Rightarrow> (MismatchCandidate list) ConfirmingSink \<Rightarrow> bool" where
  "only_confirmed confirm s \<longleftrightarrow> (\<forall>c. (c, Delivering) \<in> set (goroutines s) \<longrightarrow> confirm c) \<and> (\<forall>c \<in> set (inner s). confirm c)"

definition record_offer :: "MismatchCandidate \<Rightarrow> MismatchCandidate list \<Rightarrow> bool \<times> MismatchCandidate list" where
  "record_offer c log = (True, log @ [c])"

lemma sink_step_confirmed:
  "sink_step confirm record_offer hasSink s s' \<Longrightarrow> only_confirmed confirm s \<Longrightarrow> only_confirmed confirm s'"
proof (induction rule: sink_step.induct)
  case (offer locked c s s')
  then show ?case by (auto simp: only_confirmed_def ConfirmingSink_TryEnqueue_def split: if_splits)
next
  case (probe c s confirmed)
  then show ?case by (auto simp: only_confirmed_def probed_def split: if_splits dest: notin_set_remove1 in_set_remove1)
next
  case (hand c s)
  then show ?case by (auto simp: only_confirmed_def handedOn_def record_offer_def dest: notin_set_remove1)
next
  case (leave c s)
  then show ?case by (auto simp: only_confirmed_def left_sink_def dest: notin_set_remove1)
qed (simp_all add: only_confirmed_def Close_begin_def)

lemma sink_steps_confirmed:
  "(sink_step confirm record_offer hasSink)\<^sup>*\<^sup>* s s' \<Longrightarrow> only_confirmed confirm s \<Longrightarrow> only_confirmed confirm s'"
  by (induction rule: rtranclp_induct) (auto intro: sink_step_confirmed)

text \<open>Nothing happens in a closed sink without goroutines.\<close>

lemma closed_step:
  "sink_step confirm enq hasSink s s' \<Longrightarrow> Close_returns s \<Longrightarrow> Close_returns s' \<and> inner s' = inner s"
  by (erule sink_step.cases)
     (auto simp: Close_returns_def ConfirmingSink_TryEnqueue_def Close_begin_def split: if_splits)

lemma closed_steps:
  "(sink_step confirm enq hasSink)\<^sup>*\<^sup>* s s' \<Longrightarrow> Close_returns s \<Longrightarrow> Close_returns s' \<and> inner s' = inner s"
  by (induction rule: rtranclp_induct) (auto dest: closed_step)

text \<open>What is left to do before \<open>Close\<close> returns.\<close>

fun stage_work :: "stage \<Rightarrow> nat" where
  "stage_work Probing = 3"
| "stage_work Delivering = 2"
| "stage_work Leaving = 1"

definition work_left :: "'s ConfirmingSink \<Rightarrow> nat" where
  "work_left s = (\<Sum>(c, st) \<leftarrow> goroutines s. stage_work st)"

lemma work_remove1:
  "(c, st) \<in> set gs \<Longrightarrow> (\<Sum>(c, st) \<leftarrow> remove1 (c, st) gs. stage_work st) + stage_work st = (\<Sum>(c, st) \<leftarrow> gs. stage_work st)"
  by (induction gs) auto

lemma closed_work:
  "sink_step confirm enq hasSink s s' \<Longrightarrow> sink_closed s \<Longrightarrow> sink_closed s' \<and> (goroutines s' = goroutines s \<or> work_left s' < work_left s)"
  by (erule sink_step.cases)
     (auto simp: ConfirmingSink_TryEnqueue_def Close_begin_def probed_def handedOn_def left_sink_def work_left_def
       dest!: work_remove1 split: if_splits)

lemma goroutine_moves:
  assumes "goroutines s \<noteq> []"
  shows "\<exists>s'. sink_step confirm enq hasSink s s' \<and> sink_closed s' = sink_closed s \<and> work_left s' < work_left s"
proof -
  obtain c st where g: "(c, st) \<in> set (goroutines s)" using assms by (cases "goroutines s") auto
  note w = work_remove1 [OF g]
  show ?thesis
  proof (cases st)
    case Probing
    then have "sink_step confirm enq hasSink s (probed False c s)" using g by (intro sink_step.probe) auto
    moreover have "work_left (probed False c s) < work_left s" using w Probing by (simp add: probed_def work_left_def)
    ultimately show ?thesis by (auto simp: probed_def)
  next
    case Delivering
    then have "sink_step confirm enq hasSink s (handedOn enq c s)" using g by (intro sink_step.hand) auto
    moreover have "work_left (handedOn enq c s) < work_left s" using w Delivering by (simp add: handedOn_def work_left_def)
    ultimately show ?thesis by (auto simp: handedOn_def)
  next
    case Leaving
    then have "sink_step confirm enq hasSink s (left_sink c s)" using g by (intro sink_step.leave) auto
    moreover have "work_left (left_sink c s) < work_left s" using w Leaving by (simp add: left_sink_def work_left_def)
    ultimately show ?thesis by (auto simp: left_sink_def)
  qed
qed

lemma close_reaches_end:
  "sink_closed s \<Longrightarrow> \<exists>s'. (sink_step confirm enq hasSink)\<^sup>*\<^sup>* s s' \<and> Close_returns s'"
proof (induction "work_left s" arbitrary: s rule: less_induct)
  case less
  show ?case
  proof (cases "goroutines s = []")
    case True
    then show ?thesis using less.prems by (auto simp: Close_returns_def)
  next
    case False
    then obtain s1 where "sink_step confirm enq hasSink s s1" "sink_closed s1" "work_left s1 < work_left s"
      using goroutine_moves [of s confirm enq hasSink] less.prems by auto
    then show ?thesis using less.hyps [of s1] by (meson converse_rtranclp_into_rtranclp)
  qed
qed


subsection \<open>Properties\<close>

text \<open>
  C26. In every state the confirming sink reaches, at most sixteen probes run, no two for one
  host, the guard names exactly the hosts being probed, and every candidate that arrived at the
  inner sink was confirmed.
\<close>

theorem confirming_sink_invariant:
  assumes "(sink_step confirm record_offer hasSink)\<^sup>*\<^sup>* (NewConfirmingSink ctxErr []) s"
  shows "length (goroutines s) \<le> 16 \<and> distinct (hosts s) \<and> set (hosts s) = set (inFlight s) \<and> (\<forall>c \<in> set (inner s). confirm c)"
proof -
  have ok: "sink_ok s" by (rule sink_steps_ok [OF assms sink_ok_new])
  have "only_confirmed confirm s"
    by (rule sink_steps_confirmed [OF assms]) (simp add: only_confirmed_def NewConfirmingSink_def)
  moreover have "length (goroutines s) \<le> 16"
    using ok distinct_card [of "hosts s"] distinct_card [of "inFlight s"] by (simp add: sink_ok_def hosts_def)
  ultimately show ?thesis using ok by (simp add: sink_ok_def only_confirmed_def)
qed

definition ex_offer :: MismatchCandidate where
  "ex_offer = \<lparr>Hostname = ''a.io'', IssuerKey = ''le'', CertificatePath = '''', KeyPath = '''', LeafSHA256 = '''',
     CertificateSPKISHA256 = '''', KeySPKISHA256 = ''''\<rparr>"

definition ex_running :: "MismatchCandidate list ConfirmingSink" where
  "ex_running = \<lparr>inFlight = [''a.io''], sink_closed = False, sink_cancelled = False, goroutines = [(ex_offer, Probing)], inner = []\<rparr>"

lemma ex_running_accepts: "ConfirmingSink_TryEnqueue False True ex_offer (NewConfirmingSink False []) = (True, ex_running)"
  by code_simp

lemma ex_running_reached: "(sink_step confirm enq True)\<^sup>*\<^sup>* (NewConfirmingSink False []) ex_running"
  by (intro r_into_rtranclp sink_step.offer [where locked = False and c = ex_offer]) (simp add: ex_running_accepts)

theorem confirming_sink_invariant_witness:
  "length (goroutines ex_running) \<le> 16 \<and> distinct (hosts ex_running) \<and> set (hosts ex_running) = set (inFlight ex_running)"
  using confirming_sink_invariant [OF ex_running_reached, of "\<lambda>c. c = ex_offer"] by blast

text \<open>
  C27. \<open>Close\<close>: once it has begun no new probe starts, every step of a goroutine brings its end
  closer, it can always return, and after it has returned nothing reaches the inner sink again.
\<close>

theorem close_ends_and_is_final:
  assumes "sink_closed s"
  shows "(\<forall>s'. sink_step confirm enq hasSink s s' \<longrightarrow> sink_closed s' \<and> (goroutines s' = goroutines s \<or> work_left s' < work_left s))
    \<and> (\<exists>s'. (sink_step confirm enq hasSink)\<^sup>*\<^sup>* s s' \<and> Close_returns s')
    \<and> (\<forall>s'. Close_returns s \<longrightarrow> (sink_step confirm enq hasSink)\<^sup>*\<^sup>* s s' \<longrightarrow> Close_returns s' \<and> inner s' = inner s)"
  using closed_work [OF _ assms] close_reaches_end [OF assms] closed_steps by blast

theorem close_ends_and_is_final_witness:
  "\<exists>s'. (sink_step (\<lambda>c. True) record_offer True)\<^sup>*\<^sup>* (Close_begin ex_running) s' \<and> Close_returns s'"
  using close_ends_and_is_final [of "Close_begin ex_running" "\<lambda>c. True" record_offer True] by (simp add: Close_begin_def)

end
