(* ===== verification/Acceptance.thy ===== *)
theory Acceptance
  imports Health Go_Codec
begin

section \<open>Acceptances of the intake endpoint\<close>

text \<open>
  \<open>parseCertificateAcceptance\<close> of \<open>certificate_reporter.go\<close>: the answer to a delivered event is
  decoded member by member, so that duplicate and unknown members are refused, and checked.
\<close>

definition certificateLifetime :: int where "certificateLifetime = 300 * Second"

record certificateAcceptance =
  acc_ReportID :: string
  acc_VerificationNonce :: string
  acc_CheckAfterSeconds :: int
  acc_ExpiresAt :: string

definition newAcceptance :: certificateAcceptance where
  "newAcceptance = \<lparr>acc_ReportID = '''', acc_VerificationNonce = '''', acc_CheckAfterSeconds = 0, acc_ExpiresAt = ''''\<rparr>"

definition invalidAcceptance :: go_error where
  "invalidAcceptance = errors_New ''invalid acceptance''"

text \<open>The switch over the member's name; a decoded value puts the decoder behind a member.\<close>

definition decodeMember :: "string \<Rightarrow> certificateAcceptance \<Rightarrow> tokenState \<Rightarrow> string \<Rightarrow> (certificateAcceptance \<times> string) option" where
  "decodeMember key a st s =
     (if key = ''report_id''
      then map_option (\<lambda>(v, r). (a\<lparr>acc_ReportID := v\<rparr>, r)) (Decode_string (acc_ReportID a) st s)
      else if key = ''verification_nonce''
      then map_option (\<lambda>(v, r). (a\<lparr>acc_VerificationNonce := v\<rparr>, r)) (Decode_string (acc_VerificationNonce a) st s)
      else if key = ''check_after_seconds''
      then map_option (\<lambda>(v, r). (a\<lparr>acc_CheckAfterSeconds := v\<rparr>, r)) (Decode_int (acc_CheckAfterSeconds a) st s)
      else if key = ''expires_at''
      then map_option (\<lambda>(v, r). (a\<lparr>acc_ExpiresAt := v\<rparr>, r)) (Decode_string (acc_ExpiresAt a) st s)
      else None)"

lemma decodeMember_le: "decodeMember key a st s = Some (a', r) \<Longrightarrow> length r \<le> length s"
  by (auto simp: decodeMember_def dest: Decode_string_le Decode_int_le split: if_splits)

function acceptanceMembers :: "string list \<Rightarrow> certificateAcceptance \<Rightarrow> tokenState \<Rightarrow> string
    \<Rightarrow> (string list \<times> certificateAcceptance \<times> tokenState \<times> string) option" where
  "acceptanceMembers seen a st s =
     (if \<not> More s then Some (seen, a, st, s)
      else case Token st s of
        Inr (StringTok key, st, s) \<Rightarrow>
          if key \<in> set seen then None
          else (case decodeMember key a st s of None \<Rightarrow> None | Some (a, s) \<Rightarrow> acceptanceMembers (key # seen) a ObjectComma s)
      | _ \<Rightarrow> None)"
  by pat_completeness auto
termination
  by (relation "measure (\<lambda>(seen, a, st, s). length s)") (auto dest!: Token_shorter decodeMember_le)

declare acceptanceMembers.simps [simp del]

text \<open>The checks on a decoded acceptance.\<close>

definition acceptance_ok :: "gotime \<Rightarrow> certificateAcceptance \<Rightarrow> bool" where
  "acceptance_ok now a = (validCertificateUUID (acc_ReportID a) \<and> validBearer (acc_VerificationNonce a)
     \<and> acc_CheckAfterSeconds a = 30
     \<and> (case ParseRFC3339 (acc_ExpiresAt a) of None \<Rightarrow> False
        | Some expires \<Rightarrow> FormatRFC3339 expires = acc_ExpiresAt a \<and> now < expires \<and> expires \<le> now + certificateLifetime + 10 * Second))"

definition parseCertificateAcceptance :: "bytes \<Rightarrow> gotime \<Rightarrow> go_error + certificateAcceptance" where
  "parseCertificateAcceptance payload now = (case Token TopValue payload of
      Inr (OpenTok, st, s) \<Rightarrow>
        (case acceptanceMembers [] newAcceptance st s of None \<Rightarrow> Inl invalidAcceptance
         | Some (seen, a, st, s) \<Rightarrow>
             (case Token st s of Inl e \<Rightarrow> Inl invalidAcceptance
              | Inr (tk, st, s) \<Rightarrow>
                  if Token st s \<noteq> Inl EOF then Inl invalidAcceptance
                  else if length seen \<noteq> 4 \<or> \<not> acceptance_ok now a then Inl invalidAcceptance
                  else Inr a))
    | _ \<Rightarrow> Inl invalidAcceptance)"


subsection \<open>Printing an acceptance\<close>

text \<open>The four members of an acceptance in some order, as an endpoint writes them.\<close>

definition member_names :: "string list" where
  "member_names = [''report_id'', ''verification_nonce'', ''check_after_seconds'', ''expires_at'']"

definition quoted :: "string \<Rightarrow> string" where
  "quoted s = CHR 0x22 # s @ [CHR 0x22]"

definition memberText :: "certificateAcceptance \<Rightarrow> string \<Rightarrow> string" where
  "memberText a key =
     (if key = ''report_id'' then quoted (acc_ReportID a)
      else if key = ''verification_nonce'' then quoted (acc_VerificationNonce a)
      else if key = ''check_after_seconds'' then Itoa (acc_CheckAfterSeconds a)
      else quoted (acc_ExpiresAt a))"

fun tailText :: "certificateAcceptance \<Rightarrow> string list \<Rightarrow> string" where
  "tailText a [] = ''}''"
| "tailText a (k # ks) = CHR '','' # quoted k @ CHR '':'' # memberText a k @ tailText a ks"

definition printAcceptance :: "string list \<Rightarrow> certificateAcceptance \<Rightarrow> bytes" where
  "printAcceptance ks a = CHR ''{'' # tl (tailText a ks)"

definition setField :: "certificateAcceptance \<Rightarrow> string \<Rightarrow> certificateAcceptance \<Rightarrow> certificateAcceptance" where
  "setField a key acc =
     (if key = ''report_id'' then acc\<lparr>acc_ReportID := acc_ReportID a\<rparr>
      else if key = ''verification_nonce'' then acc\<lparr>acc_VerificationNonce := acc_VerificationNonce a\<rparr>
      else if key = ''check_after_seconds'' then acc\<lparr>acc_CheckAfterSeconds := acc_CheckAfterSeconds a\<rparr>
      else acc\<lparr>acc_ExpiresAt := acc_ExpiresAt a\<rparr>)"

text \<open>Characters that stand for themselves in a string literal.\<close>

definition plain :: "char \<Rightarrow> bool" where
  "plain c = (0x20 \<le> byte c \<and> byte c < 0x80 \<and> c \<noteq> CHR 0x22 \<and> c \<noteq> CHR 0x5C)"

lemma jsonString_plain: "list_all plain t \<Longrightarrow> jsonString (t @ CHR 0x22 # r) = Some (t, r)"
proof (induction t)
  case Nil
  then show ?case by (simp add: jsonString.simps [of "CHR 0x22 # r"] HasPrefix_def)
next
  case (Cons c t)
  then have "unquote1 (c # t @ CHR 0x22 # r) = Some ([c], 1)" by (simp add: unquote1_def plain_def)
  with Cons show ?case
    by (simp add: jsonString.simps [of "c # t @ CHR 0x22 # r"] HasPrefix_def plain_def)
qed

lemma skipSpace_Cons: "\<not> json_space c \<Longrightarrow> skipSpace (c # s) = c # s"
  by (simp add: skipSpace_def)

lemma Decode_string_quoted: "list_all plain t \<Longrightarrow> Decode_string old ObjectColon (CHR '':'' # quoted t @ r) = Some (t, r)"
  by (simp add: Decode_string_def memberValue_def quoted_def skipSpace_Cons json_space_def HasPrefix_def jsonString_plain)

lemma Decode_int_thirty:
  "r = CHR '','' # r' \<or> r = ''}'' \<Longrightarrow> Decode_int old ObjectColon (CHR '':'' # ''30'' @ r) = Some (30, r)"
proof -
  have d: "is_digit CHR ''3''" "is_digit CHR ''0''" "\<not> is_digit CHR '',''" "\<not> is_digit CHR ''}''" by code_simp+
  have "Atoi ''30'' = Some 30" by code_simp
  then show "r = CHR '','' # r' \<or> r = ''}'' \<Longrightarrow> Decode_int old ObjectColon (CHR '':'' # ''30'' @ r) = Some (30, r)"
    by (auto simp: Decode_int_def memberValue_def skipSpace_Cons json_space_def HasPrefix_def intLiteral_def Let_def d)
qed

definition plain_fields :: "certificateAcceptance \<Rightarrow> bool" where
  "plain_fields a \<longleftrightarrow> list_all plain (acc_ReportID a) \<and> list_all plain (acc_VerificationNonce a) \<and> list_all plain (acc_ExpiresAt a)
     \<and> acc_CheckAfterSeconds a = 30"

lemma tailText_front: "\<exists>r. tailText a ks = CHR '','' # r \<or> tailText a ks = ''}''"
  by (cases ks) auto

lemma decodeMember_text:
  assumes "plain_fields a" and "k \<in> set member_names"
  shows "decodeMember k acc ObjectColon (CHR '':'' # memberText a k @ tailText a ks) = Some (setField a k acc, tailText a ks)"
proof -
  have "Itoa 30 = ''30''" by code_simp
  moreover have "Decode_int old ObjectColon (CHR '':'' # ''30'' @ tailText a ks) = Some (30, tailText a ks)" for old
    using tailText_front [of a ks] Decode_int_thirty by blast
  ultimately show ?thesis
    using assms by (auto simp: decodeMember_def memberText_def setField_def plain_fields_def member_names_def Decode_string_quoted)
qed

lemma names_plain: "k \<in> set member_names \<Longrightarrow> list_all plain k"
  by (auto simp: member_names_def plain_def byte_def)

lemma Token_comma:
  "list_all plain k \<Longrightarrow> Token ObjectComma (CHR '','' # quoted k @ r) = Inr (StringTok k, ObjectColon, r)"
  by (simp add: Token_def tokenAfter_def quoted_def skipSpace_Cons json_space_def jsonString_plain)

lemma Token_first:
  "list_all plain k \<Longrightarrow> Token ObjectStart (quoted k @ r) = Inr (StringTok k, ObjectColon, r)"
  by (simp add: Token_def tokenAfter_def quoted_def skipSpace_Cons json_space_def jsonString_plain)

lemma members_tail:
  assumes "plain_fields a"
  shows "distinct ks \<Longrightarrow> set ks \<inter> set seen = {} \<Longrightarrow> set ks \<subseteq> set member_names \<Longrightarrow>
    acceptanceMembers seen acc ObjectComma (tailText a ks) = Some (rev ks @ seen, fold (setField a) ks acc, ObjectComma, ''}'')"
proof (induction ks arbitrary: seen acc)
  case Nil
  then show ?case by (simp add: acceptanceMembers.simps More_def skipSpace_Cons json_space_def)
next
  case (Cons k ks)
  then have k: "k \<in> set member_names" "k \<notin> set seen" by auto
  have "More (tailText a (k # ks))" by (simp add: More_def skipSpace_Cons json_space_def)
  moreover have "Token ObjectComma (tailText a (k # ks)) = Inr (StringTok k, ObjectColon, CHR '':'' # memberText a k @ tailText a ks)"
    using Token_comma [OF names_plain [OF k(1)]] by simp
  moreover have "acceptanceMembers (k # seen) (setField a k acc) ObjectComma (tailText a ks) =
      Some (rev ks @ k # seen, fold (setField a) ks (setField a k acc), ObjectComma, ''}'')"
    using Cons by (intro Cons.IH) auto
  ultimately show ?case
    using k decodeMember_text [OF assms k(1)] by (subst acceptanceMembers.simps) simp
qed


lemma fold_setField:
  "set ks \<subseteq> set member_names \<Longrightarrow>
    acc_ReportID (fold (setField a) ks acc) = (if ''report_id'' \<in> set ks then acc_ReportID a else acc_ReportID acc)
    \<and> acc_VerificationNonce (fold (setField a) ks acc) = (if ''verification_nonce'' \<in> set ks then acc_VerificationNonce a else acc_VerificationNonce acc)
    \<and> acc_CheckAfterSeconds (fold (setField a) ks acc) = (if ''check_after_seconds'' \<in> set ks then acc_CheckAfterSeconds a else acc_CheckAfterSeconds acc)
    \<and> acc_ExpiresAt (fold (setField a) ks acc) = (if ''expires_at'' \<in> set ks then acc_ExpiresAt a else acc_ExpiresAt acc)"
  by (induction ks arbitrary: acc) (auto simp: setField_def member_names_def)

lemma fold_setField_all: "set ks = set member_names \<Longrightarrow> fold (setField a) ks acc = a"
  using fold_setField [of ks a acc] by (intro certificateAcceptance.equality) (simp_all add: member_names_def)

lemma plain_hex: "lower_hex_char c \<Longrightarrow> plain c"
  by (auto simp: lower_hex_char_def is_digit_def in_range_def plain_def byte_def)

lemma plain_uuid: "validCertificateUUID s \<Longrightarrow> list_all plain s"
proof -
  assume "validCertificateUUID s"
  then have "\<forall>c \<in> set s. c \<noteq> CHR ''-'' \<longrightarrow> lower_hex_char c"
    by (auto simp: validCertificateUUID_def lowerHex_def list_all_iff split: if_splits)
  moreover have "plain CHR ''-''" by (simp add: plain_def byte_def)
  ultimately show ?thesis using plain_hex unfolding list_all_iff by metis
qed

lemma plain_bearer: "validBearer s \<Longrightarrow> list_all plain s"
proof -
  assume "validBearer s"
  then obtain b where s: "s = RawURL_Encode b" by (auto simp: validBearer_iff)
  have "\<forall>v \<in> set (b64_groups (map byte b)). v < 64" using b64_groups_bound [of "map byte b"] by (simp add: byte_def)
  then have "set s \<subseteq> set b64_alphabet"
    using b64_alphabet_ok(2) by (auto simp: s RawURL_Encode_def b64_char_def)
  moreover have "\<forall>c \<in> set b64_alphabet. plain c" by (simp add: b64_alphabet_def plain_def byte_def)
  ultimately show ?thesis by (auto simp: list_all_iff)
qed

lemma plain_pad: "list_all plain (pad w v)"
proof -
  have digit: "is_digit c \<Longrightarrow> plain c" for c by (auto simp: is_digit_def in_range_def plain_def byte_def)
  have "list_all plain (digits_of n)" for n
    using digits_of_digits [of n] digit by (auto simp: list_all_iff)
  moreover have "plain CHR ''-''" "plain CHR ''0''" by (simp_all add: plain_def byte_def)
  ultimately show ?thesis by (auto simp: pad_def Let_def list_all_iff)
qed

lemma plain_time: "list_all plain (FormatRFC3339 t)"
  by (simp add: FormatRFC3339_def Let_def plain_pad split: prod.split) (simp add: plain_def byte_def)

lemma acceptance_plain: "acceptance_ok now a \<Longrightarrow> plain_fields a"
  using plain_time by (auto simp: acceptance_ok_def plain_fields_def plain_uuid plain_bearer split: option.splits) metis

text \<open>
  The members of an answer, read one after the other, without any bookkeeping of names: the names in
  their order, the values decoded, and where the reading ends.
\<close>

inductive members_of :: "tokenState \<Rightarrow> string \<Rightarrow> certificateAcceptance \<Rightarrow> string list \<Rightarrow> certificateAcceptance \<Rightarrow> tokenState \<Rightarrow> string \<Rightarrow> bool" where
  no_more: "\<not> More s \<Longrightarrow> members_of st s a [] a st s"
| member: "More s \<Longrightarrow> Token st s = Inr (StringTok key, st1, s1) \<Longrightarrow> decodeMember key a st1 s1 = Some (a1, s2) \<Longrightarrow>
    members_of ObjectComma s2 a1 keys a' st' r \<Longrightarrow> members_of st s a (key # keys) a' st' r"

lemma acceptanceMembers_of:
  "acceptanceMembers seen a st s = Some (seen', a', st', r) \<Longrightarrow>
    \<exists>keys. members_of st s a keys a' st' r \<and> seen' = rev keys @ seen \<and> distinct keys \<and> set keys \<inter> set seen = {}
      \<and> set keys \<subseteq> set member_names"
proof (induction seen a st s rule: acceptanceMembers.induct)
  case (1 seen a st s)
  show ?case
  proof (cases "More s")
    case False
    then show ?thesis using "1.prems" by (auto simp: acceptanceMembers.simps intro: members_of.no_more)
  next
    case True
    with "1.prems" obtain key st1 s1 where t: "Token st s = Inr (StringTok key, st1, s1)"
      by (subst (asm) acceptanceMembers.simps) (auto split: sum.splits json_token.splits prod.splits)
    with "1.prems" True have key: "key \<notin> set seen" by (subst (asm) acceptanceMembers.simps) (auto split: if_splits)
    with "1.prems" True t obtain a2 s2 where d: "decodeMember key a st1 s1 = Some (a2, s2)"
      by (subst (asm) acceptanceMembers.simps) (auto split: option.splits)
    then have name: "key \<in> set member_names" by (auto simp: decodeMember_def member_names_def split: if_splits)
    have "acceptanceMembers (key # seen) a2 ObjectComma s2 = Some (seen', a', st', r)"
      using "1.prems" True t key d by (subst (asm) acceptanceMembers.simps) simp
    from "1.IH" [OF _ t refl refl refl key d refl this] True obtain keys where
      k: "members_of ObjectComma s2 a2 keys a' st' r" "seen' = rev keys @ key # seen" "distinct keys"
      "set keys \<inter> set (key # seen) = {}" "set keys \<subseteq> set member_names" by auto
    show ?thesis
      by (rule exI [of _ "key # keys"]) (use k key name members_of.member [OF True t d k(1)] in auto)
  qed
qed

lemma members_of_acceptance:
  "members_of st s a keys a' st' r \<Longrightarrow> distinct keys \<Longrightarrow> set keys \<inter> set seen = {} \<Longrightarrow>
    acceptanceMembers seen a st s = Some (rev keys @ seen, a', st', r)"
proof (induction arbitrary: seen rule: members_of.induct)
  case (no_more s st a)
  then show ?case by (simp add: acceptanceMembers.simps)
next
  case (member s st key st1 s1 a a1 s2 keys a' st' r)
  then show ?case by (subst acceptanceMembers.simps) simp
qed

definition wellformed_acceptance :: "bytes \<Rightarrow> gotime \<Rightarrow> certificateAcceptance \<Rightarrow> bool" where
  "wellformed_acceptance payload now a \<longleftrightarrow>
     (\<exists>s keys st r tk st' r'. Token TopValue payload = Inr (OpenTok, ObjectStart, s)
        \<and> members_of ObjectStart s newAcceptance keys a st r \<and> distinct keys \<and> set keys = set member_names
        \<and> Token st r = Inr (tk, st', r') \<and> Token st' r' = Inl EOF)
     \<and> validCertificateUUID (acc_ReportID a)
     \<and> (\<exists>b. length b = 32 \<and> acc_VerificationNonce a = RawURL_Encode b)
     \<and> acc_CheckAfterSeconds a = 30
     \<and> (\<exists>t. ParseRFC3339 (acc_ExpiresAt a) = Some t \<and> FormatRFC3339 t = acc_ExpiresAt a \<and> now < t \<and> t \<le> now + 310 * Second)"

lemma acceptance_ok_iff:
  "acceptance_ok now a \<longleftrightarrow> validCertificateUUID (acc_ReportID a)
     \<and> (\<exists>b. length b = 32 \<and> acc_VerificationNonce a = RawURL_Encode b) \<and> acc_CheckAfterSeconds a = 30
     \<and> (\<exists>t. ParseRFC3339 (acc_ExpiresAt a) = Some t \<and> FormatRFC3339 t = acc_ExpiresAt a \<and> now < t \<and> t \<le> now + 310 * Second)"
  by (auto simp: acceptance_ok_def validBearer_iff certificateLifetime_def Second_def split: option.splits)

lemma Token_open: "Token TopValue payload = Inr (OpenTok, st, s) \<Longrightarrow> st = ObjectStart"
  by (auto simp: Token_def tokenAfter_def split: list.splits if_splits option.splits prod.splits)

lemma parse_wellformed:
  assumes "parseCertificateAcceptance payload now = Inr a"
  shows "wellformed_acceptance payload now a"
proof -
  from assms obtain st s seen st1 r tk st2 r2 where t: "Token TopValue payload = Inr (OpenTok, st, s)"
    and m: "acceptanceMembers [] newAcceptance st s = Some (seen, a, st1, r)" and ok: "length seen = 4" "acceptance_ok now a"
    and e: "Token st1 r = Inr (tk, st2, r2)" "Token st2 r2 = Inl EOF"
    by (auto simp: parseCertificateAcceptance_def split: sum.splits prod.splits option.splits json_token.splits if_splits)
  have st: "st = ObjectStart" by (rule Token_open [OF t])
  from acceptanceMembers_of [OF m] obtain keys where k: "members_of st s newAcceptance keys a st1 r" "seen = rev keys"
    "distinct keys" "set keys \<subseteq> set member_names" by auto
  have "card (set keys) = card (set member_names)" using ok(1) k(2) distinct_card [OF k(3)] by (simp add: member_names_def)
  then have "set keys = set member_names" using card_subset_eq [OF _ k(4)] by simp
  with t k e st ok(2) show ?thesis unfolding wellformed_acceptance_def acceptance_ok_iff [symmetric] by blast
qed

lemma wellformed_parse:
  assumes "wellformed_acceptance payload now a"
  shows "parseCertificateAcceptance payload now = Inr a"
proof -
  from assms have ok: "acceptance_ok now a" unfolding wellformed_acceptance_def acceptance_ok_iff by blast
  from assms obtain s keys st r tk st' r' where t: "Token TopValue payload = Inr (OpenTok, ObjectStart, s)"
    and m: "members_of ObjectStart s newAcceptance keys a st r" "distinct keys" "set keys = set member_names"
    and e: "Token st r = Inr (tk, st', r')" "Token st' r' = Inl EOF" unfolding wellformed_acceptance_def by blast
  have "length keys = 4" using distinct_card [OF m(2)] m(3) by (simp add: member_names_def)
  with members_of_acceptance [OF m(1,2), of "[]"] t e ok show ?thesis by (simp add: parseCertificateAcceptance_def)
qed


subsection \<open>Properties\<close>

definition ex_acceptance :: certificateAcceptance where
  "ex_acceptance = \<lparr>acc_ReportID = ''00000000-0000-4000-8000-000000000000'',
     acc_VerificationNonce = ''AAAAAAAAAAAAAAAAAAAAAAAAAAAAAAAAAAAAAAAAAAA'', acc_CheckAfterSeconds = 30,
     acc_ExpiresAt = ''1970-01-01T00:01:40Z''\<rparr>"

text \<open>
  C34. An answer is parsed exactly when it is a well-formed acceptance; everything else is the error
  for an invalid one. Well-formed: one object and nothing after it, in which each of the four
  members occurs exactly once and no other does; a version 4 identifier; a nonce that is the
  unpadded URL-safe text of 32 bytes; thirty seconds to the check; and an expiry in canonical form,
  in the future and at most 310 seconds away.
\<close>

theorem acceptance_sound:
  "(parseCertificateAcceptance payload now = Inr a \<longleftrightarrow> wellformed_acceptance payload now a)
   \<and> (parseCertificateAcceptance payload now = Inl e \<longleftrightarrow> (\<nexists>a. wellformed_acceptance payload now a) \<and> e = invalidAcceptance)"
proof -
  have iff: "parseCertificateAcceptance payload now = Inr a \<longleftrightarrow> wellformed_acceptance payload now a" for a
    using parse_wellformed wellformed_parse by blast
  have "parseCertificateAcceptance payload now = Inl e \<Longrightarrow> e = invalidAcceptance" for e
    by (auto simp: parseCertificateAcceptance_def split: sum.splits prod.splits option.splits json_token.splits if_splits)
  with iff show ?thesis by (cases "parseCertificateAcceptance payload now") auto
qed

text \<open>
  C35. Round trip: every acceptance that passes the checks is read back from its JSON text, in
  whatever order its members are written.
\<close>

theorem acceptance_roundtrip:
  assumes "acceptance_ok now a" and "distinct ks" and "set ks = set member_names"
  shows "parseCertificateAcceptance (printAcceptance ks a) now = Inr a"
proof -
  have pl: "plain_fields a" by (rule acceptance_plain [OF assms(1)])
  obtain k ks' where ks: "ks = k # ks'" using assms(3) by (cases ks) (auto simp: member_names_def)
  with assms(3) have k: "k \<in> set member_names" by auto
  let ?s = "quoted k @ CHR '':'' # memberText a k @ tailText a ks'"
  have open': "Token TopValue (printAcceptance ks a) = Inr (OpenTok, ObjectStart, ?s)"
    by (simp add: printAcceptance_def ks Token_def tokenAfter_def skipSpace_Cons json_space_def valueAllowed_def)
  have "More ?s" by (simp add: quoted_def More_def skipSpace_Cons json_space_def)
  then have "acceptanceMembers [] newAcceptance ObjectStart ?s = acceptanceMembers [k] (setField a k newAcceptance) ObjectComma (tailText a ks')"
    using decodeMember_text [OF pl k] Token_first [OF names_plain [OF k]] by (subst acceptanceMembers.simps) simp
  also have "\<dots> = Some (rev ks' @ [k], fold (setField a) ks' (setField a k newAcceptance), ObjectComma, ''}'')"
    using assms(2,3) ks by (intro members_tail [OF pl]) auto
  also have "fold (setField a) ks' (setField a k newAcceptance) = a"
    using fold_setField_all [OF assms(3), of a newAcceptance] by (simp add: ks)
  finally have m: "acceptanceMembers [] newAcceptance ObjectStart ?s = Some (rev ks' @ [k], a, ObjectComma, ''}'')" .
  have "length ks = 4" using distinct_card [OF assms(2)] assms(3) by (simp add: member_names_def)
  moreover have "Token ObjectComma ''}'' = Inr (CloseTok, TopValue, [])" "Token TopValue [] = Inl EOF" by code_simp+
  ultimately show ?thesis using assms(1) open' m by (simp add: parseCertificateAcceptance_def ks)
qed


lemma ex_acceptance_time:
  "ParseRFC3339 ''1970-01-01T00:01:40Z'' = Some (100 * Second)" "FormatRFC3339 (100 * Second) = ''1970-01-01T00:01:40Z''"
proof -
  have "civil_from_days 0 = (1970, 1, 1)" by code_simp
  moreover have "digits_of 1970 = ''1970''" "digits_of 1 = ''1''" "digits_of 0 = ''0''" "digits_of 40 = ''40''"
    by (simp_all add: digits_of.simps digit_char_def) code_simp+
  ultimately show "FormatRFC3339 (100 * Second) = ''1970-01-01T00:01:40Z''"
    by (simp add: FormatRFC3339_def Second_def Let_def pad_def)
  have n: "numAt ''1970-01-01T00:01:40Z'' 0 4 0 9999 = Some 1970" "numAt ''1970-01-01T00:01:40Z'' 5 2 1 12 = Some 1"
    "numAt ''1970-01-01T00:01:40Z'' 8 2 1 31 = Some 1" "numAt ''1970-01-01T00:01:40Z'' 11 2 0 23 = Some 0"
    "numAt ''1970-01-01T00:01:40Z'' 14 2 0 59 = Some 1" "numAt ''1970-01-01T00:01:40Z'' 17 2 0 59 = Some 40"
    by (simp_all add: numAt_def Let_def decimal_val_def digit_val_def is_digit_def in_range_def byte_def)
  have "daysIn 1 1970 = 31" by (simp add: daysIn_def)
  moreover have "fraction ''Z'' = (0, ''Z'')" by (simp add: fraction_def HasPrefix_def)
  moreover have "days_from_civil 1970 1 1 = 0" by code_simp
  ultimately show "ParseRFC3339 ''1970-01-01T00:01:40Z'' = Some (100 * Second)"
    using n by (simp add: ParseRFC3339_def zone_def)
qed

lemma ex_acceptance_ok: "acceptance_ok 0 ex_acceptance"
proof -
  have "validCertificateUUID ''00000000-0000-4000-8000-000000000000''"
    by (simp add: validCertificateUUID_def lowerHex_def lower_hex_char_def is_digit_def in_range_def byte_def)
  moreover have "RawURL_Encode (replicate 32 (CHR 0x00)) = ''AAAAAAAAAAAAAAAAAAAAAAAAAAAAAAAAAAAAAAAAAAA''"
    by code_simp
  then have "validBearer ''AAAAAAAAAAAAAAAAAAAAAAAAAAAAAAAAAAAAAAAAAAA''"
    unfolding validBearer_iff by (intro exI [of _ "replicate 32 (CHR 0x00)"]) simp
  ultimately show ?thesis
    using ex_acceptance_time by (simp add: acceptance_ok_def ex_acceptance_def certificateLifetime_def Second_def)
qed

theorem acceptance_roundtrip_witness:
  "parseCertificateAcceptance (printAcceptance member_names ex_acceptance) 0 = Inr ex_acceptance"
  by (rule acceptance_roundtrip [OF ex_acceptance_ok]) (simp_all add: member_names_def)

end
