(* ===== verification/Reporter.thy ===== *)
theory Reporter
  imports Probe Acceptance "HOL-Library.AList"
begin

section \<open>The certificate reporter\<close>

text \<open>
  \<open>certificate_reporter.go\<close>: the queue of mismatch candidates, the two worker goroutines that
  probe and deliver, and the events they send. The clock, the probe, the random source and the
  HTTP client enter as values of \<open>process_env\<close>. Go's maps are association lists in an arbitrary
  order, which stands for the order of iteration.
\<close>

subsection \<open>Configuration\<close>

definition certificateHealthPath :: string where
  "certificateHealthPath = ''/api/internal/certificate-health/events''"
definition certificateQueueCapacity :: nat where "certificateQueueCapacity = 256"
definition certificateDedupeCapacity :: nat where "certificateDedupeCapacity = 1024"

record CertificateReporter =
  cr_Endpoint :: string
  cr_ProxyServerID :: int
  cr_MachineID :: string
  cr_Token :: string
  cr_Address :: string
  cr_ClientAuth :: bool

text \<open>What \<open>validate\<close> asks of the result of \<open>url.Parse\<close>.\<close>

record go_url =
  u_Scheme :: string
  u_Hostname :: string
  u_HasUser :: bool
  u_Path :: string
  u_RawPath :: string
  u_RawQuery :: string
  u_ForceQuery :: bool
  u_Fragment :: string
  u_Opaque :: string

definition intakeEndpoint :: "go_url \<Rightarrow> bool" where
  "intakeEndpoint u = (u_Scheme u = ''https'' \<and> u_Hostname u \<noteq> '''' \<and> \<not> u_HasUser u \<and> u_Path u = certificateHealthPath
     \<and> u_RawPath u = '''' \<and> u_RawQuery u = '''' \<and> \<not> u_ForceQuery u \<and> u_Fragment u = '''' \<and> u_Opaque u = '''')"

definition validate :: "(string \<Rightarrow> go_url option) \<Rightarrow> CertificateReporter \<Rightarrow> go_error option" where
  "validate url_Parse a = (case url_Parse (cr_Endpoint a) of
      None \<Rightarrow> Some (errors_New ''certificate health requires the fixed HTTPS intake endpoint'')
    | Some u \<Rightarrow>
        if \<not> intakeEndpoint u then Some (errors_New ''certificate health requires the fixed HTTPS intake endpoint'')
        else if cr_ProxyServerID a \<le> 0 \<or> \<not> lowerHex (cr_MachineID a) 14 \<or> \<not> validProbeAddress (cr_Address a) \<or> \<not> validBearer (cr_Token a)
        then Some (errors_New ''invalid certificate health cluster, machine, listener or purpose token'')
        else None)"

text \<open>Only the one placeholder is expanded, by Caddy's replacer.\<close>

definition provisionConfiguration :: "(string \<Rightarrow> go_url option) \<Rightarrow> (string \<Rightarrow> string) \<Rightarrow> CertificateReporter
    \<Rightarrow> go_error option \<times> CertificateReporter" where
  "provisionConfiguration url_Parse replace a =
     (let a = (if cr_MachineID a = ''{env.FLY_MACHINE_ID}'' then a\<lparr>cr_MachineID := replace (cr_MachineID a)\<rparr> else a)
      in (validate url_Parse a, a))"

text \<open>\<open>events\<close>: the app registered for events and its registration, or the reason it is missing.\<close>

definition Reporter_Provision :: "(string \<Rightarrow> go_url option) \<Rightarrow> (string \<Rightarrow> string) \<Rightarrow> go_error + (unit \<Rightarrow> go_error option) option
    \<Rightarrow> CertificateReporter \<Rightarrow> go_error option \<times> CertificateReporter" where
  "Reporter_Provision url_Parse replace events a = (case provisionConfiguration url_Parse replace a of
      (Some e, a) \<Rightarrow> (Some e, a)
    | (None, a) \<Rightarrow> (case events of
        Inr (Some on) \<Rightarrow> (on (), a)
      | _ \<Rightarrow> (Some (errors_New ''certificate health lifecycle events unavailable''), a)))"

text \<open>The key of a configuration in the registry: a hash of its fields in a fixed order.\<close>

definition identity :: "(bytes \<Rightarrow> bytes) \<Rightarrow> CertificateReporter \<Rightarrow> bytes" where
  "identity sha a = sha (CHR ''['' # Join_with '','' [Itoa (cr_ProxyServerID a), json_quote (cr_MachineID a),
     json_quote (cr_Endpoint a), json_quote (cr_Token a), json_quote (cr_Address a),
     (if cr_ClientAuth a then ''true'' else ''false'')] @ '']'')"

subsection \<open>Events and work\<close>

record certificateEvent =
  ev_Version :: int
  ev_Kind :: string
  ev_EventID :: string
  ev_ProxyServerID :: int
  ev_MachineID :: string
  ev_Hostname :: string
  ev_Issuer :: string
  ev_ObservedAt :: string
  ev_TLSCheckedAt :: string
  ev_TLSResult :: string
  ev_LeafSHA256 :: string
  ev_CertificateSPKISHA256 :: string
  ev_KeySPKISHA256 :: string
  ev_ReportID :: string
  ev_VerificationNonce :: string
  ev_ServedLeafSHA256 :: string

definition marshalEvent :: "certificateEvent \<Rightarrow> bytes" where
  "marshalEvent e = json_object (
     json_member ''version'' (Itoa (ev_Version e)) @ json_member ''kind'' (json_quote (ev_Kind e)) @
     json_member ''event_id'' (json_quote (ev_EventID e)) @ json_member ''proxy_server_id'' (Itoa (ev_ProxyServerID e)) @
     json_member ''machine_id'' (json_quote (ev_MachineID e)) @ json_member ''hostname'' (json_quote (ev_Hostname e)) @
     json_member ''issuer'' (json_quote (ev_Issuer e)) @ json_member ''observed_at'' (json_quote (ev_ObservedAt e)) @
     json_member ''tls_checked_at'' (json_quote (ev_TLSCheckedAt e)) @ json_member ''tls_result'' (json_quote (ev_TLSResult e)) @
     json_omitempty ''leaf_sha256'' (ev_LeafSHA256 e) @ json_omitempty ''cert_spki_sha256'' (ev_CertificateSPKISHA256 e) @
     json_omitempty ''key_spki_sha256'' (ev_KeySPKISHA256 e) @ json_omitempty ''report_id'' (ev_ReportID e) @
     json_omitempty ''verification_nonce'' (ev_VerificationNonce e) @ json_omitempty ''served_leaf_sha256'' (ev_ServedLeafSHA256 e))"

record certificateWork =
  w_candidate :: MismatchCandidate
  w_birth :: gotime
  w_expires :: gotime
  w_due :: gotime
  w_lastObservation :: gotime
  w_busy :: bool
  w_event :: "certificateEvent option"
  w_attempts :: int
  w_acceptance :: "certificateAcceptance option"

record reporterState =
  rs_started :: bool
  rs_cancelled :: bool
  rs_wake :: nat
  rs_work :: "(string \<times> certificateWork) list"
  rs_dedupe :: "(bytes \<times> gotime) list"
  rs_cluster :: int
  rs_machine :: string
  rs_endpoint :: string
  rs_token :: string
  rs_logger :: bool
  rs_lastDiagnostic :: gotime
  rs_dropped :: "64 word"
  rs_delivered :: "64 word"
  rs_accepted :: "64 word"
  rs_failures :: "64 word"

definition newCertificateReporterState :: "CertificateReporter \<Rightarrow> bool \<Rightarrow> reporterState" where
  "newCertificateReporterState config logger = \<lparr>rs_started = False, rs_cancelled = False, rs_wake = 0, rs_work = [], rs_dedupe = [],
     rs_cluster = cr_ProxyServerID config, rs_machine = cr_MachineID config, rs_endpoint = cr_Endpoint config,
     rs_token = cr_Token config, rs_logger = logger, rs_lastDiagnostic = zeroTime,
     rs_dropped = 0, rs_delivered = 0, rs_accepted = 0, rs_failures = 0\<rparr>"

subsection \<open>The queue\<close>

definition prune :: "gotime \<Rightarrow> reporterState \<Rightarrow> reporterState" where
  "prune now s = s\<lparr>rs_dedupe := filter (\<lambda>(k, expiry). now < expiry) (rs_dedupe s),
     rs_work := filter (\<lambda>(host, w). w_busy w \<or> now < w_expires w) (rs_work s)\<rparr>"

fun oldestKey :: "(bytes \<times> gotime) list \<Rightarrow> bytes \<Rightarrow> gotime \<Rightarrow> bytes" where
  "oldestKey [] oldest earliest = oldest"
| "oldestKey ((k, expiry) # rest) oldest earliest =
     (if earliest = zeroTime \<or> expiry < earliest then oldestKey rest k expiry else oldestKey rest oldest earliest)"

definition marshalCandidate :: "MismatchCandidate \<Rightarrow> bytes" where
  "marshalCandidate c = json_object (
     json_member ''hostname'' (json_quote (Hostname c)) @ json_member ''issuer_key'' (json_quote (IssuerKey c)) @
     json_member ''certificate_path'' (json_quote (CertificatePath c)) @ json_member ''key_path'' (json_quote (KeyPath c)) @
     json_member ''leaf_sha256'' (json_quote (LeafSHA256 c)) @ json_member ''cert_spki_sha256'' (json_quote (CertificateSPKISHA256 c)) @
     json_member ''key_spki_sha256'' (json_quote (KeySPKISHA256 c)))"

definition validCandidate :: "MismatchCandidate \<Rightarrow> bool" where
  "validCandidate c = (validHealthHostname (Hostname c) \<and> validHealthIssuer (IssuerKey c) \<and> lowerHex (LeafSHA256 c) 64
     \<and> lowerHex (CertificateSPKISHA256 c) 64 \<and> lowerHex (KeySPKISHA256 c) 64 \<and> CertificateSPKISHA256 c \<noteq> KeySPKISHA256 c)"

definition drop_candidate :: "reporterState \<Rightarrow> bool \<times> reporterState" where
  "drop_candidate s = (False, s\<lparr>rs_dropped := rs_dropped s + 1\<rparr>)"

definition newWork :: "gotime \<Rightarrow> MismatchCandidate \<Rightarrow> certificateWork" where
  "newWork now c = \<lparr>w_candidate = c, w_birth = now, w_expires = now + certificateLifetime, w_due = now, w_lastObservation = zeroTime,
     w_busy = False, w_event = None, w_attempts = 0, w_acceptance = None\<rparr>"

text \<open>Accepting a candidate: room in the dedupe map, the two entries, and a wake-up that never blocks.\<close>

definition admit :: "gotime \<Rightarrow> bytes \<Rightarrow> MismatchCandidate \<Rightarrow> reporterState \<Rightarrow> reporterState" where
  "admit now key c s =
     (let dedupe = (if length (rs_dedupe s) \<ge> certificateDedupeCapacity
                    then AList.delete (oldestKey (rs_dedupe s) (replicate 32 (CHR 0x00)) zeroTime) (rs_dedupe s) else rs_dedupe s)
      in s\<lparr>rs_dedupe := AList.update key (now + certificateLifetime) dedupe,
           rs_work := AList.update (Hostname c) (newWork now c) (rs_work s),
           rs_wake := (if rs_wake s < 2 then rs_wake s + 1 else rs_wake s)\<rparr>)"

definition seenBefore :: "gotime \<Rightarrow> bytes \<Rightarrow> reporterState \<Rightarrow> bool" where
  "seenBefore now key s = (now < (case map_of (rs_dedupe s) key of None \<Rightarrow> zeroTime | Some expiry \<Rightarrow> expiry))"

definition State_TryEnqueue :: "(bytes \<Rightarrow> bytes) \<Rightarrow> bool \<Rightarrow> gotime \<Rightarrow> MismatchCandidate \<Rightarrow> reporterState \<Rightarrow> bool \<times> reporterState" where
  "State_TryEnqueue sha locked now c s =
     (if locked then drop_candidate s
      else if rs_cancelled s \<or> \<not> validCandidate c then drop_candidate s
      else
        let c = c\<lparr>CertificatePath := '''', KeyPath := ''''\<rparr>; key = sha (marshalCandidate c); s = prune now s
        in if map_of (rs_work s) (Hostname c) \<noteq> None \<or> seenBefore now key s \<or> length (rs_work s) \<ge> certificateQueueCapacity
           then drop_candidate s
           else (True, admit now key c s))"


subsection \<open>The workers\<close>

text \<open>The first of the due items with the earliest time.\<close>

fun selectWork :: "gotime \<Rightarrow> (string \<times> certificateWork) list \<Rightarrow> (string \<times> certificateWork) option \<Rightarrow> (string \<times> certificateWork) option" where
  "selectWork now [] selected = selected"
| "selectWork now ((h, w) # rest) selected =
     selectWork now rest
       (if \<not> w_busy w \<and> \<not> now < w_due w \<and> (case selected of None \<Rightarrow> True | Some (_, w') \<Rightarrow> w_due w < w_due w')
        then Some (h, w) else selected)"

definition diagnose :: "gotime \<Rightarrow> reporterState \<Rightarrow> reporterState" where
  "diagnose now s = (if rs_logger s \<and> now - rs_lastDiagnostic s \<ge> 60 * Second \<and> (rs_dropped s > 0 \<or> rs_failures s > 0)
     then s\<lparr>rs_lastDiagnostic := now\<rparr> else s)"

text \<open>One pass of the loop in \<open>run\<close> under the mutex: the host of the selected work, marked busy.\<close>

definition takeWork :: "gotime \<Rightarrow> reporterState \<Rightarrow> string option \<times> reporterState" where
  "takeWork now s =
     (let s = prune now s in
      case selectWork now (rs_work s) None of
        None \<Rightarrow> (None, diagnose now s)
      | Some (h, w) \<Rightarrow> (Some h, diagnose now (s\<lparr>rs_work := AList.update h (w\<lparr>w_busy := True\<rparr>) (rs_work s)\<rparr>)))"

text \<open>After \<open>process\<close>: the work is released or removed.\<close>

definition releaseWork :: "bool \<Rightarrow> gotime \<Rightarrow> string \<Rightarrow> reporterState \<Rightarrow> reporterState" where
  "releaseWork keep now h s = (case map_of (rs_work s) h of None \<Rightarrow> s
    | Some w \<Rightarrow>
        if \<not> keep \<or> rs_cancelled s \<or> \<not> now < w_expires w then s\<lparr>rs_work := AList.delete h (rs_work s)\<rparr>
        else s\<lparr>rs_work := AList.update h (w\<lparr>w_busy := False\<rparr>) (rs_work s)\<rparr>)"

text \<open>The request of a delivery, and what the client answers: an error or a status with a body.\<close>

record http_request =
  rq_Method :: string
  rq_URL :: string
  rq_Header :: "(string \<times> string) list"
  rq_Body :: bytes

datatype http_result = HttpError | Response int "go_error + bytes"

record process_env =
  pe_ExpiredAtStart :: bool
  pe_Probe :: CertificateProbeResult
  pe_ExpiredAfterProbe :: bool
  pe_Random :: "go_error + bytes"
  pe_RequestOk :: bool
  pe_Do :: "http_request \<Rightarrow> http_result"
  pe_ParseNow :: gotime
  pe_Jitter :: "go_error + int"
  pe_Now :: gotime

definition fail :: "reporterState \<Rightarrow> reporterState" where
  "fail s = s\<lparr>rs_failures := rs_failures s + 1\<rparr>"

definition succeed :: "reporterState \<Rightarrow> reporterState" where
  "succeed s = s\<lparr>rs_delivered := rs_delivered s + 1\<rparr>"

definition deliveryRequest :: "reporterState \<Rightarrow> bytes \<Rightarrow> http_request" where
  "deliveryRequest s body = \<lparr>rq_Method = ''POST'', rq_URL = rs_endpoint s, rq_Header =
     [(''Content-Type'', ''application/json''), (''apx-proxy-server-id'', Itoa (rs_cluster s)), (''apx-key'', rs_token s)], rq_Body = body\<rparr>"

text \<open>The acceptance, whether to retry, and the counters; at most 8193 bytes of a body are read.\<close>

definition deliver :: "process_env \<Rightarrow> certificateEvent \<Rightarrow> reporterState \<Rightarrow> certificateAcceptance option \<times> bool \<times> reporterState" where
  "deliver E event s =
     (let body = marshalEvent event in
      if length body > 8192 then (None, False, fail s)
      else if \<not> pe_RequestOk E then (None, False, fail s)
      else case pe_Do E (deliveryRequest s body) of
        HttpError \<Rightarrow> (None, True, fail s)
      | Response status content \<Rightarrow>
          if status = 204 then (None, False, succeed s)
          else if status \<noteq> 202 then (None, status = 429 \<or> status = 503, fail s)
          else case content of Inl e \<Rightarrow> (None, True, fail s)
            | Inr full \<Rightarrow>
                let payload = take 8193 full in
                if length payload > 8192 then (None, False, fail s)
                else case parseCertificateAcceptance payload (pe_ParseNow E) of
                  Inl e \<Rightarrow> (None, False, fail s)
                | Inr a \<Rightarrow> (Some a, False, succeed s))"

definition makeEvent :: "reporterState \<Rightarrow> certificateWork \<Rightarrow> string \<Rightarrow> gotime \<Rightarrow> CertificateProbeResult \<Rightarrow> certificateEvent" where
  "makeEvent s w eventID observed r =
     (let c = w_candidate w; valid = (Result r = TLSValid) in
      \<lparr>ev_Version = 1, ev_Kind = (if valid then ''verification'' else ''mismatch''), ev_EventID = eventID,
       ev_ProxyServerID = rs_cluster s, ev_MachineID = rs_machine s, ev_Hostname = Hostname c, ev_Issuer = IssuerKey c,
       ev_ObservedAt = FormatRFC3339 (if w_acceptance w = None then TruncateSecond (w_birth w) else observed),
       ev_TLSCheckedAt = FormatRFC3339 observed, ev_TLSResult = Result r,
       ev_LeafSHA256 = (if valid then '''' else LeafSHA256 c),
       ev_CertificateSPKISHA256 = (if valid then '''' else CertificateSPKISHA256 c),
       ev_KeySPKISHA256 = (if valid then '''' else KeySPKISHA256 c),
       ev_ReportID = (case w_acceptance w of None \<Rightarrow> '''' | Some a \<Rightarrow> acc_ReportID a),
       ev_VerificationNonce = (case w_acceptance w of None \<Rightarrow> '''' | Some a \<Rightarrow> acc_VerificationNonce a),
       ev_ServedLeafSHA256 = (if valid then ServedLeafSHA256 r else '''')\<rparr>)"

text \<open>The first half of \<open>process\<close>, when no event is pending: probe and make one, or return.\<close>

datatype prepared = Return bool reporterState certificateWork | Send reporterState certificateWork

definition prepare :: "process_env \<Rightarrow> reporterState \<Rightarrow> certificateWork \<Rightarrow> prepared" where
  "prepare E s w =
     (let r = pe_Probe E in
      if pe_ExpiredAfterProbe E then Return False s w
      else if Result r = ''''
      then (if w_acceptance w = None then Return False s w else Return True s (w\<lparr>w_due := pe_Now E + 30 * Second\<rparr>))
      else if Result r = TLSValid \<and> w_acceptance w = None then Return False s w
      else let observed = TruncateSecond (CheckedAt r) in
        if \<not> w_lastObservation w < observed then Return True s (w\<lparr>w_due := pe_Now E + Second\<rparr>)
        else case certificateUUID (pe_Random E) of
          Inl err \<Rightarrow> Return False (fail s) w
        | Inr eventID \<Rightarrow> Send s (w\<lparr>w_lastObservation := observed, w_event := Some (makeEvent s w eventID observed r), w_attempts := 0\<rparr>))"

text \<open>The second half: deliver the pending event, and retry, remember the acceptance or stop.\<close>

definition sendEvent :: "process_env \<Rightarrow> certificateEvent \<Rightarrow> reporterState \<Rightarrow> certificateWork \<Rightarrow> bool \<times> reporterState \<times> certificateWork" where
  "sendEvent E event s w0 =
     (let w = w0\<lparr>w_attempts := w_attempts w0 + 1\<rparr> in
      case deliver E event s of
        (None, retry, s) \<Rightarrow>
          if retry \<and> w_attempts w < 3
          then (case pe_Jitter E of Inl err \<Rightarrow> (False, s, w)
            | Inr jitter \<Rightarrow>
                let due = pe_Now E + (1000 + jitter) * 1000000 * w_attempts w
                in (due < w_expires w, s, w\<lparr>w_due := due\<rparr>))
          else (False, s, w)
      | (Some a, retry, s) \<Rightarrow>
          if (case w_acceptance w of None \<Rightarrow> False
              | Some a' \<Rightarrow> acc_ReportID a \<noteq> acc_ReportID a' \<or> acc_VerificationNonce a \<noteq> acc_VerificationNonce a' \<or> acc_ExpiresAt a \<noteq> acc_ExpiresAt a')
          then (False, fail s, w)
          else
            let s = s\<lparr>rs_accepted := rs_accepted s + 1\<rparr>;
                w = (if w_acceptance w = None
                     then w\<lparr>w_acceptance := Some a,
                            w_expires := (case ParseRFC3339 (acc_ExpiresAt a) of None \<Rightarrow> min zeroTime (w_expires w)
                                          | Some expires \<Rightarrow> min expires (w_expires w))\<rparr>
                     else w)
            in (True, s, w\<lparr>w_event := None, w_due := pe_Now E + 30 * Second\<rparr>))"

definition process :: "process_env \<Rightarrow> reporterState \<Rightarrow> certificateWork \<Rightarrow> bool \<times> reporterState \<times> certificateWork" where
  "process E s w =
     (if pe_ExpiredAtStart E then (False, s, w)
      else case w_event w of
        Some event \<Rightarrow> sendEvent E event s w
      | None \<Rightarrow> (case prepare E s w of
          Return keep s w \<Rightarrow> (keep, s, w)
        | Send s w \<Rightarrow> (case w_event w of Some event \<Rightarrow> sendEvent E event s w | None \<Rightarrow> (False, s, w))))"

text \<open>The work of a busy host is replaced by what \<open>process\<close> makes of it.\<close>

definition processWork :: "process_env \<Rightarrow> string \<Rightarrow> reporterState \<Rightarrow> bool \<times> reporterState" where
  "processWork E h s = (case map_of (rs_work s) h of None \<Rightarrow> (False, s)
    | Some w \<Rightarrow> (case process E s w of (keep, s', w') \<Rightarrow> (keep, s'\<lparr>rs_work := AList.update h w' (rs_work s')\<rparr>)))"

text \<open>\<open>start\<close> and \<open>stop\<close>; \<open>stop\<close> waits for the workers before it clears the maps.\<close>

definition State_start :: "reporterState \<Rightarrow> reporterState" where
  "State_start s = (if rs_started s \<or> rs_cancelled s then s else s\<lparr>rs_started := True\<rparr>)"

definition State_cancel :: "reporterState \<Rightarrow> reporterState" where
  "State_cancel s = s\<lparr>rs_cancelled := True\<rparr>"

text \<open>A receive from the wake channel, which holds at most two signals.\<close>

definition receiveWake :: "reporterState \<Rightarrow> reporterState" where
  "receiveWake s = s\<lparr>rs_wake := rs_wake s - 1\<rparr>"

definition State_clear :: "reporterState \<Rightarrow> reporterState" where
  "State_clear s = s\<lparr>rs_work := [], rs_dedupe := []\<rparr>"

record CertificateReporterStats =
  st_Active :: nat
  st_Dedupe :: nat
  st_Workers :: nat
  st_Dropped :: "64 word"
  st_Delivered :: "64 word"
  st_Accepted :: "64 word"
  st_Failures :: "64 word"

definition snapshot :: "nat \<Rightarrow> reporterState \<Rightarrow> CertificateReporterStats" where
  "snapshot workers s = \<lparr>st_Active = length (rs_work s), st_Dedupe = length (rs_dedupe s), st_Workers = workers,
     st_Dropped = rs_dropped s, st_Delivered = rs_delivered s, st_Accepted = rs_accepted s, st_Failures = rs_failures s\<rparr>"


subsection \<open>The pool of workers as a transition system\<close>

text \<open>
  A worker is idle, holds the host it has selected, has processed it, or has left. \<open>process\<close> runs
  without the mutex, but on work that its worker alone holds; apart from that it only adds to
  atomic counters, so it is one step here.
\<close>

datatype worker = Idle | Holding string | Finished string bool | Exited

fun held_host :: "worker \<Rightarrow> string option" where
  "held_host (Holding h) = Some h"
| "held_host (Finished h keep) = Some h"
| "held_host _ = None"

type_synonym pool = "reporterState \<times> worker list"

definition newPool :: "CertificateReporter \<Rightarrow> bool \<Rightarrow> pool" where
  "newPool config logger = (State_start (newCertificateReporterState config logger), [Idle, Idle])"

inductive pool_step :: "(bytes \<Rightarrow> bytes) \<Rightarrow> pool \<Rightarrow> pool \<Rightarrow> bool" for sha where
  enqueue: "State_TryEnqueue sha locked now c s = (b, s') \<Longrightarrow> pool_step sha (s, ws) (s', ws)"
| select: "i < length ws \<Longrightarrow> ws ! i = Idle \<Longrightarrow> \<not> rs_cancelled s \<Longrightarrow> takeWork now s = (r, s') \<Longrightarrow>
    pool_step sha (s, ws) (s', ws[i := (case r of None \<Rightarrow> Idle | Some h \<Rightarrow> Holding h)])"
| proc: "i < length ws \<Longrightarrow> ws ! i = Holding h \<Longrightarrow> processWork E h s = (keep, s') \<Longrightarrow>
    pool_step sha (s, ws) (s', ws[i := Finished h keep])"
| release: "i < length ws \<Longrightarrow> ws ! i = Finished h keep \<Longrightarrow> pool_step sha (s, ws) (releaseWork keep now h s, ws[i := Idle])"
| woken: "i < length ws \<Longrightarrow> ws ! i = Idle \<Longrightarrow> rs_wake s > 0 \<Longrightarrow> pool_step sha (s, ws) (receiveWake s, ws)"
| leave: "i < length ws \<Longrightarrow> ws ! i = Idle \<Longrightarrow> rs_cancelled s \<Longrightarrow> pool_step sha (s, ws) (s, ws[i := Exited])"
| cancel: "pool_step sha (s, ws) (State_cancel s, ws)"
| clear: "rs_cancelled s \<Longrightarrow> set ws \<subseteq> {Exited} \<Longrightarrow> pool_step sha (s, ws) (State_clear s, ws)"

subsection \<open>Invariants\<close>

text \<open>A pending event was delivered at most twice; a third failure ends the work.\<close>

definition work_ok :: "string \<Rightarrow> certificateWork \<Rightarrow> bool" where
  "work_ok h w \<longleftrightarrow> Hostname (w_candidate w) = h \<and> validCandidate (w_candidate w)
     \<and> CertificatePath (w_candidate w) = '''' \<and> KeyPath (w_candidate w) = ''''
     \<and> w_expires w \<le> w_birth w + certificateLifetime \<and> 0 \<le> w_attempts w \<and> w_attempts w \<le> 3"

definition may_send :: "certificateWork \<Rightarrow> bool" where
  "may_send w \<longleftrightarrow> (w_event w = None \<or> w_attempts w \<le> 2)"

definition queue_ok :: "reporterState \<Rightarrow> bool" where
  "queue_ok s \<longleftrightarrow> distinct (map fst (rs_work s)) \<and> length (rs_work s) \<le> certificateQueueCapacity
     \<and> distinct (map fst (rs_dedupe s)) \<and> length (rs_dedupe s) \<le> certificateDedupeCapacity \<and> rs_wake s \<le> 2
     \<and> (\<forall>(h, w) \<in> set (rs_work s). work_ok h w)"

definition workers_ok :: "pool \<Rightarrow> bool" where
  "workers_ok p \<longleftrightarrow> (case p of (s, ws) \<Rightarrow>
     (\<forall>i < length ws. \<forall>h. held_host (ws ! i) = Some h \<longrightarrow> (\<exists>w. map_of (rs_work s) h = Some w \<and> w_busy w))
     \<and> (\<forall>i < length ws. \<forall>j < length ws. held_host (ws ! i) \<noteq> None \<longrightarrow> held_host (ws ! i) = held_host (ws ! j) \<longrightarrow> i = j)
     \<and> (\<forall>h w. map_of (rs_work s) h = Some w \<longrightarrow> Finished h False \<notin> set ws \<longrightarrow> may_send w)
     \<and> (\<forall>h w. map_of (rs_work s) h = Some w \<longrightarrow> w_busy w \<longrightarrow> (\<exists>k \<in> set ws. held_host k = Some h)))"

definition pool_ok :: "pool \<Rightarrow> bool" where
  "pool_ok p \<longleftrightarrow> queue_ok (fst p) \<and> workers_ok p"

lemma distinct_map_filter_fst: "distinct (map fst xs) \<Longrightarrow> distinct (map fst (filter P xs))"
  by (induction xs) auto

lemma option_some_eqI: "(\<And>w. a = Some w \<longleftrightarrow> b = Some w) \<Longrightarrow> a = b"
  by (cases b) auto

lemma kept_entry:
  "distinct (map fst entries) \<Longrightarrow> map_of (filter keep entries) h = Some w \<longleftrightarrow> map_of entries h = Some w \<and> keep (h, w)"
  by (simp add: map_of_eq_Some_iff distinct_map_filter_fst)

lemma length_alist_update: "length (AList.update k v xs) = (if map_of xs k = None then Suc (length xs) else length xs)"
  by (induction xs) auto

lemma set_alist_update: "set (AList.update k v xs) \<subseteq> insert (k, v) (set xs)"
  by (induction xs) auto

lemma length_alist_delete:
  "distinct (map fst xs) \<Longrightarrow> k \<in> fst ` set xs \<Longrightarrow> Suc (length (AList.delete k xs)) = length xs"
proof (induction xs)
  case (Cons entry xs)
  obtain a b where x: "entry = (a, b)" by (cases entry)
  show ?case
  proof (cases "a = k")
    case True
    with Cons.prems x have "k \<notin> fst ` set xs" by auto
    then have "AList.delete k xs = xs" by (rule AList.delete_id)
    then show ?thesis using True x by (simp add: AList.delete_eq)
  next
    case False
    then show ?thesis using Cons x by (auto simp: AList.delete_eq)
  qed
qed simp

lemma oldestKey_in: "xs \<noteq> [] \<or> k \<in> K \<Longrightarrow> k \<in> K \<or> e = zeroTime \<Longrightarrow> oldestKey xs k e \<in> K \<union> fst ` set xs"
proof (induction xs arbitrary: k e K)
  case (Cons entry xs)
  obtain a b where x: "entry = (a, b)" by (cases entry)
  show ?case
  proof (cases "e = zeroTime \<or> b < e")
    case True
    then show ?thesis using Cons.IH [of a "insert a K" b] x by auto
  next
    case False
    then show ?thesis using Cons x by auto
  qed
qed simp

lemma prune_work: "queue_ok s \<Longrightarrow> map_of (rs_work (prune now s)) h =
    (case map_of (rs_work s) h of None \<Rightarrow> None | Some w \<Rightarrow> if w_busy w \<or> now < w_expires w then Some w else None)"
  by (rule option_some_eqI) (auto simp: prune_def queue_ok_def kept_entry simp del: map_of_eq_Some_iff split: option.split)

lemma prune_dedupe: "queue_ok s \<Longrightarrow> map_of (rs_dedupe (prune now s)) k =
    (case map_of (rs_dedupe s) k of None \<Rightarrow> None | Some t \<Rightarrow> if now < t then Some t else None)"
  by (rule option_some_eqI) (auto simp: prune_def queue_ok_def kept_entry simp del: map_of_eq_Some_iff split: option.split)

lemma prune_ok: "queue_ok s \<Longrightarrow> queue_ok (prune now s)"
  by (auto simp: queue_ok_def prune_def distinct_map_filter_fst intro: le_trans [OF length_filter_le])

lemma queue_ok_work: "queue_ok s \<Longrightarrow> map_of (rs_work s) h = Some w \<Longrightarrow> work_ok h w"
  by (auto simp: queue_ok_def dest: map_of_SomeD)

lemma newWork_ok: "validCandidate c \<Longrightarrow> CertificatePath c = '''' \<Longrightarrow> KeyPath c = '''' \<Longrightarrow> work_ok (Hostname c) (newWork now c)"
  by (simp add: work_ok_def newWork_def)

lemma admit_dedupe_bound:
  assumes "queue_ok s"
  defines "d \<equiv> (if length (rs_dedupe s) \<ge> certificateDedupeCapacity
      then AList.delete (oldestKey (rs_dedupe s) (replicate 32 (CHR 0x00)) zeroTime) (rs_dedupe s) else rs_dedupe s)"
  shows "distinct (map fst d)" and "length d < certificateDedupeCapacity"
proof -
  from assms(1) have q: "distinct (map fst (rs_dedupe s))" "length (rs_dedupe s) \<le> certificateDedupeCapacity"
    by (simp_all add: queue_ok_def)
  show "distinct (map fst d)" using q by (simp add: d_def distinct_delete)
  show "length d < certificateDedupeCapacity"
  proof (cases "length (rs_dedupe s) \<ge> certificateDedupeCapacity")
    case True
    then have "rs_dedupe s \<noteq> []" by (auto simp: certificateDedupeCapacity_def)
    then have "oldestKey (rs_dedupe s) (replicate 32 (CHR 0x00)) zeroTime \<in> fst ` set (rs_dedupe s)"
      using oldestKey_in [of "rs_dedupe s" _ "{}" zeroTime] by simp
    then show ?thesis using length_alist_delete [OF q(1)] True q(2) by (fastforce simp: d_def)
  qed (simp add: d_def)
qed

lemma admit_ok:
  assumes "queue_ok s" and "validCandidate c" and "CertificatePath c = ''''" and "KeyPath c = ''''"
    and "length (rs_work s) < certificateQueueCapacity"
  shows "queue_ok (admit now key c s)"
proof -
  have "\<forall>(h, w) \<in> set (AList.update (Hostname c) (newWork now c) (rs_work s)). work_ok h w"
    using set_alist_update [of "Hostname c" "newWork now c" "rs_work s"] newWork_ok [OF assms(2-4)] assms(1)
    by (auto simp: queue_ok_def)
  then show ?thesis
    using assms admit_dedupe_bound [OF assms(1)]
    by (simp add: queue_ok_def admit_def Let_def distinct_update length_alist_update)
qed

lemma validCandidate_paths: "validCandidate (c\<lparr>CertificatePath := p, KeyPath := q\<rparr>) = validCandidate c"
  by (simp add: validCandidate_def)

lemma State_TryEnqueue_cases:
  assumes "State_TryEnqueue sha locked now c s = (b, s')"
  obtains (refused) "\<not> b" "rs_work s' = rs_work s \<or> rs_work s' = rs_work (prune now s)" "s' = s\<lparr>rs_dropped := rs_dropped s'\<rparr> \<or> s' = (prune now s)\<lparr>rs_dropped := rs_dropped s'\<rparr>"
  | (accepted) "b" "validCandidate c" "map_of (rs_work (prune now s)) (Hostname c) = None"
      "length (rs_work (prune now s)) < certificateQueueCapacity"
      "s' = admit now (sha (marshalCandidate (c\<lparr>CertificatePath := '''', KeyPath := ''''\<rparr>))) (c\<lparr>CertificatePath := '''', KeyPath := ''''\<rparr>) (prune now s)"
  using assms by (auto simp: State_TryEnqueue_def drop_candidate_def Let_def split: if_splits)

lemma queue_ok_dropped [simp]: "queue_ok (s\<lparr>rs_dropped := n\<rparr>) = queue_ok s"
  by (simp add: queue_ok_def)

lemma State_TryEnqueue_ok: "queue_ok s \<Longrightarrow> State_TryEnqueue sha locked now c s = (b, s') \<Longrightarrow> queue_ok s'"
proof (erule State_TryEnqueue_cases)
  assume q: "queue_ok s"
  { assume "s' = s\<lparr>rs_dropped := rs_dropped s'\<rparr> \<or> s' = (prune now s)\<lparr>rs_dropped := rs_dropped s'\<rparr>"
    then show "queue_ok s'" using q prune_ok by (metis queue_ok_dropped) }
  { assume "validCandidate c" "length (rs_work (prune now s)) < certificateQueueCapacity"
      "s' = admit now (sha (marshalCandidate (c\<lparr>CertificatePath := '''', KeyPath := ''''\<rparr>))) (c\<lparr>CertificatePath := '''', KeyPath := ''''\<rparr>) (prune now s)"
    then show "queue_ok s'" using admit_ok [OF prune_ok [OF q]] by (simp add: validCandidate_paths) }
qed


text \<open>The queue meets the contract of sinks.\<close>

definition queued_hosts :: "reporterState \<Rightarrow> string set" where
  "queued_hosts s = fst ` set (rs_work s)"

lemma queued_prune: "queued_hosts (prune now s) \<subseteq> queued_hosts s"
  by (auto simp: queued_hosts_def prune_def)

interpretation queue: mismatch_sink "State_TryEnqueue sha locked now" queue_ok queued_hosts certificateQueueCapacity
  for sha locked now
proof unfold_locales
  fix s s' c
  show "State_TryEnqueue sha locked now c s = (True, s') \<Longrightarrow> validHealthHostname (Hostname c)
      \<and> Hostname c \<in> queued_hosts s' \<and> queued_hosts s' \<subseteq> insert (Hostname c) (queued_hosts s)"
    by (erule State_TryEnqueue_cases)
       (use queued_prune in \<open>auto simp: queued_hosts_def admit_def Let_def validCandidate_def dom_update\<close>)
  show "queued_hosts s' \<subseteq> queued_hosts s" if "State_TryEnqueue sha locked now c s = (False, s')"
  proof -
    from that have "queued_hosts s' = queued_hosts s \<or> queued_hosts s' = queued_hosts (prune now s)"
      by (rule State_TryEnqueue_cases) (auto simp: queued_hosts_def)
    then show ?thesis using queued_prune [of now s] by blast
  qed
  show "queue_ok s \<Longrightarrow> finite (queued_hosts s) \<and> card (queued_hosts s) \<le> certificateQueueCapacity"
    using card_image_le [of "set (rs_work s)" fst] card_length [of "rs_work s"] by (simp add: queued_hosts_def queue_ok_def)
qed (rule State_TryEnqueue_ok)

subsection \<open>Steps of the workers\<close>

text \<open>\<open>process\<close> touches only counters of the state, and neither the host nor the life of the work grows.\<close>

definition same_queue :: "reporterState \<Rightarrow> reporterState \<Rightarrow> bool" where
  "same_queue s s' \<longleftrightarrow> rs_work s' = rs_work s \<and> rs_dedupe s' = rs_dedupe s \<and> rs_wake s' = rs_wake s \<and> rs_cancelled s' = rs_cancelled s"

lemma same_queue_simps [simp]: "same_queue s s" "same_queue s (fail s)" "same_queue s (succeed s)"
  by (simp_all add: same_queue_def fail_def succeed_def)

lemma same_queue_trans: "same_queue s s1 \<Longrightarrow> same_queue s1 s2 \<Longrightarrow> same_queue s s2"
  by (simp add: same_queue_def)

lemma deliver_frame: "deliver E event s = (a, retry, s') \<Longrightarrow> same_queue s s'"
  by (auto simp: deliver_def Let_def split: if_splits http_result.splits sum.splits)

definition same_work :: "certificateWork \<Rightarrow> certificateWork \<Rightarrow> bool" where
  "same_work w w' \<longleftrightarrow> w_candidate w' = w_candidate w \<and> w_birth w' = w_birth w \<and> w_busy w' = w_busy w \<and> w_expires w' \<le> w_expires w"

lemma sendEvent_frame:
  assumes "sendEvent E event s w = (keep, s', w')"
  shows "same_queue s s' \<and> same_work w w' \<and> w_attempts w' = w_attempts w + 1
    \<and> (keep \<longrightarrow> w_event w' = None \<or> w_event w' = w_event w \<and> w_attempts w' < 3)"
proof -
  obtain a retry s1 where d: "deliver E event s = (a, retry, s1)" by (cases "deliver E event s") auto
  note f = deliver_frame [OF d]
  have acc: "same_queue s (s1\<lparr>rs_accepted := n\<rparr>)" for n using f by (simp add: same_queue_def)
  have fl: "same_queue s (fail s1)" by (rule same_queue_trans [OF f]) simp
  show ?thesis
  proof (cases a)
    case None
    then show ?thesis using assms d f
      by (auto simp: sendEvent_def Let_def same_work_def split: if_splits sum.splits)
  next
    case (Some x)
    then show ?thesis using assms d acc fl
      by (auto simp: sendEvent_def Let_def same_work_def split: if_splits option.splits)
  qed
qed

lemma prepare_frame:
  "prepare E s w = Return keep s' w' \<Longrightarrow> same_queue s s' \<and> same_work w w' \<and> w_attempts w' = w_attempts w \<and> w_event w' = w_event w"
  "prepare E s w = Send s' w' \<Longrightarrow> same_queue s s' \<and> same_work w w' \<and> w_attempts w' = 0 \<and> w_event w' \<noteq> None"
  by (auto simp: prepare_def Let_def same_work_def split: if_splits sum.splits)

lemma same_work_trans: "same_work w w1 \<Longrightarrow> same_work w1 w2 \<Longrightarrow> same_work w w2"
  by (simp add: same_work_def)

lemma process_frame:
  assumes "process E s w = (keep, s', w')" and "0 \<le> w_attempts w" and "w_attempts w \<le> 3" and "may_send w"
  shows "same_queue s s' \<and> same_work w w' \<and> 0 \<le> w_attempts w' \<and> w_attempts w' \<le> 3 \<and> (keep \<longrightarrow> may_send w')"
proof (cases "pe_ExpiredAtStart E")
  case True
  then show ?thesis using assms by (auto simp: process_def same_work_def)
next
  case False
  show ?thesis
  proof (cases "w_event w")
    case (Some e)
    then have "sendEvent E e s w = (keep, s', w')" using assms(1) False by (simp add: process_def)
    from sendEvent_frame [OF this] show ?thesis using assms Some by (auto simp: may_send_def)
  next
    case None
    show ?thesis
    proof (cases "prepare E s w")
      case (Return k s1 w1)
      then show ?thesis using assms False None prepare_frame(1) [OF Return] by (simp add: process_def may_send_def)
    next
      case (Send s1 w1)
      note p = prepare_frame(2) [OF Send]
      then obtain e where "w_event w1 = Some e" by auto
      then have "sendEvent E e s1 w1 = (keep, s', w')" using assms(1) False None Send by (simp add: process_def)
      from sendEvent_frame [OF this] p show ?thesis
        by (auto simp: may_send_def intro: same_queue_trans same_work_trans)
    qed
  qed
qed


lemma queue_ok_same: "same_queue s s' \<Longrightarrow> queue_ok s' = queue_ok s"
  by (simp add: same_queue_def queue_ok_def)

lemma update_work_ok:
  assumes "queue_ok s" and "map_of (rs_work s) h = Some v" and "work_ok h w"
  shows "queue_ok (s\<lparr>rs_work := AList.update h w (rs_work s)\<rparr>)"
proof -
  have "\<forall>(h, w) \<in> set (AList.update h w (rs_work s)). work_ok h w"
    using set_alist_update [of h w "rs_work s"] assms by (auto simp: queue_ok_def)
  then show ?thesis using assms by (simp add: queue_ok_def distinct_update length_alist_update)
qed

lemma delete_work_ok:
  assumes "queue_ok s"
  shows "queue_ok (s\<lparr>rs_work := AList.delete h (rs_work s)\<rparr>)"
  using assms by (auto simp: queue_ok_def AList.delete_eq distinct_map_filter_fst intro: le_trans [OF length_filter_le])

lemma work_ok_same: "work_ok h w \<Longrightarrow> same_work w w' \<Longrightarrow> 0 \<le> w_attempts w' \<Longrightarrow> w_attempts w' \<le> 3 \<Longrightarrow> work_ok h w'"
  by (auto simp: work_ok_def same_work_def)

lemma diagnose_simps [simp]: "rs_work (diagnose now s) = rs_work s" "queue_ok (diagnose now s) = queue_ok s"
  "rs_cancelled (diagnose now s) = rs_cancelled s"
  by (auto simp: diagnose_def queue_ok_def)

lemma selectWork_in:
  "selectWork now xs sel = Some (h, w) \<Longrightarrow> sel = Some (h, w) \<or> (h, w) \<in> set xs \<and> \<not> w_busy w \<and> w_due w \<le> now"
  by (induction now xs sel rule: selectWork.induct) (fastforce split: if_splits)+

lemma takeWork_cases:
  assumes "queue_ok s" and "takeWork now s = (r, s')"
  obtains (none) "r = None" "rs_work s' = rs_work (prune now s)" "queue_ok s'"
  | (some) h w where "r = Some h" "map_of (rs_work (prune now s)) h = Some w" "\<not> w_busy w" "w_due w \<le> now" "now < w_expires w"
      "rs_work s' = AList.update h (w\<lparr>w_busy := True\<rparr>) (rs_work (prune now s))" "queue_ok s'"
proof (cases "selectWork now (rs_work (prune now s)) None")
  case None
  then show ?thesis using assms prune_ok [OF assms(1), of now] none by (auto simp: takeWork_def)
next
  case (Some x)
  obtain h w where x: "x = (h, w)" by fastforce
  with Some selectWork_in have hw: "(h, w) \<in> set (rs_work (prune now s))" "\<not> w_busy w" "w_due w \<le> now" by force+
  have q: "queue_ok (prune now s)" by (rule prune_ok [OF assms(1)])
  then have m: "map_of (rs_work (prune now s)) h = Some w" using hw(1) by (auto simp: queue_ok_def)
  have "now < w_expires w" using m hw(2) prune_work [OF assms(1), of now h] by (auto split: option.splits if_splits)
  moreover have "queue_ok ((prune now s)\<lparr>rs_work := AList.update h (w\<lparr>w_busy := True\<rparr>) (rs_work (prune now s))\<rparr>)"
    by (rule update_work_ok [OF q m]) (use queue_ok_work [OF q m] in \<open>simp add: work_ok_def\<close>)
  moreover have "r = Some h" "s' = diagnose now ((prune now s)\<lparr>rs_work := AList.update h (w\<lparr>w_busy := True\<rparr>) (rs_work (prune now s))\<rparr>)"
    using assms(2) Some x by (simp_all add: takeWork_def Let_def)
  ultimately show ?thesis using m hw by (intro some [of h w]) simp_all
qed

text \<open>How the parts of \<open>workers_ok\<close> carry over.\<close>

lemma workers_keep:
  assumes "workers_ok (s, ws)"
    and "\<And>h w. map_of (rs_work s') h = Some w \<Longrightarrow> map_of (rs_work s) h = Some w \<or> \<not> w_busy w \<and> may_send w"
    and "\<And>h w. map_of (rs_work s) h = Some w \<Longrightarrow> w_busy w \<Longrightarrow> map_of (rs_work s') h = Some w"
  shows "workers_ok (s', ws)"
proof -
  have "\<forall>h w. map_of (rs_work s') h = Some w \<longrightarrow> map_of (rs_work s) h = Some w \<or> \<not> w_busy w \<and> may_send w"
    "\<forall>h w. map_of (rs_work s) h = Some w \<longrightarrow> w_busy w \<longrightarrow> map_of (rs_work s') h = Some w"
    using assms(2,3) by blast+
  with assms(1) show ?thesis unfolding workers_ok_def prod.case by meson
qed


lemma prune_workers: "queue_ok s \<Longrightarrow> workers_ok (s, ws) \<Longrightarrow> workers_ok (prune now s, ws)"
  by (erule workers_keep) (auto simp: prune_work split: option.splits if_splits)

lemma workers_same_work: "rs_work s' = rs_work s \<Longrightarrow> workers_ok (s', ws) = workers_ok (s, ws)"
  by (simp add: workers_ok_def)

lemma enqueue_workers:
  assumes "queue_ok s" and "workers_ok (s, ws)" and "State_TryEnqueue sha locked now c s = (b, s')"
  shows "workers_ok (s', ws)"
  using assms(3)
proof (cases rule: State_TryEnqueue_cases)
  case refused
  then show ?thesis using assms prune_workers workers_same_work by metis
next
  case accepted
  then have work: "rs_work s' = AList.update (Hostname c) (newWork now (c\<lparr>CertificatePath := '''', KeyPath := ''''\<rparr>)) (rs_work (prune now s))"
    by (simp add: admit_def Let_def)
  show ?thesis
    by (rule workers_keep [OF prune_workers [OF assms(1,2), of now]])
       (use accepted(3) in \<open>auto simp: work update_conv' newWork_def may_send_def split: if_splits\<close>)
qed

lemma set_list_update: "i < length ws \<Longrightarrow> set (ws[i := x]) \<subseteq> insert x (set ws) \<and> x \<in> set (ws[i := x])"
  by (simp add: set_update_subset_insert set_update_memI)

lemma in_list_update: "k \<in> set ws \<Longrightarrow> i < length ws \<Longrightarrow> ws ! i \<noteq> k \<Longrightarrow> k \<in> set (ws[i := x])"
  by (metis in_set_conv_nth length_list_update nth_list_update_neq)

lemma workers_okD:
  assumes "workers_ok (s, ws)"
  shows "j < length ws \<Longrightarrow> held_host (ws ! j) = Some h \<Longrightarrow> \<exists>w. map_of (rs_work s) h = Some w \<and> w_busy w"
    and "j < length ws \<Longrightarrow> k < length ws \<Longrightarrow> held_host (ws ! j) = Some h \<Longrightarrow> held_host (ws ! k) = Some h \<Longrightarrow> j = k"
    and "map_of (rs_work s) h = Some w \<Longrightarrow> Finished h False \<notin> set ws \<Longrightarrow> may_send w"
    and "map_of (rs_work s) h = Some w \<Longrightarrow> w_busy w \<Longrightarrow> \<exists>k \<in> set ws. held_host k = Some h"
  using assms unfolding workers_ok_def by auto

text \<open>Nobody holds a host that is not busy.\<close>

lemma free_host:
  assumes "workers_ok (s, ws)" and "map_of (rs_work s) h = Some w" and "\<not> w_busy w" and "j < length ws"
  shows "held_host (ws ! j) \<noteq> Some h"
  using assms by (auto simp: workers_ok_def)

lemma select_workers:
  assumes w: "workers_ok (s, ws)" and i: "i < length ws" "ws ! i = Idle"
    and m: "map_of (rs_work s) h = Some v" "\<not> w_busy v"
    and s': "rs_work s' = AList.update h (v\<lparr>w_busy := True\<rparr>) (rs_work s)"
  shows "workers_ok (s', ws[i := Holding h])"
proof -
  note free = free_host [OF w m]
  have h: "Finished h False \<notin> set ws" using free by (metis held_host.simps(2) in_set_conv_nth)
  have a: "\<exists>u. map_of (rs_work s') g = Some u \<and> w_busy u"
    if "j < length ws" "held_host (ws[i := Holding h] ! j) = Some g" for j g
    using w that s' i by (cases "j = i") (auto simp: workers_ok_def update_conv')
  have b: "j = k" if "j < length ws" "k < length ws" "held_host (ws[i := Holding h] ! j) \<noteq> None"
      "held_host (ws[i := Holding h] ! j) = held_host (ws[i := Holding h] ! k)" for j k
    using w that free [of j] free [of k] i by (cases "j = i"; cases "k = i") (auto simp: workers_ok_def)
  have c: "may_send u" if "map_of (rs_work s') g = Some u" "Finished g False \<notin> set (ws[i := Holding h])" for g u
  proof -
    have "Finished g False \<notin> set ws" using that(2) in_list_update [of "Finished g False" ws i] i by auto
    then have "map_of (rs_work s) g = Some x \<Longrightarrow> may_send x" for x using w by (auto simp: workers_ok_def)
    then show ?thesis using that(1) s' m by (auto simp: update_conv' may_send_def split: if_splits)
  qed
  have d: "\<exists>k \<in> set (ws[i := Holding h]). held_host k = Some g" if busy: "map_of (rs_work s') g = Some u" "w_busy u" for g u
  proof (cases "g = h")
    case True
    then show ?thesis using set_list_update [OF i(1), of "Holding h"] by force
  next
    case False
    then have "map_of (rs_work s) g = Some u" using busy(1) s' by (simp add: update_conv')
    then obtain k where "k \<in> set ws" "held_host k = Some g" using workers_okD(4) [OF w _ busy(2)] by blast
    then show ?thesis using in_list_update [of k ws i] i by (cases "ws ! i = k") auto
  qed
  show ?thesis unfolding workers_ok_def prod.case length_list_update using a b c d by blast
qed


text \<open>The other steps of a worker: its host stays busy with new work, or is given up.\<close>

lemma proc_workers:
  assumes w: "workers_ok (s, ws)" and i: "i < length ws" "ws ! i = Holding h"
    and v: "w_busy v" "keep \<longrightarrow> may_send v"
    and s': "rs_work s' = AList.update h v (rs_work s)"
  shows "workers_ok (s', ws[i := Finished h keep])"
proof -
  have same: "held_host (ws[i := Finished h keep] ! j) = held_host (ws ! j)" for j
    using i by (cases "j = i") auto
  have a: "\<exists>u. map_of (rs_work s') g = Some u \<and> w_busy u" if "j < length ws" "held_host (ws ! j) = Some g" for j g
    using workers_okD(1) [OF w that] v s' by (auto simp: update_conv')
  have c: "may_send u" if "map_of (rs_work s') g = Some u" "Finished g False \<notin> set (ws[i := Finished h keep])" for g u
  proof (cases "g = h")
    case True
    then show ?thesis using that v s' set_list_update [OF i(1), of "Finished h keep"] by (cases keep) (auto simp: update_conv')
  next
    case False
    then have "map_of (rs_work s) g = Some u" using that(1) s' by (simp add: update_conv')
    moreover have "Finished g False \<notin> set ws"
      using that(2) in_list_update [of "Finished g False" ws i] i by auto
    ultimately show ?thesis by (rule workers_okD(3) [OF w])
  qed
  have d: "\<exists>k \<in> set (ws[i := Finished h keep]). held_host k = Some g" if busy: "map_of (rs_work s') g = Some u" "w_busy u" for g u
  proof (cases "g = h")
    case True
    then show ?thesis using set_list_update [OF i(1), of "Finished h keep"] by force
  next
    case False
    then have "map_of (rs_work s) g = Some u" using busy(1) s' by (simp add: update_conv')
    then obtain k where "k \<in> set ws" "held_host k = Some g" using workers_okD(4) [OF w _ busy(2)] by blast
    then show ?thesis using in_list_update [of k ws i] i False by (cases "ws ! i = k") auto
  qed
  show ?thesis unfolding workers_ok_def prod.case same length_list_update
    using a c d workers_okD(2) [OF w] by fastforce
qed

lemma release_workers:
  assumes w: "workers_ok (s, ws)" and i: "i < length ws" "ws ! i = Finished h keep"
    and gone: "map_of (rs_work s') h = None \<or> (\<exists>u. map_of (rs_work s') h = Some u \<and> \<not> w_busy u \<and> may_send u)"
    and others: "\<And>g. g \<noteq> h \<Longrightarrow> map_of (rs_work s') g = map_of (rs_work s) g"
  shows "workers_ok (s', ws[i := Idle])"
proof -
  have mine: "j = i" if "j < length ws" "held_host (ws ! j) = Some h" for j
    using workers_okD(2) [OF w that(1) i(1) that(2)] i by simp
  have a: "\<exists>u. map_of (rs_work s') g = Some u \<and> w_busy u" if "j < length ws" "held_host (ws[i := Idle] ! j) = Some g" for j g
  proof -
    have ji: "j \<noteq> i" using that i by auto
    then have g: "held_host (ws ! j) = Some g" using that by simp
    with ji mine that(1) have "g \<noteq> h" by auto
    then show ?thesis using others workers_okD(1) [OF w that(1) g] by simp
  qed
  have b: "j = k" if "j < length ws" "k < length ws" "held_host (ws[i := Idle] ! j) = Some g" "held_host (ws[i := Idle] ! k) = Some g" for j k g
  proof -
    have "j \<noteq> i" "k \<noteq> i" using that i by auto
    then show ?thesis using that workers_okD(2) [OF w that(1,2)] by simp
  qed
  have c: "may_send u" if "map_of (rs_work s') g = Some u" "Finished g False \<notin> set (ws[i := Idle])" for g u
  proof (cases "g = h")
    case True
    then show ?thesis using gone that by auto
  next
    case False
    then have "map_of (rs_work s) g = Some u" using that(1) others by simp
    moreover have "Finished g False \<notin> set ws"
      using that(2) in_list_update [of "Finished g False" ws i] i False by auto
    ultimately show ?thesis by (rule workers_okD(3) [OF w])
  qed
  have d: "\<exists>k \<in> set (ws[i := Idle]). held_host k = Some g" if busy: "map_of (rs_work s') g = Some u" "w_busy u" for g u
  proof -
    have gh: "g \<noteq> h" using gone busy by auto
    with others busy(1) have "map_of (rs_work s) g = Some u" by simp
    then obtain k where "k \<in> set ws" "held_host k = Some g" using workers_okD(4) [OF w _ busy(2)] by blast
    then show ?thesis using in_list_update [of k ws i] i gh by (cases "ws ! i = k") auto
  qed
  show ?thesis unfolding workers_ok_def prod.case length_list_update using a b c d by fastforce
qed


lemma processWork_ok:
  assumes "pool_ok (s, ws)" and "i < length ws" and "ws ! i = Holding h" and "processWork E h s = (keep, s')"
  shows "pool_ok (s', ws[i := Finished h keep])"
proof -
  from assms(1) have q: "queue_ok s" and w: "workers_ok (s, ws)" by (simp_all add: pool_ok_def)
  obtain v where v: "map_of (rs_work s) h = Some v" "w_busy v" using workers_okD(1) [OF w assms(2)] assms(3) by auto
  have "Finished h False \<notin> set ws"
  proof
    assume "Finished h False \<in> set ws"
    then obtain j where "j < length ws" "ws ! j = Finished h False" by (auto simp: in_set_conv_nth)
    then show False using workers_okD(2) [OF w, of j i h] assms(2,3) by auto
  qed
  then have send: "may_send v" by (rule workers_okD(3) [OF w v(1)])
  have vo: "work_ok h v" by (rule queue_ok_work [OF q v(1)])
  obtain s1 v' where p: "process E s v = (keep, s1, v')" and s': "s' = s1\<lparr>rs_work := AList.update h v' (rs_work s1)\<rparr>"
    using assms(4) v(1) by (auto simp: processWork_def split: prod.splits)
  have f: "same_queue s s1" "same_work v v'" "0 \<le> w_attempts v'" "w_attempts v' \<le> 3" "keep \<longrightarrow> may_send v'"
    using process_frame [OF p _ _ send] vo by (auto simp: work_ok_def)
  have work: "rs_work s1 = rs_work s" using f(1) by (simp add: same_queue_def)
  have "queue_ok s1" using q queue_ok_same [OF f(1)] by simp
  then have "queue_ok s'"
    unfolding s' using v(1) work work_ok_same [OF vo f(2-4)] by (intro update_work_ok [of _ _ v]) simp_all
  moreover have "workers_ok (s', ws[i := Finished h keep])"
    by (rule proc_workers [OF w assms(2,3), of v']) (use f v in \<open>auto simp: same_work_def s' work\<close>)
  ultimately show ?thesis by (simp add: pool_ok_def)
qed

lemma releaseWork_ok:
  assumes "pool_ok (s, ws)" and "i < length ws" and "ws ! i = Finished h keep"
  shows "pool_ok (releaseWork keep now h s, ws[i := Idle])"
proof -
  from assms(1) have q: "queue_ok s" and w: "workers_ok (s, ws)" by (simp_all add: pool_ok_def)
  obtain v where v: "map_of (rs_work s) h = Some v" using workers_okD(1) [OF w assms(2)] assms(3) by auto
  show ?thesis
  proof (cases "\<not> keep \<or> rs_cancelled s \<or> \<not> now < w_expires v")
    case True
    then have r: "releaseWork keep now h s = s\<lparr>rs_work := AList.delete h (rs_work s)\<rparr>"
      using v by (simp add: releaseWork_def)
    have "workers_ok (releaseWork keep now h s, ws[i := Idle])"
      by (rule release_workers [OF w assms(2,3)]) (auto simp: r delete_conv')
    then show ?thesis using delete_work_ok [OF q] by (simp add: pool_ok_def r)
  next
    case False
    then have r: "releaseWork keep now h s = s\<lparr>rs_work := AList.update h (v\<lparr>w_busy := False\<rparr>) (rs_work s)\<rparr>"
      using v by (simp add: releaseWork_def)
    have "Finished h False \<notin> set ws"
    proof
      assume "Finished h False \<in> set ws"
      then obtain j where j: "j < length ws" "ws ! j = Finished h False" by (auto simp: in_set_conv_nth)
      then have "j = i" using workers_okD(2) [OF w, of j i h] assms(2,3) by auto
      then show False using j assms(3) False by simp
    qed
    then have "may_send v" by (rule workers_okD(3) [OF w v])
    then have "workers_ok (releaseWork keep now h s, ws[i := Idle])"
      by (intro release_workers [OF w assms(2,3)]) (auto simp: r update_conv' may_send_def)
    moreover have "queue_ok (releaseWork keep now h s)"
      unfolding r by (rule update_work_ok [OF q v]) (use queue_ok_work [OF q v] in \<open>simp add: work_ok_def\<close>)
    ultimately show ?thesis by (simp add: pool_ok_def)
  qed
qed

lemma takeWork_ok:
  assumes "pool_ok (s, ws)" and "i < length ws" and "ws ! i = Idle" and "takeWork now s = (r, s')"
  shows "pool_ok (s', ws[i := (case r of None \<Rightarrow> Idle | Some h \<Rightarrow> Holding h)])"
proof -
  from assms(1) have q: "queue_ok s" and w: "workers_ok (s, ws)" by (simp_all add: pool_ok_def)
  note pw = prune_workers [OF q w, of now]
  show ?thesis
    using q assms(4)
  proof (cases rule: takeWork_cases)
    case none
    have "ws[i := Idle] = ws" using assms(3) by (metis list_update_id)
    then show ?thesis using none pw workers_same_work [OF none(2)] by (simp add: pool_ok_def)
  next
    case (some h v)
    then show ?thesis using select_workers [OF pw assms(2,3) some(2,3,6)] by (simp add: pool_ok_def)
  qed
qed

lemma workers_flag: "workers_ok (s, ws) \<Longrightarrow> i < length ws \<Longrightarrow> ws ! i = Idle \<Longrightarrow> workers_ok (s, ws[i := Exited])"
proof -
  assume w: "workers_ok (s, ws)" and i: "i < length ws" "ws ! i = Idle"
  have same: "held_host (ws[i := Exited] ! j) = held_host (ws ! j)" for j using i by (cases "j = i") auto
  have keep: "k \<in> set (ws[i := Exited])" if "k \<in> set ws" "k \<noteq> Idle" for k using in_list_update [of k ws i] i that by auto
  then have c: "Finished h False \<notin> set ws" if "Finished h False \<notin> set (ws[i := Exited])" for h using that by blast
  have d: "\<exists>k \<in> set (ws[i := Exited]). held_host k = Some g" if "map_of (rs_work s) g = Some u" "w_busy u" for g u
    using workers_okD(4) [OF w that] keep by fastforce
  show ?thesis
    unfolding workers_ok_def prod.case same length_list_update
    using workers_okD(1-3) [OF w] c d by fastforce
qed

lemma pool_step_ok: "pool_step sha p p' \<Longrightarrow> pool_ok p \<Longrightarrow> pool_ok p'"
proof (induction rule: pool_step.induct)
  case (enqueue locked now c s b s' ws)
  then show ?case unfolding pool_ok_def fst_conv using State_TryEnqueue_ok enqueue_workers by blast
next
  case (woken i ws s)
  have "queue_ok s \<Longrightarrow> queue_ok (receiveWake s)" by (auto simp: receiveWake_def queue_ok_def)
  moreover have "workers_ok (receiveWake s, ws) = workers_ok (s, ws)" by (rule workers_same_work) (simp add: receiveWake_def)
  ultimately show ?case using woken by (simp add: pool_ok_def)
next
  case (leave i ws s)
  then show ?case by (simp add: pool_ok_def workers_flag)
next
  case (cancel s ws)
  have "queue_ok (State_cancel s) = queue_ok s" by (simp add: State_cancel_def queue_ok_def)
  moreover have "workers_ok (State_cancel s, ws) = workers_ok (s, ws)" by (rule workers_same_work) (simp add: State_cancel_def)
  ultimately show ?case using cancel by (simp add: pool_ok_def)
next
  case (clear s ws)
  then have "held_host (ws ! j) = None" if "j < length ws" for j using that nth_mem by fastforce
  then show ?case using clear by (simp add: pool_ok_def State_clear_def queue_ok_def workers_ok_def certificateQueueCapacity_def)
qed (blast intro: takeWork_ok processWork_ok releaseWork_ok)+

lemma newPool_ok: "pool_ok (newPool config logger)"
  by (simp add: pool_ok_def newPool_def State_start_def newCertificateReporterState_def queue_ok_def workers_ok_def nth_Cons split: nat.split)

lemma pool_steps_ok: "(pool_step sha)\<^sup>*\<^sup>* p p' \<Longrightarrow> pool_ok p \<Longrightarrow> pool_ok p'"
  by (induction rule: rtranclp_induct) (auto intro: pool_step_ok)


subsection \<open>Properties\<close>

text \<open>
  C28. In every state a pool reaches: at most 256 hosts are queued and 1024 candidates remembered,
  all queued candidates are valid and without storage paths, work lives at most five minutes, no
  event is delivered more than three times, and no two workers hold the same host.
\<close>

theorem reporter_pool_invariant:
  assumes "(pool_step sha)\<^sup>*\<^sup>* (newPool config logger) (s, ws)"
  shows "length (rs_work s) \<le> 256 \<and> length (rs_dedupe s) \<le> 1024 \<and> distinct (map fst (rs_work s))
    \<and> (\<forall>h w. map_of (rs_work s) h = Some w \<longrightarrow> Hostname (w_candidate w) = h \<and> validCandidate (w_candidate w)
        \<and> CertificatePath (w_candidate w) = '''' \<and> KeyPath (w_candidate w) = ''''
        \<and> w_expires w \<le> w_birth w + certificateLifetime \<and> w_attempts w \<le> 3)
    \<and> (\<forall>i < length ws. \<forall>j < length ws. held_host (ws ! i) \<noteq> None \<longrightarrow> held_host (ws ! i) = held_host (ws ! j) \<longrightarrow> i = j)"
proof -
  have "pool_ok (s, ws)" by (rule pool_steps_ok [OF assms newPool_ok])
  then have q: "queue_ok s" and w: "workers_ok (s, ws)" by (simp_all add: pool_ok_def)
  have "length (rs_work s) \<le> 256 \<and> length (rs_dedupe s) \<le> 1024 \<and> distinct (map fst (rs_work s))"
    using q by (simp add: queue_ok_def certificateQueueCapacity_def certificateDedupeCapacity_def)
  moreover have "\<forall>h w. map_of (rs_work s) h = Some w \<longrightarrow> Hostname (w_candidate w) = h \<and> validCandidate (w_candidate w)
        \<and> CertificatePath (w_candidate w) = '''' \<and> KeyPath (w_candidate w) = ''''
        \<and> w_expires w \<le> w_birth w + certificateLifetime \<and> w_attempts w \<le> 3"
    using queue_ok_work [OF q] unfolding work_ok_def by blast
  moreover have "\<forall>i < length ws. \<forall>j < length ws. held_host (ws ! i) \<noteq> None \<longrightarrow> held_host (ws ! i) = held_host (ws ! j) \<longrightarrow> i = j"
    using w unfolding workers_ok_def by blast
  ultimately show ?thesis by blast
qed

text \<open>
  When \<open>TryEnqueue\<close> accepts: the mutex is free, the pool is running, the candidate is valid, its host
  has no work that is busy or alive, the map has no unexpired entry for it, and fewer than 256 hosts
  are busy or alive.
\<close>

lemma try_enqueue_iff:
  assumes "queue_ok s" and "zeroTime \<le> now" and key: "key = sha (marshalCandidate (c\<lparr>CertificatePath := '''', KeyPath := ''''\<rparr>))"
  shows "fst (State_TryEnqueue sha locked now c s) \<longleftrightarrow>
    \<not> locked \<and> \<not> rs_cancelled s \<and> validCandidate c
    \<and> (\<forall>w. map_of (rs_work s) (Hostname c) = Some w \<longrightarrow> \<not> w_busy w \<and> w_expires w \<le> now)
    \<and> (\<forall>t. map_of (rs_dedupe s) key = Some t \<longrightarrow> t \<le> now)
    \<and> length (filter (\<lambda>(h, w). w_busy w \<or> now < w_expires w) (rs_work s)) < 256"
proof -
  have work: "map_of (rs_work (prune now s)) (Hostname c) = None \<longleftrightarrow>
      (\<forall>w. map_of (rs_work s) (Hostname c) = Some w \<longrightarrow> \<not> w_busy w \<and> w_expires w \<le> now)"
    unfolding prune_work [OF assms(1)] by (auto split: option.splits)
  have seen: "\<not> seenBefore now key (prune now s) \<longleftrightarrow> (\<forall>t. map_of (rs_dedupe s) key = Some t \<longrightarrow> t \<le> now)"
    unfolding seenBefore_def prune_dedupe [OF assms(1)] using assms(2) by (auto split: option.splits)
  have len: "length (rs_work (prune now s)) = length (filter (\<lambda>(h, w). w_busy w \<or> now < w_expires w) (rs_work s))"
    by (simp add: prune_def)
  have "fst (State_TryEnqueue sha locked now c s) \<longleftrightarrow> \<not> locked \<and> \<not> rs_cancelled s \<and> validCandidate c
      \<and> map_of (rs_work (prune now s)) (Hostname c) = None \<and> \<not> seenBefore now key (prune now s)
      \<and> length (rs_work (prune now s)) < 256"
    unfolding State_TryEnqueue_def drop_candidate_def Let_def key certificateQueueCapacity_def by auto
  then show ?thesis unfolding work seen len .
qed

definition ex_valid :: MismatchCandidate where
  "ex_valid = \<lparr>Hostname = ''a.io'', IssuerKey = ''le'', CertificatePath = ''c'', KeyPath = ''k'', LeafSHA256 = replicate 64 (CHR ''0''),
     CertificateSPKISHA256 = replicate 64 (CHR ''1''), KeySPKISHA256 = replicate 64 (CHR ''2'')\<rparr>"

definition ex_config :: CertificateReporter where
  "ex_config = \<lparr>cr_Endpoint = '''', cr_ProxyServerID = 7, cr_MachineID = ''00000000000000'', cr_Token = '''', cr_Address = '''', cr_ClientAuth = False\<rparr>"

abbreviation ex_pool :: reporterState where
  "ex_pool \<equiv> State_start (newCertificateReporterState ex_config False)"

lemma ex_valid_ok: "validCandidate ex_valid"
proof -
  have h: "validHealthHostname ''a.io''" "validHealthIssuer ''le''" by code_simp+
  have "lower_hex_char CHR ''0''" "lower_hex_char CHR ''1''" "lower_hex_char CHR ''2''" by code_simp+
  then have "lowerHex (replicate 64 CHR ''0'') 64" "lowerHex (replicate 64 CHR ''1'') 64" "lowerHex (replicate 64 CHR ''2'') 64"
    by (simp_all add: lowerHex_def list_all_iff)
  then show ?thesis using h by (simp add: validCandidate_def ex_valid_def)
qed

lemma ex_pool_ok: "queue_ok ex_pool"
  using newPool_ok [of ex_config False] by (simp add: pool_ok_def newPool_def)

theorem reporter_pool_invariant_witness:
  "length (rs_work (snd (State_TryEnqueue (\<lambda>b. b) False 0 ex_valid ex_pool))) \<le> 256"
proof -
  have "pool_step (\<lambda>b. b) (newPool ex_config False) (snd (State_TryEnqueue (\<lambda>b. b) False 0 ex_valid ex_pool), [Idle, Idle])"
    unfolding newPool_def by (rule pool_step.enqueue [where locked = False and now = 0 and c = ex_valid]) (rule prod.collapse [symmetric])
  then have "(pool_step (\<lambda>b. b))\<^sup>*\<^sup>* (newPool ex_config False) (snd (State_TryEnqueue (\<lambda>b. b) False 0 ex_valid ex_pool), [Idle, Idle])"
    by (rule r_into_rtranclp)
  from reporter_pool_invariant [OF this] show ?thesis by simp
qed

end
