(* ===== verification/Delivery.thy ===== *)
theory Delivery
  imports Reporter
begin

section \<open>What the reporter sends, and when\<close>

text \<open>
  Properties of one pass of a worker: which work it takes, when an event is made, how large its
  text is, and what every answer of the endpoint leads to.
\<close>

subsection \<open>Selection\<close>

lemma selectWork_least:
  "selectWork now xs sel = Some (h, w) \<Longrightarrow>
    (\<forall>(g, u) \<in> set xs. \<not> w_busy u \<longrightarrow> w_due u \<le> now \<longrightarrow> w_due w \<le> w_due u) \<and> (\<forall>g u. sel = Some (g, u) \<longrightarrow> w_due w \<le> w_due u)"
proof (induction now xs sel rule: selectWork.induct)
  case (2 now g u rest sel)
  then show ?case by (fastforce split: if_splits option.splits)
qed simp

lemma selectWork_None:
  "selectWork now xs sel = None \<Longrightarrow> sel = None \<and> (\<forall>(g, u) \<in> set xs. w_busy u \<or> now < w_due u)"
proof (induction now xs sel rule: selectWork.induct)
  case (2 now g u rest sel)
  then show ?case by (auto split: if_splits)
qed simp

text \<open>
  C30. A worker takes the work that has been due longest among the work that is neither busy nor
  expired, marks it busy, and finds none exactly when none is due; expired work is gone after
  the pass unless a worker still holds it.
\<close>

theorem worker_takes_earliest:
  assumes "queue_ok s" and "takeWork now s = (r, s')"
  shows "(case r of
      None \<Rightarrow> \<not> (\<exists>h w. map_of (rs_work s) h = Some w \<and> \<not> w_busy w \<and> now < w_expires w \<and> w_due w \<le> now)
    | Some h \<Rightarrow> (\<exists>w. map_of (rs_work s) h = Some w \<and> \<not> w_busy w \<and> now < w_expires w \<and> w_due w \<le> now
        \<and> map_of (rs_work s') h = Some (w\<lparr>w_busy := True\<rparr>)
        \<and> (\<forall>g u. map_of (rs_work s) g = Some u \<longrightarrow> \<not> w_busy u \<longrightarrow> now < w_expires u \<longrightarrow> w_due u \<le> now \<longrightarrow> w_due w \<le> w_due u)))
    \<and> (\<forall>h w. map_of (rs_work s') h = Some w \<longrightarrow> w_busy w \<or> now < w_expires w)"
proof -
  note live = prune_work [OF assms(1), of now]
  have alive: "(g, u) \<in> set (rs_work (prune now s))" if "map_of (rs_work s) g = Some u" "\<not> w_busy u" "now < w_expires u" for g u
    using live [of g] that by (intro map_of_SomeD) simp
  show ?thesis
    using assms
  proof (cases rule: takeWork_cases)
    case none
    then have "selectWork now (rs_work (prune now s)) None = None"
      using assms(2) by (auto simp: takeWork_def Let_def split: option.splits)
    from selectWork_None [OF this] have "\<forall>(g, u) \<in> set (rs_work (prune now s)). w_busy u \<or> now < w_due u" by simp
    then have "\<not> (\<exists>h w. map_of (rs_work s) h = Some w \<and> \<not> w_busy w \<and> now < w_expires w \<and> w_due w \<le> now)"
      using alive by fastforce
    then show ?thesis using none live by (auto split: option.splits if_splits)
  next
    case (some h w)
    obtain w' where sel: "selectWork now (rs_work (prune now s)) None = Some (h, w')"
      using assms(2) some(1) by (auto simp: takeWork_def Let_def split: option.splits)
    have q: "queue_ok (prune now s)" by (rule prune_ok [OF assms(1)])
    then have "map_of (rs_work (prune now s)) h = Some w'"
      using selectWork_in [OF sel] by (intro map_of_is_SomeI) (auto simp: queue_ok_def)
    then have "w' = w" using some(2) by simp
    then have least: "w_due w \<le> w_due u" if "map_of (rs_work s) g = Some u" "\<not> w_busy u" "now < w_expires u" "w_due u \<le> now" for g u
      using selectWork_least [OF sel] alive [OF that(1-3)] that(2,4) by auto
    have "map_of (rs_work s) h = Some w" using some(2) live [of h] by (auto split: option.splits if_splits)
    moreover have "map_of (rs_work s') h = Some (w\<lparr>w_busy := True\<rparr>)" by (simp add: some(6) update_conv')
    moreover have "\<forall>g u. map_of (rs_work s') g = Some u \<longrightarrow> w_busy u \<or> now < w_expires u"
      using live by (auto simp: some(6) update_conv' split: option.splits if_splits)
    ultimately show ?thesis using some least by auto
  qed
qed

theorem worker_takes_earliest_witness:
  "fst (takeWork 0 (snd (State_TryEnqueue (\<lambda>b. b) False 0 ex_valid ex_pool))) = Some ''a.io''"
proof -
  let ?s = "snd (State_TryEnqueue (\<lambda>b. b) False 0 ex_valid ex_pool)"
  have e: "map_of (rs_work ?s) ''a.io'' = Some (newWork 0 (ex_valid\<lparr>CertificatePath := '''', KeyPath := ''''\<rparr>))"
    "dom (map_of (rs_work ?s)) = {''a.io''}"
    using ex_valid_ok by (auto simp: State_TryEnqueue_def State_start_def newCertificateReporterState_def prune_def seenBefore_def
        zeroTime_def Second_def certificateQueueCapacity_def certificateDedupeCapacity_def admit_def ex_valid_def Let_def)
  have q: "queue_ok ?s" by (rule State_TryEnqueue_ok [OF ex_pool_ok]) (rule prod.collapse [symmetric])
  note t = worker_takes_earliest [OF q prod.collapse [symmetric], of 0]
  show ?thesis
  proof (cases "fst (takeWork 0 ?s)")
    case None
    define w where "w = newWork 0 (ex_valid\<lparr>CertificatePath := '''', KeyPath := ''''\<rparr>)"
    then have "map_of (rs_work ?s) ''a.io'' = Some w" "\<not> w_busy w" "0 < w_expires w" "w_due w \<le> 0"
      using e(1) by (simp_all add: newWork_def certificateLifetime_def Second_def)
    then show ?thesis using t None by auto
  next
    case (Some h)
    then have "h \<in> dom (map_of (rs_work ?s))" using t by auto
    then show ?thesis using e(2) Some by simp
  qed
qed


subsection \<open>Making an event\<close>

text \<open>
  C31. A first report needs a failing handshake: without an acceptance, an inconclusive or a valid
  probe ends the work with nothing sent and nothing counted, and an event that is made carries
  the kind, the hashes and the failing result of the probe.
\<close>

theorem first_report_needs_failure:
  assumes "w_event w = None" and "w_acceptance w = None"
  shows "(Result (pe_Probe E) = '''' \<or> Result (pe_Probe E) = TLSValid \<longrightarrow> process E s w = (False, s, w))
    \<and> (\<forall>s' w'. prepare E s w = Send s' w' \<longrightarrow> s' = s \<and> (\<exists>e. w_event w' = Some e \<and> ev_Kind e = ''mismatch''
        \<and> ev_TLSResult e = Result (pe_Probe E) \<and> Result (pe_Probe E) \<notin> {'''', TLSValid}
        \<and> ev_Hostname e = Hostname (w_candidate w) \<and> ev_LeafSHA256 e = LeafSHA256 (w_candidate w)
        \<and> ev_CertificateSPKISHA256 e = CertificateSPKISHA256 (w_candidate w)
        \<and> ev_KeySPKISHA256 e = KeySPKISHA256 (w_candidate w) \<and> ev_ReportID e = '''' \<and> ev_ServedLeafSHA256 e = ''''))"
proof (intro conjI impI allI)
  assume "Result (pe_Probe E) = '''' \<or> Result (pe_Probe E) = TLSValid"
  then have "prepare E s w = Return False s w" using assms by (auto simp: prepare_def Let_def)
  then show "process E s w = (False, s, w)" using assms by (simp add: process_def)
qed (use assms in \<open>auto simp: prepare_def makeEvent_def Let_def split: if_splits sum.splits\<close>)

definition ex_answer :: "string \<Rightarrow> http_result \<Rightarrow> process_env" where
  "ex_answer res answer = \<lparr>pe_ExpiredAtStart = False, pe_Probe = \<lparr>Result = res, CheckedAt = 0, ServedLeafSHA256 = ''''\<rparr>,
     pe_ExpiredAfterProbe = False, pe_Random = Inr (replicate 16 (CHR ''x'')), pe_RequestOk = True, pe_Do = (\<lambda>r. answer),
     pe_ParseNow = 0, pe_Jitter = Inr 500, pe_Now = 0\<rparr>"

theorem first_report_needs_failure_witness:
  "process (ex_answer TLSValid HttpError) ex_pool (newWork 0 ex_valid) = (False, ex_pool, newWork 0 ex_valid)"
  using first_report_needs_failure [of "newWork 0 ex_valid" "ex_answer TLSValid HttpError" ex_pool]
  by (simp add: ex_answer_def newWork_def)

subsection \<open>Retrying\<close>

text \<open>The answers after which a delivery is tried again.\<close>

definition retryable :: "http_result \<Rightarrow> bool" where
  "retryable r = (case r of HttpError \<Rightarrow> True
     | Response status content \<Rightarrow> status = 429 \<or> status = 503 \<or> status = 202 \<and> (\<exists>e. content = Inl e))"

lemma deliver_retry:
  "deliver E event s = (a, retry, s') \<Longrightarrow> retry \<longleftrightarrow> length (marshalEvent event) \<le> 8192 \<and> pe_RequestOk E
     \<and> retryable (pe_Do E (deliveryRequest s (marshalEvent event)))"
  by (auto simp: deliver_def retryable_def Let_def split: if_splits http_result.splits sum.splits)

lemma deliver_answer: "deliver E event s = (Some a, retry, s') \<Longrightarrow> \<not> retry \<and> (\<exists>p. parseCertificateAcceptance p (pe_ParseNow E) = Inr a)"
  by (auto simp: deliver_def Let_def split: if_splits http_result.splits sum.splits)

text \<open>
  C32. Retries are bounded and paced: work whose event is still pending after a delivery is kept
  only after a transport error, an unreadable body or status 429 or 503, after at most two
  attempts, and becomes due one to two seconds per attempt later, before it expires.
\<close>

theorem retry_schedule:
  assumes "sendEvent E event s w = (True, s', w')" and "w_event w' \<noteq> None" and "0 \<le> w_attempts w"
    and "\<forall>j. pe_Jitter E = Inr j \<longrightarrow> 0 \<le> j \<and> j < 1000"
  shows "retryable (pe_Do E (deliveryRequest s (marshalEvent event)))
    \<and> w_attempts w' = w_attempts w + 1 \<and> w_attempts w' \<le> 2 \<and> w_event w' = w_event w \<and> w_expires w' = w_expires w
    \<and> pe_Now E + w_attempts w' * Second \<le> w_due w' \<and> w_due w' < pe_Now E + 2 * w_attempts w' * Second
    \<and> w_due w' < w_expires w'"
proof -
  obtain a retry s1 where d: "deliver E event s = (a, retry, s1)" by (cases "deliver E event s") auto
  have a: "a = None" using assms(1,2) d by (auto simp: sendEvent_def Let_def split: option.splits if_splits)
  then obtain j where j: "pe_Jitter E = Inr j" and r: "retry" "w_attempts w + 1 < 3"
      and w': "w' = w\<lparr>w_attempts := w_attempts w + 1, w_due := pe_Now E + (1000 + j) * 1000000 * (w_attempts w + 1)\<rparr>"
      and due: "pe_Now E + (1000 + j) * 1000000 * (w_attempts w + 1) < w_expires w"
    using assms(1) d by (auto simp: sendEvent_def Let_def split: if_splits sum.splits)
  define n where "n = w_attempts w + 1"
  have n: "n = 1 \<or> n = 2" using r(2) assms(3) by (auto simp: n_def)
  have jr: "0 \<le> j" "j < 1000" using assms(4) j by auto
  have "pe_Now E + n * Second \<le> pe_Now E + (1000 + j) * 1000000 * n" "pe_Now E + (1000 + j) * 1000000 * n < pe_Now E + 2 * n * Second"
    using n jr by (auto simp: Second_def)
  then show ?thesis
    using deliver_retry [OF d] r due n by (auto simp: w' n_def)
qed


subsection \<open>The size of an event\<close>

lemma escapeASCII_length: "length (escapeASCII c) \<le> 6"
  by (simp add: escapeASCII_def)

lemma json_escape_length: "length (json_escape s) \<le> 6 * length s"
proof (induction s rule: json_escape.induct)
  case (1 s)
  show ?case
  proof (cases s)
    case Nil
    then show ?thesis by (simp add: json_escape.simps)
  next
    case (Cons c r)
    have n: "runeLen s \<le> length s" by (auto simp: runeLen_def byte_in_def)
    show ?thesis
    proof (cases "byte c < 0x80 \<or> runeLen s = 0")
      case True
      then have "length (json_escape r) \<le> 6 * length r" using "1.IH"(1,2) Cons by auto
      then show ?thesis using True escapeASCII_length [of c] Cons by (subst json_escape.simps) auto
    next
      case False
      then have ih: "length (json_escape (drop (runeLen s) s)) \<le> 6 * (length s - runeLen s)" using "1.IH"(3) Cons by auto
      have "0 < runeLen s" using False by simp
      then show ?thesis using ih n False Cons by (subst json_escape.simps) auto
    qed
  qed
qed

lemma json_quote_length: "length (json_quote s) \<le> 6 * length s + 2"
  using json_escape_length [of s] by (simp add: json_quote_def)

lemma digits_of_length: "n < 10 ^ Suc k \<Longrightarrow> length (digits_of n) \<le> Suc k"
proof (induction k arbitrary: n)
  case 0
  then show ?case by (simp add: digits_of.simps)
next
  case (Suc k)
  have "n div 10 < 10 ^ Suc k" using Suc.prems by (simp add: less_mult_imp_div_less mult.commute)
  from Suc.IH [OF this] show ?case by (simp add: digits_of.simps [of n])
qed

lemma Itoa_length: "\<bar>v\<bar> < 10 ^ Suc k \<Longrightarrow> length (Itoa v) \<le> Suc (Suc k)"
proof -
  assume v: "\<bar>v\<bar> < 10 ^ Suc k"
  have "nat \<bar>v\<bar> < 10 ^ Suc k" using v by (simp add: nat_less_iff)
  then have "length (digits_of (nat \<bar>v\<bar>)) \<le> Suc k" by (rule digits_of_length)
  then show ?thesis by (cases "v < 0") (simp_all add: Itoa_def)
qed

lemma pad_length: "\<bar>v\<bar> < 10 ^ Suc k \<Longrightarrow> length (pad w v) \<le> Suc (max w (Suc k))"
proof -
  assume v: "\<bar>v\<bar> < 10 ^ Suc k"
  define n where "n = length (digits_of (nat \<bar>v\<bar>))"
  have "nat \<bar>v\<bar> < 10 ^ Suc k" using v by (simp add: nat_less_iff)
  then have n: "n \<le> Suc k" unfolding n_def by (rule digits_of_length)
  have "length (pad w v) \<le> Suc (w - n + n)" by (simp add: pad_def Let_def n_def)
  also have "\<dots> \<le> Suc (max w (Suc k))" using n by simp
  finally show ?thesis .
qed

lemma abs_div_le: "\<bar>a\<bar> \<le> b \<Longrightarrow> 1 \<le> k \<Longrightarrow> \<bar>a div k\<bar> \<le> (b :: int)"
proof (cases "0 \<le> a")
  case True
  moreover assume "\<bar>a\<bar> \<le> b" "1 \<le> k"
  moreover have "a div k \<le> a" using zdiv_mono2 [of a 1 k] True \<open>1 \<le> k\<close> by simp
  moreover have "0 \<le> a div k" using True \<open>1 \<le> k\<close> by (simp add: pos_imp_zdiv_nonneg_iff)
  ultimately show ?thesis by simp
next
  case False
  moreover assume "\<bar>a\<bar> \<le> b" "1 \<le> k"
  moreover have "a \<le> a div k" using zdiv_mono2_neg [of a 1 k] False \<open>1 \<le> k\<close> by simp
  moreover have "a div k \<le> 0" using False \<open>1 \<le> k\<close> by (simp add: div_nonpos_pos_le0)
  ultimately show ?thesis by simp
qed

text \<open>The parts of a date within a thousand times the years of the calendar are small numbers.\<close>

lemma civil_bounds:
  assumes "0 \<le> days" and "days < 10 ^ 7" and "civil_from_days days = (y, m, d)"
  shows "\<bar>y\<bar> < 10 ^ 12 \<and> \<bar>m\<bar> < 10 ^ 12 \<and> \<bar>d\<bar> < 10 ^ 12"
proof -
  define z where "z = days + 719468"
  define doe where "doe = z mod 146097"
  define yoe where "yoe = (doe - doe div 1460 + doe div 36524 - doe div 146096) div 365"
  define doy where "doy = doe - (365 * yoe + yoe div 4 - yoe div 100)"
  define mp where "mp = (5 * doy + 2) div 153"
  define mo where "mo = (if mp < 10 then mp + 3 else mp - 9)"
  have e: "y = yoe + z div 146097 * 400 + (if mo \<le> 2 then 1 else 0)" "m = mo" "d = doy - (153 * mp + 2) div 5 + 1"
    using assms(3) [unfolded civil_from_days_def Let_def, folded z_def, folded doe_def, folded yoe_def, folded doy_def, folded mp_def, folded mo_def]
    unfolding prod.inject by blast+
  have z: "\<bar>z\<bar> \<le> 11000000" using assms(1,2) by (simp add: z_def)
  have "0 \<le> doe" "doe < 146097" unfolding doe_def by simp_all
  then have doe: "\<bar>doe\<bar> \<le> 146097" by simp
  have "\<bar>doe - doe div 1460 + doe div 36524 - doe div 146096\<bar> \<le> 600000"
    using doe abs_div_le [OF doe, of 1460] abs_div_le [OF doe, of 36524] abs_div_le [OF doe, of 146096] by linarith
  then have yoe: "\<bar>yoe\<bar> \<le> 600000" unfolding yoe_def by (rule abs_div_le) simp
  have doy: "\<bar>doy\<bar> \<le> 250000000"
    unfolding doy_def using doe yoe abs_div_le [OF yoe, of 4] abs_div_le [OF yoe, of 100] by linarith
  then have "\<bar>5 * doy + 2\<bar> \<le> 1250000002" by linarith
  then have mp: "\<bar>mp\<bar> \<le> 1250000002" unfolding mp_def by (rule abs_div_le) simp
  then have "\<bar>153 * mp + 2\<bar> \<le> 192000000000" by linarith
  then have d: "\<bar>(153 * mp + 2) div 5\<bar> \<le> 192000000000" by (rule abs_div_le) simp
  have y: "\<bar>z div 146097\<bar> \<le> 11000000" by (rule abs_div_le [OF z]) simp
  define b where "b = (if mo \<le> 2 then 1 else 0 :: int)"
  have "0 \<le> b" "b \<le> 1" by (simp_all add: b_def)
  then have "\<bar>y\<bar> \<le> 10000000000" unfolding e(1) b_def [symmetric] using yoe y by linarith
  moreover have "mo \<le> mp + 3" "mp - 9 \<le> mo" by (simp_all add: mo_def)
  then have "\<bar>m\<bar> \<le> 10000000000" unfolding e(2) using mp by linarith
  moreover have "\<bar>d\<bar> \<le> 200000000000" unfolding e(3) using doy d by linarith
  ultimately show ?thesis by simp
qed


lemma FormatRFC3339_length:
  assumes "0 \<le> t" and "t < 253402300800 * Second"
  shows "length (FormatRFC3339 t) \<le> 92"
proof -
  define secs where "secs = t div Second"
  define rem where "rem = secs mod 86400"
  have secs: "0 \<le> secs" "secs < 253402300800"
    using assms by (simp_all add: secs_def Second_def pos_imp_zdiv_nonneg_iff)
  have days: "0 \<le> secs div 86400" "secs div 86400 < 10 ^ 7"
    using secs by (simp_all add: pos_imp_zdiv_nonneg_iff)
  obtain y m d where c: "civil_from_days (secs div 86400) = (y, m, d)" by (cases "civil_from_days (secs div 86400)") auto
  have ymd: "\<bar>y\<bar> < 10 ^ 12" "\<bar>m\<bar> < 10 ^ 12" "\<bar>d\<bar> < 10 ^ 12" using civil_bounds [OF days c] by auto
  have r: "0 \<le> rem" "rem < 86400" by (simp_all add: rem_def)
  then have "\<bar>rem\<bar> \<le> 86400" by simp
  then have hms: "\<bar>rem div 3600\<bar> < 10 ^ 12" "\<bar>rem div 60 mod 60\<bar> < 10 ^ 12" "\<bar>rem mod 60\<bar> < 10 ^ 12"
    using abs_div_le [of rem 86400 3600] pos_mod_bound [of 60 "rem div 60"] pos_mod_sign [of 60 "rem div 60"]
      pos_mod_bound [of 60 rem] pos_mod_sign [of 60 rem] by simp_all
  have p: "length (pad 4 v) \<le> 13" "length (pad 2 v) \<le> 13" if "\<bar>v\<bar> < 10 ^ 12" for v
    using pad_length [of v 11 4] pad_length [of v 11 2] that by simp_all
  have "FormatRFC3339 t = pad 4 y @ ''-'' @ pad 2 m @ ''-'' @ pad 2 d @ ''T'' @ pad 2 (rem div 3600) @ '':''
      @ pad 2 (rem div 60 mod 60) @ '':'' @ pad 2 (rem mod 60) @ ''Z''"
    using c by (simp add: FormatRFC3339_def Let_def secs_def rem_def)
  then show ?thesis
    using p(1) [OF ymd(1)] p(2) [OF ymd(2)] p(2) [OF ymd(3)] p(2) [OF hms(1)] p(2) [OF hms(2)] p(2) [OF hms(3)] by simp
qed

lemma Join_with_size: "length (Join_with [c] ms) \<le> (\<Sum>m \<leftarrow> ms. Suc (length m))"
  by (induction "[c]" ms rule: Join_with.induct) auto

lemma json_object_length: "length (json_object ms) \<le> 2 + (\<Sum>m \<leftarrow> ms. Suc (length m))"
  using Join_with_size [of "CHR '',''" ms] by (simp add: json_object_def)

lemma member_length:
  "(\<Sum>m \<leftarrow> json_member name v. Suc (length m)) \<le> 6 * length name + length v + 4"
  using json_quote_length [of name] by (simp add: json_member_def)

lemma member_quote_length:
  "(\<Sum>m \<leftarrow> json_member name (json_quote v). Suc (length m)) \<le> 6 * length name + 6 * length v + 6"
  using json_quote_length [of name] json_quote_length [of v] by (simp add: json_member_def)

lemma omitempty_length:
  "(\<Sum>m \<leftarrow> json_omitempty name v. Suc (length m)) \<le> 6 * length name + 6 * length v + 6"
  using member_quote_length [of name v] by (simp add: json_omitempty_def)

lemma marshalEvent_length:
  "length (marshalEvent e) \<le> 1400 + length (Itoa (ev_Version e)) + length (Itoa (ev_ProxyServerID e))
    + 6 * (length (ev_Kind e) + length (ev_EventID e) + length (ev_MachineID e) + length (ev_Hostname e) + length (ev_Issuer e)
      + length (ev_ObservedAt e) + length (ev_TLSCheckedAt e) + length (ev_TLSResult e) + length (ev_LeafSHA256 e)
      + length (ev_CertificateSPKISHA256 e) + length (ev_KeySPKISHA256 e) + length (ev_ReportID e)
      + length (ev_VerificationNonce e) + length (ev_ServedLeafSHA256 e))"
  unfolding marshalEvent_def
  apply (rule order_trans [OF json_object_length])
  using member_length [of "''version''" "Itoa (ev_Version e)"] member_length [of "''proxy_server_id''" "Itoa (ev_ProxyServerID e)"]
    member_quote_length [of "''kind''" "ev_Kind e"] member_quote_length [of "''event_id''" "ev_EventID e"]
    member_quote_length [of "''machine_id''" "ev_MachineID e"] member_quote_length [of "''hostname''" "ev_Hostname e"]
    member_quote_length [of "''issuer''" "ev_Issuer e"] member_quote_length [of "''observed_at''" "ev_ObservedAt e"]
    member_quote_length [of "''tls_checked_at''" "ev_TLSCheckedAt e"] member_quote_length [of "''tls_result''" "ev_TLSResult e"]
    omitempty_length [of "''leaf_sha256''" "ev_LeafSHA256 e"] omitempty_length [of "''cert_spki_sha256''" "ev_CertificateSPKISHA256 e"]
    omitempty_length [of "''key_spki_sha256''" "ev_KeySPKISHA256 e"] omitempty_length [of "''report_id''" "ev_ReportID e"]
    omitempty_length [of "''verification_nonce''" "ev_VerificationNonce e"]
    omitempty_length [of "''served_leaf_sha256''" "ev_ServedLeafSHA256 e"]
  by simp


text \<open>What the parts of an event are: a valid configuration and candidate, a result of the probe, a checked acceptance.\<close>

definition event_parts :: "reporterState \<Rightarrow> certificateWork \<Rightarrow> string \<Rightarrow> gotime \<Rightarrow> CertificateProbeResult \<Rightarrow> bool" where
  "event_parts s w eventID observed r \<longleftrightarrow> 0 < rs_cluster s \<and> rs_cluster s \<le> int_max \<and> lowerHex (rs_machine s) 14
     \<and> validCandidate (w_candidate w) \<and> validCertificateUUID eventID
     \<and> 0 \<le> observed \<and> observed < 253402300800 * Second \<and> 0 \<le> w_birth w \<and> w_birth w < 253402300800 * Second
     \<and> Result r \<in> {TLSAlert, CertificateInvalid, TLSValid} \<and> length (ServedLeafSHA256 r) \<le> 64
     \<and> (\<forall>a. w_acceptance w = Some a \<longrightarrow> validCertificateUUID (acc_ReportID a) \<and> validBearer (acc_VerificationNonce a))"

lemma bearer_length: "validBearer s \<Longrightarrow> length s \<le> 128"
proof -
  assume "validBearer s"
  then obtain b where b: "length b = 32" "s = RawURL_Encode b" by (auto simp: validBearer_iff)
  have "length (b64_groups bs) \<le> 4 * length bs" for bs by (induction bs rule: b64_groups.induct) auto
  from this [of "map byte b"] show ?thesis using b by (simp add: RawURL_Encode_def)
qed

lemma valid_lengths:
  "validHealthHostname h \<Longrightarrow> length h \<le> 253" "validHealthIssuer i \<Longrightarrow> length i \<le> 128"
  "lowerHex x n \<Longrightarrow> length x = n" "validCertificateUUID u \<Longrightarrow> length u = 36"
  by (auto simp: validHealthHostname_def validHealthIssuer_def lowerHex_def validCertificateUUID_def split: if_splits)

lemma Truncate_bounds: "0 \<le> t \<Longrightarrow> t < 253402300800 * Second \<Longrightarrow> 0 \<le> TruncateSecond t \<and> TruncateSecond t < 253402300800 * Second"
proof -
  assume "0 \<le> t" "t < 253402300800 * Second"
  moreover have "0 \<le> t mod Second" by (simp add: Second_def)
  moreover have "t mod Second \<le> t" using \<open>0 \<le> t\<close> by (intro zmod_le_nonneg_dividend)
  ultimately show ?thesis by (simp add: TruncateSecond_def)
qed

lemma makeEvent_length:
  assumes "event_parts s w eventID observed r"
  shows "length (marshalEvent (makeEvent s w eventID observed r)) \<le> 8192"
proof -
  let ?e = "makeEvent s w eventID observed r"
  note p = assms [unfolded event_parts_def validCandidate_def]
  have t: "length (ev_ObservedAt ?e) \<le> 92" "length (ev_TLSCheckedAt ?e) \<le> 92"
    using p FormatRFC3339_length Truncate_bounds [of "w_birth w"] by (auto simp: makeEvent_def Let_def)
  have acc: "length (ev_ReportID ?e) \<le> 36" "length (ev_VerificationNonce ?e) \<le> 128"
    using p bearer_length valid_lengths(4) by (auto simp: makeEvent_def Let_def split: option.split)
  have h: "length (ev_LeafSHA256 ?e) \<le> 64" "length (ev_CertificateSPKISHA256 ?e) \<le> 64" "length (ev_KeySPKISHA256 ?e) \<le> 64"
      "length (ev_ServedLeafSHA256 ?e) \<le> 64"
    using p valid_lengths(3) by (auto simp: makeEvent_def Let_def)
  have n: "length (ev_Kind ?e) \<le> 12" "length (ev_EventID ?e) \<le> 36" "length (ev_MachineID ?e) \<le> 14" "length (ev_Hostname ?e) \<le> 253"
      "length (ev_Issuer ?e) \<le> 128" "length (ev_TLSResult ?e) \<le> 19"
    using p valid_lengths by (auto simp: makeEvent_def Let_def tls_result_defs)
  have i: "length (Itoa (ev_Version ?e)) \<le> 20" "length (Itoa (ev_ProxyServerID ?e)) \<le> 20"
    using Itoa_length [of 1 18] Itoa_length [of "rs_cluster s" 18] p by (simp_all add: makeEvent_def Let_def int_max_def)
  define total where "total = length (ev_Kind ?e) + length (ev_EventID ?e) + length (ev_MachineID ?e) + length (ev_Hostname ?e) + length (ev_Issuer ?e)
      + length (ev_ObservedAt ?e) + length (ev_TLSCheckedAt ?e) + length (ev_TLSResult ?e) + length (ev_LeafSHA256 ?e)
      + length (ev_CertificateSPKISHA256 ?e) + length (ev_KeySPKISHA256 ?e) + length (ev_ReportID ?e)
      + length (ev_VerificationNonce ?e) + length (ev_ServedLeafSHA256 ?e)"
  have "total \<le> 1066" unfolding total_def using t acc h n by linarith
  moreover have "length (marshalEvent ?e) \<le> 1400 + length (Itoa (ev_Version ?e)) + length (Itoa (ev_ProxyServerID ?e)) + 6 * total"
    unfolding total_def by (rule marshalEvent_length)
  ultimately show ?thesis using i by linarith
qed


text \<open>
  C33. The text of an event made from valid parts, at a time before the year 10000, is never longer
  than the 8192 bytes that a delivery admits.
\<close>

theorem event_fits:
  assumes "event_parts s w eventID observed r"
  shows "length (marshalEvent (makeEvent s w eventID observed r)) \<le> 8192"
  by (rule makeEvent_length [OF assms])

definition ex_uuid :: string where "ex_uuid = ''00000000-0000-4000-8000-000000000000''"

definition ex_event :: certificateEvent where
  "ex_event = makeEvent ex_pool (newWork 0 ex_valid) ex_uuid 0 \<lparr>Result = TLSAlert, CheckedAt = 0, ServedLeafSHA256 = ''''\<rparr>"

lemma ex_parts: "event_parts ex_pool (newWork 0 ex_valid) ex_uuid 0 \<lparr>Result = TLSAlert, CheckedAt = 0, ServedLeafSHA256 = ''''\<rparr>"
proof -
  have "validCertificateUUID ex_uuid"
    by (simp add: ex_uuid_def validCertificateUUID_def lowerHex_def lower_hex_char_def is_digit_def in_range_def byte_def)
  moreover have "lowerHex ''00000000000000'' 14"
    by (simp add: lowerHex_def lower_hex_char_def is_digit_def in_range_def byte_def)
  ultimately show ?thesis
    using ex_valid_ok by (simp add: event_parts_def State_start_def newCertificateReporterState_def ex_config_def newWork_def int_max_def Second_def)
qed

theorem event_fits_witness: "length (marshalEvent ex_event) \<le> 8192"
  unfolding ex_event_def by (rule event_fits [OF ex_parts])

lemma ex_event_length: "length (marshalEvent ex_event) \<le> 8192"
  unfolding ex_event_def by (rule makeEvent_length [OF ex_parts])

definition ex_retry :: certificateWork where
  "ex_retry = (newWork 0 ex_valid)\<lparr>w_event := Some ex_event\<rparr>"

lemma ex_sent: "sendEvent (ex_answer TLSAlert HttpError) ex_event ex_pool ex_retry =
    (True, fail ex_pool, ex_retry\<lparr>w_attempts := 1, w_due := 1500000000\<rparr>)"
  using ex_event_length
  by (simp add: sendEvent_def deliver_def ex_answer_def Let_def ex_retry_def newWork_def certificateLifetime_def Second_def)

theorem retry_schedule_witness:
  "Second \<le> w_due (ex_retry\<lparr>w_attempts := 1, w_due := 1500000000\<rparr>) \<and> w_due (ex_retry\<lparr>w_attempts := 1, w_due := 1500000000\<rparr>) < 2 * Second"
  using retry_schedule [OF ex_sent] by (simp add: ex_retry_def newWork_def ex_answer_def)

end
