(* ===== verification/Duplicates.thy ===== *)
theory Duplicates
  imports Reporter
begin

section \<open>Duplicate candidates\<close>

text \<open>
  How long the queue of theory \<open>Reporter\<close> remembers a candidate: the entry in the dedupe map
  survives every operation of the pool until it expires, unless the map overflows.
\<close>

subsection \<open>Duplicates\<close>

text \<open>
  \<open>pool_run sha t0 t s n s'\<close>: any operations of callers and workers, at times from \<open>t0\<close> to \<open>t\<close>, that lead from
  \<open>s\<close> to \<open>s'\<close> and accept \<open>n\<close> candidates; only the clearing of the maps after the end is left out.
\<close>

inductive pool_run :: "(bytes \<Rightarrow> bytes) \<Rightarrow> gotime \<Rightarrow> gotime \<Rightarrow> reporterState \<Rightarrow> nat \<Rightarrow> reporterState \<Rightarrow> bool" for sha t0 t s where
  none: "pool_run sha t0 t s 0 s"
| offer: "pool_run sha t0 t s n s1 \<Longrightarrow> t0 \<le> now \<Longrightarrow> now \<le> t \<Longrightarrow> State_TryEnqueue sha locked now c s1 = (b, s2) \<Longrightarrow>
    pool_run sha t0 t s (if b then Suc n else n) s2"
| selected: "pool_run sha t0 t s n s1 \<Longrightarrow> now \<le> t \<Longrightarrow> takeWork now s1 = (r, s2) \<Longrightarrow> pool_run sha t0 t s n s2"
| processed: "pool_run sha t0 t s n s1 \<Longrightarrow> processWork E h s1 = (keep, s2) \<Longrightarrow> pool_run sha t0 t s n s2"
| released: "pool_run sha t0 t s n s1 \<Longrightarrow> pool_run sha t0 t s n (releaseWork keep now h s1)"
| received: "pool_run sha t0 t s n s1 \<Longrightarrow> pool_run sha t0 t s n (receiveWake s1)"
| ended: "pool_run sha t0 t s n s1 \<Longrightarrow> pool_run sha t0 t s n (State_cancel s1)"

text \<open>
  The entry of \<open>key\<close> expires at \<open>e0\<close>, and at most \<open>n\<close> other entries expire then or later.
\<close>

definition remembers :: "bytes \<Rightarrow> gotime \<Rightarrow> nat \<Rightarrow> (bytes \<times> gotime) list \<Rightarrow> bool" where
  "remembers key e0 n d \<longleftrightarrow> distinct (map fst d) \<and> length d \<le> certificateDedupeCapacity \<and> map_of d key = Some e0
     \<and> length (filter (\<lambda>(k, e). e0 \<le> e) d) \<le> Suc n"

lemma oldestKey_min:
  "e \<noteq> zeroTime \<Longrightarrow> \<forall>(k', e') \<in> set xs. zeroTime < e' \<Longrightarrow>
    \<exists>m. (oldestKey xs k e, m) \<in> insert (k, e) (set xs) \<and> (\<forall>(k', e') \<in> insert (k, e) (set xs). m \<le> e')"
proof (induction xs arbitrary: k e)
  case (Cons entry xs)
  obtain a b where x: "entry = (a, b)" by (cases entry)
  have b: "b \<noteq> zeroTime" using Cons.prems(2) x by auto
  show ?case
  proof (cases "b < e")
    case True
    from Cons.IH [OF b, of a] Cons.prems(2) x obtain m where "(oldestKey xs a b, m) \<in> insert (a, b) (set xs)"
      "\<forall>(k', e') \<in> insert (a, b) (set xs). m \<le> e'" by auto
    then show ?thesis using True x Cons.prems(1) by (intro exI [of _ m]) auto
  next
    case False
    from Cons.IH [OF Cons.prems(1), of k] Cons.prems(2) obtain m where "(oldestKey xs k e, m) \<in> insert (k, e) (set xs)"
      "\<forall>(k', e') \<in> insert (k, e) (set xs). m \<le> e'" by auto
    then show ?thesis using False x Cons.prems(1) by (intro exI [of _ m]) auto
  qed
qed simp

lemma oldestKey_earliest:
  assumes "xs \<noteq> []" and pos: "\<forall>(k, e) \<in> set xs. zeroTime < e"
  shows "\<exists>m. (oldestKey xs k0 zeroTime, m) \<in> set xs \<and> (\<forall>(k', e') \<in> set xs. m \<le> e')"
proof -
  obtain a b ys where xs: "xs = (a, b) # ys" using assms(1) by (cases xs) auto
  have "b \<noteq> zeroTime" "\<forall>(k', e') \<in> set ys. zeroTime < e'" using pos xs by auto
  from oldestKey_min [OF this, of a] xs show ?thesis by simp
qed

lemma remembers_prune:
  assumes "remembers key e0 n d" and "now < e0"
  shows "remembers key e0 n (filter (\<lambda>(k, e). now < e) d)"
proof -
  have "length (filter (\<lambda>(k, e). e0 \<le> e) (filter (\<lambda>(k, e). now < e) d)) \<le> length (filter (\<lambda>(k, e). e0 \<le> e) d)"
    by (induction d) auto
  with assms show ?thesis
    by (auto simp: remembers_def distinct_map_filter_fst kept_entry simp del: map_of_eq_Some_iff filter_filter intro: le_trans [OF length_filter_le])
qed

lemma later_delete: "length (filter P (AList.delete k d)) \<le> length (filter P d)"
  by (induction d) (auto simp: AList.delete_eq)

lemma later_update:
  "map_of d k = None \<Longrightarrow> length (filter P (AList.update k v d)) \<le> Suc (length (filter P d))"
  by (induction d) auto

text \<open>A further acceptance removes, if need be, an entry that expires before \<open>e0\<close>.\<close>

lemma remembers_admit:
  assumes rem: "remembers key e0 n d" and n: "Suc n < certificateDedupeCapacity" and pos: "\<forall>(k, e) \<in> set d. zeroTime < e"
    and new: "map_of d k = None"
  shows "remembers key e0 (Suc n) (AList.update k v
    (if length d \<ge> certificateDedupeCapacity then AList.delete (oldestKey d z zeroTime) d else d))" (is "remembers _ _ _ (AList.update k v ?d)")
proof -
  from rem have d: "distinct (map fst d)" "length d \<le> certificateDedupeCapacity" "map_of d key = Some e0"
    "length (filter (\<lambda>(k, e). e0 \<le> e) d) \<le> Suc n" by (simp_all add: remembers_def)
  have key: "key \<noteq> k" using d(3) new by auto
  have old: "oldestKey d z zeroTime \<noteq> key \<and> oldestKey d z zeroTime \<in> fst ` set d" if full: "length d \<ge> certificateDedupeCapacity"
  proof -
    have "d \<noteq> []" using full by (auto simp: certificateDedupeCapacity_def)
    from oldestKey_earliest [OF this pos, of z] obtain m where m: "(oldestKey d z zeroTime, m) \<in> set d" "\<forall>(k', e') \<in> set d. m \<le> e'" by blast
    have "m < e0"
    proof (rule ccontr)
      assume "\<not> m < e0"
      with m(2) have "filter (\<lambda>(k, e). e0 \<le> e) d = d" by (auto simp: filter_id_conv)
      with d(4) full n show False by simp
    qed
    moreover have "map_of d (oldestKey d z zeroTime) = Some m" using m(1) d(1) by simp
    moreover have "oldestKey d z zeroTime \<in> fst ` set d" using m(1) by (metis fst_conv image_eqI)
    ultimately show ?thesis using d(3) by auto
  qed
  have dd: "distinct (map fst ?d)" "map_of ?d key = Some e0" "map_of ?d k = None"
  proof -
    show "distinct (map fst ?d)" using d(1) by (simp add: distinct_delete)
    show "map_of ?d key = Some e0" using d(3) old by (auto simp: AList.delete_conv')
    show "map_of ?d k = None" using new by (simp add: AList.delete_conv')
  qed
  have len: "Suc (length ?d) \<le> certificateDedupeCapacity"
    using d(2) old length_alist_delete [OF d(1)] by (auto split: if_splits)
  have "length (filter (\<lambda>(k, e). e0 \<le> e) ?d) \<le> Suc n" using d(4) le_trans [OF later_delete d(4)] by simp
  then show ?thesis
    using dd len later_update [OF dd(3), of "\<lambda>(k, e). e0 \<le> e" v] key
    by (auto simp: remembers_def distinct_update length_alist_update AList.update_conv)
qed

lemma process_same_queue:
  assumes "process E s w = (keep, s', w')"
  shows "same_queue s s'"
proof -
  have send: "same_queue s s2" if "same_queue s s1" "sendEvent E e s1 w1 = (k, s2, w2)" for e s1 s2 w1 w2 k
    using sendEvent_frame [OF that(2)] same_queue_trans [OF that(1)] by blast
  show ?thesis
  proof (cases "pe_ExpiredAtStart E \<or> w_event w \<noteq> None")
    case True
    then show ?thesis using assms send [OF same_queue_simps(1)] by (auto simp: process_def split: if_splits option.splits)
  next
    case False
    then show ?thesis
      using assms prepare_frame [of E s w] send by (auto simp: process_def split: prepared.splits option.splits)
  qed
qed

lemma other_ops_dedupe:
  "processWork E h s = (keep, s') \<Longrightarrow> rs_dedupe s' = rs_dedupe s"
  "rs_dedupe (releaseWork keep now h s) = rs_dedupe s" "rs_dedupe (receiveWake s) = rs_dedupe s"
  "rs_dedupe (State_cancel s) = rs_dedupe s"
  "takeWork now s = (r, s') \<Longrightarrow> rs_dedupe s' = filter (\<lambda>(k, e). now < e) (rs_dedupe s)"
  by (auto simp: processWork_def releaseWork_def receiveWake_def State_cancel_def takeWork_def diagnose_def prune_def Let_def same_queue_def
      dest: process_same_queue split: option.splits if_splits prod.splits)

lemma accepted_dedupe:
  assumes "State_TryEnqueue sha locked now c s = (True, s')" and "distinct (map fst (rs_dedupe s))"
  defines "k \<equiv> sha (marshalCandidate (c\<lparr>CertificatePath := '''', KeyPath := ''''\<rparr>))" and "d \<equiv> filter (\<lambda>(k, e). now < e) (rs_dedupe s)"
  shows "rs_dedupe s' = AList.update k (now + 300 * Second)
      (if length d \<ge> certificateDedupeCapacity then AList.delete (oldestKey d (replicate 32 (CHR 0x00)) zeroTime) d else d)"
    and "map_of d k = None"
proof -
  from assms(1) have a: "s' = admit now k (c\<lparr>CertificatePath := '''', KeyPath := ''''\<rparr>) (prune now s)" "\<not> seenBefore now k (prune now s)"
    by (auto simp: State_TryEnqueue_def drop_candidate_def Let_def k_def split: if_splits)
  from a(1) show "rs_dedupe s' = AList.update k (now + 300 * Second)
      (if length d \<ge> certificateDedupeCapacity then AList.delete (oldestKey d (replicate 32 (CHR 0x00)) zeroTime) d else d)"
    by (simp add: admit_def Let_def prune_def d_def certificateLifetime_def)
  show "map_of d k = None"
  proof (cases "map_of d k")
    case (Some e)
    then have "now < e" unfolding d_def kept_entry [OF assms(2)] by simp
    then show ?thesis using a(2) Some by (simp add: seenBefore_def prune_def d_def)
  qed
qed

lemma refused_dedupe:
  "State_TryEnqueue sha locked now c s = (False, s') \<Longrightarrow>
    rs_dedupe s' = rs_dedupe s \<or> rs_dedupe s' = filter (\<lambda>(k, e). now < e) (rs_dedupe s)"
  by (auto simp: State_TryEnqueue_def drop_candidate_def Let_def prune_def split: if_splits)

lemma pool_run_remembers:
  assumes "pool_run sha t0 t s n s'" and "remembers key e0 0 (rs_dedupe s)" and "t < e0" and "zeroTime \<le> t0"
  shows "n < certificateDedupeCapacity \<Longrightarrow> remembers key e0 n (rs_dedupe s')"
  using assms(1)
proof induction
  case none
  show ?case by (rule assms(2))
next
  case (offer n s1 now locked c b s2)
  have now: "now < e0" using offer.hyps(3) assms(3) by simp
  show ?case
  proof (cases b)
    case False
    then have r: "remembers key e0 n (rs_dedupe s1)" using offer by simp
    have "State_TryEnqueue sha locked now c s1 = (False, s2)" using offer.hyps(4) False by simp
    from refused_dedupe [OF this] r remembers_prune [OF r now] False show ?thesis by auto
  next
    case True
    then have n: "Suc n < certificateDedupeCapacity" using offer.prems by simp
    then have r: "remembers key e0 n (rs_dedupe s1)" using offer.IH by simp
    have run: "State_TryEnqueue sha locked now c s1 = (True, s2)" using offer.hyps(4) True by simp
    have "distinct (map fst (rs_dedupe s1))" using r by (simp add: remembers_def)
    note a = accepted_dedupe [OF run this]
    have "\<forall>(k, e) \<in> set (filter (\<lambda>(k, e). now < e) (rs_dedupe s1)). zeroTime < e" using assms(4) offer.hyps(2) by auto
    from remembers_admit [OF remembers_prune [OF r now] n this a(2)] show ?thesis unfolding a(1) using True by simp
  qed
next
  case (selected n s1 now r s2)
  then show ?case using remembers_prune assms(3) by (simp add: other_ops_dedupe(5))
next
  case (processed n s1 E h keep s2)
  then show ?case by (simp add: other_ops_dedupe(1))
qed (simp_all add: other_ops_dedupe(2-4))

subsection \<open>Properties\<close>

text \<open>
  C29. Duplicates: after a candidate was accepted, the same candidate (whatever its storage paths)
  is refused for five minutes, whatever callers and workers do meanwhile and even when its work is
  done, as long as fewer than 1024 other candidates were accepted since; the thousand-and-twenty-fourth
  may push its entry out of the bounded map. The entries already in the map are taken to be older.
\<close>

theorem duplicate_refused:
  assumes "queue_ok s" and "zeroTime \<le> t0" and "\<forall>(k, e) \<in> set (rs_dedupe s). e < t0 + 300 * Second"
    and "State_TryEnqueue sha locked t0 c s = (True, s0)"
    and "pool_run sha t0 t s0 n s1" and "n < 1024" and "t < t0 + 300 * Second"
    and "c'\<lparr>CertificatePath := '''', KeyPath := ''''\<rparr> = c\<lparr>CertificatePath := '''', KeyPath := ''''\<rparr>"
  shows "\<not> fst (State_TryEnqueue sha locked' t c' s1)"
proof -
  let ?key = "sha (marshalCandidate (c\<lparr>CertificatePath := '''', KeyPath := ''''\<rparr>))" and ?e = "t0 + 300 * Second"
  let ?d = "filter (\<lambda>(k, e). t0 < e) (rs_dedupe s)"
  have q0: "queue_ok s0" by (rule State_TryEnqueue_ok [OF assms(1,4)])
  have dist: "distinct (map fst (rs_dedupe s))" using assms(1) by (simp add: queue_ok_def)
  note a = accepted_dedupe [OF assms(4) dist]
  have before: "filter (\<lambda>(k, e). ?e \<le> e) x = []" if "set x \<subseteq> set (rs_dedupe s)" for x
    using that assms(3) by (fastforce simp: filter_empty_conv)
  have old: "filter (\<lambda>(k, e). ?e \<le> e) (AList.delete z ?d) = []" "filter (\<lambda>(k, e). ?e \<le> e) ?d = []" for z
    by (rule before, force simp: AList.delete_eq)+
  have gone: "map_of (AList.delete z ?d) ?key = None" for z using a(2) by (simp add: AList.delete_conv' )
  have "length (filter (\<lambda>(k, e). ?e \<le> e) (rs_dedupe s0)) \<le> 1"
    unfolding a(1) using old later_update [OF a(2), of "\<lambda>(k, e). ?e \<le> e" ?e] later_update [OF gone, of "\<lambda>(k, e). ?e \<le> e" ?e]
    by (auto split: if_splits)
  moreover have "map_of (rs_dedupe s0) ?key = Some ?e" unfolding a(1) by (simp add: AList.update_conv)
  ultimately have "remembers ?key ?e 0 (rs_dedupe s0)" using q0 by (simp add: remembers_def queue_ok_def)
  from pool_run_remembers [OF assms(5) this assms(7,2)] assms(6) have "remembers ?key ?e n (rs_dedupe s1)"
    by (simp add: certificateDedupeCapacity_def)
  from remembers_prune [OF this assms(7)] have "map_of (rs_dedupe (prune t s1)) ?key = Some ?e" by (simp add: remembers_def prune_def)
  then have "seenBefore t ?key (prune t s1)" using assms(7) by (simp add: seenBefore_def)
  then show ?thesis unfolding State_TryEnqueue_def Let_def drop_candidate_def assms(8) by auto
qed

text \<open>The work of the first offer is finished and removed before the second.\<close>

theorem duplicate_refused_witness:
  "\<exists>s0 r s1. State_TryEnqueue (\<lambda>b. b) False 0 ex_valid ex_pool = (True, s0) \<and> takeWork 1 s0 = (r, s1)
     \<and> \<not> fst (State_TryEnqueue (\<lambda>b. b) False (299 * Second) (ex_valid\<lparr>KeyPath := ''other''\<rparr>) (releaseWork False 2 ''a.io'' s1))"
proof -
  have acc: "fst (State_TryEnqueue (\<lambda>b. b) False 0 ex_valid ex_pool)"
    using try_enqueue_iff [OF ex_pool_ok, where now = 0 and sha = "\<lambda>b. b" and c = ex_valid, OF _ refl] ex_valid_ok
    by (simp add: zeroTime_def Second_def State_start_def newCertificateReporterState_def)
  then obtain s0 where s0: "State_TryEnqueue (\<lambda>b. b) False 0 ex_valid ex_pool = (True, s0)"
    by (cases "State_TryEnqueue (\<lambda>b. b) False 0 ex_valid ex_pool") auto
  obtain r s1 where s1: "takeWork 1 s0 = (r, s1)" by fastforce
  have run: "pool_run (\<lambda>b. b) 0 (299 * Second) s0 0 (releaseWork False 2 ''a.io'' s1)"
    by (rule pool_run.released, rule pool_run.selected [OF pool_run.none _ s1]) (simp add: Second_def)
  have empty: "\<forall>(k, e) \<in> set (rs_dedupe ex_pool). e < 0 + 300 * Second"
    by (simp add: State_start_def newCertificateReporterState_def)
  have "\<not> fst (State_TryEnqueue (\<lambda>b. b) False (299 * Second) (ex_valid\<lparr>KeyPath := ''other''\<rparr>) (releaseWork False 2 ''a.io'' s1))"
    by (rule duplicate_refused [OF ex_pool_ok _ empty s0 run]) (simp_all add: Second_def zeroTime_def ex_valid_def)
  with s0 s1 show ?thesis by blast
qed

end
