(* ===== verification/Registry.thy ===== *)
theory Registry
  imports Reporter
begin

section \<open>The registry of reporters\<close>

text \<open>
  \<open>Start\<close>, \<open>Stop\<close>, \<open>Handle\<close>, \<open>Cleanup\<close>, \<open>TryEnqueue\<close> and \<open>Stats\<close> of \<open>CertificateReporter\<close>, over
  the package variable \<open>certificateReporters\<close>: configurations of one identity share a pool, which
  counts its holders, and only one pool runs at a time. A pool is named by its position in
  \<open>rg_pools\<close>. \<open>Stop\<close> gives up the mutex of the app before it takes the one of the registry, so
  its two halves are steps of their own.
\<close>

record app =
  app_config :: CertificateReporter
  app_state :: "nat option"
  app_released :: bool
  app_pending :: bool

record registry =
  rg_states :: "(bytes \<times> nat) list"
  rg_active :: "nat option"
  rg_pools :: "(reporterState \<times> int) list"
  rg_apps :: "app list"

definition on_pool :: "nat \<Rightarrow> (reporterState \<Rightarrow> reporterState) \<Rightarrow> registry \<Rightarrow> registry" where
  "on_pool p f g = g\<lparr>rg_pools := (rg_pools g)[p := (f (fst (rg_pools g ! p)), snd (rg_pools g ! p))]\<rparr>"

definition add_ref :: "nat \<Rightarrow> int \<Rightarrow> registry \<Rightarrow> registry" where
  "add_ref p n g = g\<lparr>rg_pools := (rg_pools g)[p := (fst (rg_pools g ! p), snd (rg_pools g ! p) + n)]\<rparr>"

definition set_app :: "nat \<Rightarrow> app \<Rightarrow> registry \<Rightarrow> registry" where
  "set_app i a g = g\<lparr>rg_apps := (rg_apps g)[i := a]\<rparr>"

definition new_app :: "CertificateReporter \<Rightarrow> app" where
  "new_app config = \<lparr>app_config = config, app_state = None, app_released = False, app_pending = False\<rparr>"

text \<open>The pool of an identity, made and, if no other is active, started.\<close>

definition findPool :: "bytes \<Rightarrow> CertificateReporter \<Rightarrow> bool \<Rightarrow> registry \<Rightarrow> nat \<times> registry" where
  "findPool key config logger g = (case map_of (rg_states g) key of Some p \<Rightarrow> (p, g)
    | None \<Rightarrow>
        let p = length (rg_pools g);
            g = g\<lparr>rg_pools := rg_pools g @ [(newCertificateReporterState config logger, 0)], rg_states := AList.update key p (rg_states g)\<rparr>
        in (p, if rg_active g = None then on_pool p State_start (g\<lparr>rg_active := Some p\<rparr>) else g))"

definition Start :: "(bytes \<Rightarrow> bytes) \<Rightarrow> bool \<Rightarrow> nat \<Rightarrow> registry \<Rightarrow> registry" where
  "Start sha logger i g =
     (let a = rg_apps g ! i in
      if app_released a \<or> app_state a \<noteq> None then g
      else case findPool (identity sha (app_config a)) (app_config a) logger g of
        (p, g) \<Rightarrow> set_app i (a\<lparr>app_state := Some p\<rparr>) (add_ref p 1 g))"

text \<open>The first half of \<open>Stop\<close>: the app is marked; a reference remains to be given back.\<close>

definition Stop_mark :: "nat \<Rightarrow> registry \<Rightarrow> registry" where
  "Stop_mark i g =
     (let a = rg_apps g ! i in
      if app_released a then g else set_app i (a\<lparr>app_released := True, app_pending := app_state a \<noteq> None\<rparr>) g)"

text \<open>\<open>stop\<close> of a pool: cancelled, its workers joined, its maps cleared.\<close>

definition stopPool :: "reporterState \<Rightarrow> reporterState" where
  "stopPool s = State_clear (State_cancel s)"

definition handOver :: "registry \<Rightarrow> registry" where
  "handOver g = (case rg_states g of [] \<Rightarrow> g\<lparr>rg_active := None\<rparr>
     | (k, q) # _ \<Rightarrow> on_pool q State_start (g\<lparr>rg_active := Some q\<rparr>))"

definition Stop_release :: "(bytes \<Rightarrow> bytes) \<Rightarrow> nat \<Rightarrow> registry \<Rightarrow> registry" where
  "Stop_release sha i g =
     (let a = rg_apps g ! i in
      case app_state a of None \<Rightarrow> g
      | Some p \<Rightarrow>
          let g = add_ref p (- 1) (set_app i (a\<lparr>app_pending := False\<rparr>) g) in
          if snd (rg_pools g ! p) = 0
          then let g = on_pool p stopPool (g\<lparr>rg_states := AList.delete (identity sha (app_config a)) (rg_states g)\<rparr>)
               in if rg_active g = Some p then handOver g else g
          else g)"

text \<open>The whole of \<open>Stop\<close>, and its callers \<open>Handle\<close> and \<open>Cleanup\<close>.\<close>

definition Stop :: "(bytes \<Rightarrow> bytes) \<Rightarrow> nat \<Rightarrow> registry \<Rightarrow> registry" where
  "Stop sha i g = (if app_released (rg_apps g ! i) then g
     else let g = Stop_mark i g in if app_state (rg_apps g ! i) = None then g else Stop_release sha i g)"

definition Handle :: "(bytes \<Rightarrow> bytes) \<Rightarrow> nat \<Rightarrow> bool \<Rightarrow> string \<Rightarrow> registry \<Rightarrow> registry" where
  "Handle sha i hasOrigin name g = (if hasOrigin then g else if name = ''stopping'' then Stop sha i g else g)"

definition Reporter_Cleanup :: "(bytes \<Rightarrow> bytes) \<Rightarrow> nat \<Rightarrow> registry \<Rightarrow> registry" where
  "Reporter_Cleanup sha i g = Stop sha i g"

text \<open>\<open>TryEnqueue\<close> and \<open>Stats\<close> go to the pool of the app.\<close>

definition Reporter_TryEnqueue :: "(bytes \<Rightarrow> bytes) \<Rightarrow> nat \<Rightarrow> bool \<Rightarrow> gotime \<Rightarrow> MismatchCandidate \<Rightarrow> registry \<Rightarrow> bool \<times> registry" where
  "Reporter_TryEnqueue sha i locked now c g = (case app_state (rg_apps g ! i) of None \<Rightarrow> (False, g)
    | Some p \<Rightarrow> (case State_TryEnqueue sha locked now c (fst (rg_pools g ! p)) of (b, s) \<Rightarrow> (b, on_pool p (\<lambda>_. s) g)))"

definition Stats :: "nat \<Rightarrow> nat \<Rightarrow> registry \<Rightarrow> CertificateReporterStats" where
  "Stats i workers g = (case app_state (rg_apps g ! i) of
      Some p \<Rightarrow> snapshot workers (fst (rg_pools g ! p))
    | None \<Rightarrow> \<lparr>st_Active = 0, st_Dedupe = 0, st_Workers = 0, st_Dropped = 0, st_Delivered = 0, st_Accepted = 0, st_Failures = 0\<rparr>)"

text \<open>Any number of apps come, start, and stop, in any interleaving.\<close>

inductive registry_step :: "(bytes \<Rightarrow> bytes) \<Rightarrow> registry \<Rightarrow> registry \<Rightarrow> bool" for sha where
  provision: "registry_step sha g (g\<lparr>rg_apps := rg_apps g @ [new_app config]\<rparr>)"
| start: "i < length (rg_apps g) \<Longrightarrow> registry_step sha g (Start sha logger i g)"
| mark: "i < length (rg_apps g) \<Longrightarrow> registry_step sha g (Stop_mark i g)"
| release: "i < length (rg_apps g) \<Longrightarrow> app_pending (rg_apps g ! i) \<Longrightarrow> registry_step sha g (Stop_release sha i g)"
| enqueue: "i < length (rg_apps g) \<Longrightarrow> registry_step sha g (snd (Reporter_TryEnqueue sha i locked now c g))"

definition empty_registry :: registry where
  "empty_registry = \<lparr>rg_states = [], rg_active = None, rg_pools = [], rg_apps = []\<rparr>"

subsection \<open>Invariant\<close>

definition holds_ref :: "nat \<Rightarrow> app \<Rightarrow> bool" where
  "holds_ref p a \<longleftrightarrow> app_state a = Some p \<and> (\<not> app_released a \<or> app_pending a)"

definition running :: "reporterState \<Rightarrow> bool" where
  "running s \<longleftrightarrow> rs_started s \<and> \<not> rs_cancelled s"

definition refs_ok :: "registry \<Rightarrow> bool" where
  "refs_ok g \<longleftrightarrow> (\<forall>p < length (rg_pools g). snd (rg_pools g ! p) = int (length (filter (holds_ref p) (rg_apps g))))
     \<and> (\<forall>p < length (rg_pools g). p \<in> snd ` set (rg_states g) \<longleftrightarrow> filter (holds_ref p) (rg_apps g) \<noteq> [])"

definition apps_ok :: "(bytes \<Rightarrow> bytes) \<Rightarrow> registry \<Rightarrow> bool" where
  "apps_ok sha g \<longleftrightarrow> (\<forall>a \<in> set (rg_apps g). (app_pending a \<longrightarrow> app_released a \<and> app_state a \<noteq> None)
     \<and> (\<forall>p. app_state a = Some p \<longrightarrow> p < length (rg_pools g))
     \<and> (\<forall>p. holds_ref p a \<longrightarrow> (identity sha (app_config a), p) \<in> set (rg_states g)))"

definition pools_ok :: "registry \<Rightarrow> bool" where
  "pools_ok g \<longleftrightarrow> distinct (map fst (rg_states g)) \<and> distinct (map snd (rg_states g))
     \<and> (\<forall>p \<in> snd ` set (rg_states g). p < length (rg_pools g) \<and> \<not> rs_cancelled (fst (rg_pools g ! p)))
     \<and> (rg_active g = None \<longleftrightarrow> rg_states g = []) \<and> (\<forall>p. rg_active g = Some p \<longrightarrow> p \<in> snd ` set (rg_states g))
     \<and> (\<forall>p < length (rg_pools g). running (fst (rg_pools g ! p)) \<longleftrightarrow> rg_active g = Some p)"

definition registry_ok :: "(bytes \<Rightarrow> bytes) \<Rightarrow> registry \<Rightarrow> bool" where
  "registry_ok sha g \<longleftrightarrow> refs_ok g \<and> apps_ok sha g \<and> pools_ok g"


lemma count_update:
  "i < length xs \<Longrightarrow> length (filter P (xs[i := x])) + (if P (xs ! i) then 1 else 0) = length (filter P xs) + (if P x then 1 else 0)"
proof (induction xs arbitrary: i)
  case (Cons y ys)
  then show ?case by (cases i) auto
qed simp

lemma refs_count: "length (filter (holds_ref p) (rg_apps (set_app i a g))) + (if holds_ref p (rg_apps g ! i) then 1 else 0) =
    length (filter (holds_ref p) (rg_apps g)) + (if holds_ref p a then 1 else 0)" if "i < length (rg_apps g)"
  using count_update [OF that] by (simp add: set_app_def)

lemma registry_simps [simp]:
  "rg_apps (on_pool p f g) = rg_apps g" "rg_states (on_pool p f g) = rg_states g" "rg_active (on_pool p f g) = rg_active g"
  "rg_apps (add_ref p n g) = rg_apps g" "rg_states (add_ref p n g) = rg_states g" "rg_active (add_ref p n g) = rg_active g"
  "rg_states (set_app i a g) = rg_states g" "rg_active (set_app i a g) = rg_active g" "rg_pools (set_app i a g) = rg_pools g"
  "length (rg_pools (on_pool p f g)) = length (rg_pools g)" "length (rg_pools (add_ref p n g)) = length (rg_pools g)"
  "length (rg_apps (set_app i a g)) = length (rg_apps g)"
  by (simp_all add: on_pool_def add_ref_def set_app_def)

lemma on_pool_nth: "q < length (rg_pools g) \<Longrightarrow> rg_pools (on_pool p f g) ! q =
    (if q = p then (f (fst (rg_pools g ! p)), snd (rg_pools g ! p)) else rg_pools g ! q)"
  by (simp add: on_pool_def nth_list_update)

lemma add_ref_nth: "q < length (rg_pools g) \<Longrightarrow> rg_pools (add_ref p n g) ! q =
    (if q = p then (fst (rg_pools g ! p), snd (rg_pools g ! p) + n) else rg_pools g ! q)"
  by (simp add: add_ref_def nth_list_update)

lemma filter_set_app:
  assumes "i < length (rg_apps g)" and "holds_ref p a = holds_ref p (rg_apps g ! i)"
  shows "length (filter (holds_ref p) (rg_apps (set_app i a g))) = length (filter (holds_ref p) (rg_apps g))"
  using refs_count [OF assms(1), of p a] assms(2) by (simp split: if_splits)

lemma length_pos: "(xs \<noteq> []) = (0 < length xs)"
  by simp

lemma apps_set: "i < length (rg_apps g) \<Longrightarrow> b \<in> set (rg_apps (set_app i a g)) \<Longrightarrow> b = a \<or> b \<in> set (rg_apps g)"
  using set_update_subset_insert [of "rg_apps g" i a] by (auto simp: set_app_def)

text \<open>Changing an app without changing what it holds.\<close>

lemma mark_ok:
  assumes "registry_ok sha g" and "i < length (rg_apps g)"
  shows "registry_ok sha (Stop_mark i g)"
proof (cases "app_released (rg_apps g ! i)")
  case True
  then show ?thesis using assms by (simp add: Stop_mark_def)
next
  case False
  define a where "a = (rg_apps g ! i)\<lparr>app_released := True, app_pending := app_state (rg_apps g ! i) \<noteq> None\<rparr>"
  have m: "Stop_mark i g = set_app i a g" using False by (simp add: Stop_mark_def a_def Let_def)
  have same: "holds_ref p a = holds_ref p (rg_apps g ! i)" for p using False by (auto simp: a_def holds_ref_def)
  have old: "rg_apps g ! i \<in> set (rg_apps g)" using assms(2) by simp
  have "refs_ok (set_app i a g)"
    using assms(1) filter_set_app [OF assms(2) same] by (simp add: registry_ok_def refs_ok_def length_pos del: length_greater_0_conv)
  moreover have "apps_ok sha (set_app i a g)"
    unfolding apps_ok_def
  proof
    fix b
    assume "b \<in> set (rg_apps (set_app i a g))"
    then consider "b = a" | "b \<in> set (rg_apps g)" using apps_set [OF assms(2)] by blast
    then show "(app_pending b \<longrightarrow> app_released b \<and> app_state b \<noteq> None)
        \<and> (\<forall>p. app_state b = Some p \<longrightarrow> p < length (rg_pools (set_app i a g)))
        \<and> (\<forall>p. holds_ref p b \<longrightarrow> (identity sha (app_config b), p) \<in> set (rg_states (set_app i a g)))"
    proof cases
      case 1
      then show ?thesis using assms(1) old same by (simp add: registry_ok_def apps_ok_def) (simp add: a_def)
    next
      case 2
      then show ?thesis using assms(1) by (simp add: registry_ok_def apps_ok_def)
    qed
  qed
  moreover have "pools_ok (set_app i a g)" using assms(1) by (simp add: registry_ok_def pools_ok_def)
  ultimately show ?thesis by (simp add: registry_ok_def m)
qed

lemma on_pool_ok:
  assumes "registry_ok sha g" and "p < length (rg_pools g)"
    and "rs_started (f (fst (rg_pools g ! p))) = rs_started (fst (rg_pools g ! p))"
    and "rs_cancelled (f (fst (rg_pools g ! p))) = rs_cancelled (fst (rg_pools g ! p))"
  shows "registry_ok sha (on_pool p f g)"
proof -
  have "snd (rg_pools (on_pool p f g) ! q) = snd (rg_pools g ! q)" "rs_cancelled (fst (rg_pools (on_pool p f g) ! q)) = rs_cancelled (fst (rg_pools g ! q))"
    "running (fst (rg_pools (on_pool p f g) ! q)) = running (fst (rg_pools g ! q))" if "q < length (rg_pools g)" for q
    using assms(3,4) that by (simp_all add: on_pool_nth running_def)
  then show ?thesis using assms(1) by (simp add: registry_ok_def refs_ok_def apps_ok_def pools_ok_def)
qed

lemma TryEnqueue_flags: "State_TryEnqueue sha locked now c s = (b, s') \<Longrightarrow> rs_started s' = rs_started s \<and> rs_cancelled s' = rs_cancelled s"
  by (auto simp: State_TryEnqueue_def drop_candidate_def admit_def prune_def Let_def split: if_splits)

lemma enqueue_ok:
  assumes "registry_ok sha g" and "i < length (rg_apps g)"
  shows "registry_ok sha (snd (Reporter_TryEnqueue sha i locked now c g))"
proof (cases "app_state (rg_apps g ! i)")
  case None
  then show ?thesis using assms by (simp add: Reporter_TryEnqueue_def)
next
  case (Some p)
  moreover have "p < length (rg_pools g)" using assms Some nth_mem by (fastforce simp: registry_ok_def apps_ok_def)
  moreover obtain b s where "State_TryEnqueue sha locked now c (fst (rg_pools g ! p)) = (b, s)" by fastforce
  ultimately show ?thesis
    using on_pool_ok [OF assms(1), of p "\<lambda>_. s"] TryEnqueue_flags by (simp add: Reporter_TryEnqueue_def)
qed

lemma provision_ok: "registry_ok sha g \<Longrightarrow> registry_ok sha (g\<lparr>rg_apps := rg_apps g @ [new_app config]\<rparr>)"
  by (simp add: registry_ok_def refs_ok_def apps_ok_def pools_ok_def holds_ref_def new_app_def)


text \<open>An app that takes a reference to a registered pool.\<close>

lemma take_ref_ok:
  assumes refs: "\<And>q. q < length (rg_pools g) \<Longrightarrow> snd (rg_pools g ! q) = int (length (filter (holds_ref q) (rg_apps g)))"
    and reg: "\<And>q. q < length (rg_pools g) \<Longrightarrow> q \<noteq> p \<Longrightarrow> q \<in> snd ` set (rg_states g) \<longleftrightarrow> filter (holds_ref q) (rg_apps g) \<noteq> []"
    and apps: "apps_ok sha g" and pools: "pools_ok g"
    and i: "i < length (rg_apps g)" and a: "a = rg_apps g ! i" "\<not> app_released a" "app_state a = None"
    and p: "(identity sha (app_config a), p) \<in> set (rg_states g)"
  shows "registry_ok sha (set_app i (a\<lparr>app_state := Some p\<rparr>) (add_ref p 1 g))"
proof -
  let ?a = "a\<lparr>app_state := Some p\<rparr>" and ?g = "set_app i (a\<lparr>app_state := Some p\<rparr>) (add_ref p 1 g)"
  have reg_p: "p \<in> snd ` set (rg_states g)" using p by force
  then have pl: "p < length (rg_pools g)" using pools by (auto simp: pools_ok_def)
  have cnt: "length (filter (holds_ref q) (rg_apps ?g)) = length (filter (holds_ref q) (rg_apps g)) + (if q = p then 1 else 0)" for q
    using refs_count [of i "add_ref p 1 g" q ?a] i a by (auto simp: holds_ref_def split: if_splits)
  have "refs_ok ?g"
    unfolding refs_ok_def
  proof (intro conjI allI impI)
    fix q
    assume "q < length (rg_pools ?g)"
    then have q: "q < length (rg_pools g)" by simp
    show "snd (rg_pools ?g ! q) = int (length (filter (holds_ref q) (rg_apps ?g)))"
      using refs [OF q] cnt [of q] q by (cases "q = p") (simp_all add: add_ref_nth)
    show "q \<in> snd ` set (rg_states ?g) \<longleftrightarrow> filter (holds_ref q) (rg_apps ?g) \<noteq> []"
      using reg [OF q] cnt [of q] reg_p by (cases "q = p") (auto simp: length_pos simp del: length_greater_0_conv)
  qed
  moreover have "apps_ok sha ?g"
    unfolding apps_ok_def
  proof
    fix b
    assume "b \<in> set (rg_apps ?g)"
    then consider "b = ?a" | "b \<in> set (rg_apps g)" using apps_set [of i "add_ref p 1 g"] i by auto
    then show "(app_pending b \<longrightarrow> app_released b \<and> app_state b \<noteq> None) \<and> (\<forall>p. app_state b = Some p \<longrightarrow> p < length (rg_pools ?g))
        \<and> (\<forall>p. holds_ref p b \<longrightarrow> (identity sha (app_config b), p) \<in> set (rg_states ?g))"
    proof cases
      case 1
      moreover have "a \<in> set (rg_apps g)" using a(1) i by simp
      then have "app_pending a \<longrightarrow> app_released a" using apps by (simp add: apps_ok_def)
      ultimately show ?thesis using p pl a by (auto simp: holds_ref_def)
    next
      case 2
      then show ?thesis using apps by (simp add: apps_ok_def)
    qed
  qed
  moreover have "fst (rg_pools ?g ! q) = fst (rg_pools g ! q)" if "q < length (rg_pools g)" for q
    using that by (simp add: add_ref_nth)
  then have "pools_ok ?g" using pools by (simp add: pools_ok_def)
  ultimately show ?thesis by (simp add: registry_ok_def)
qed

lemma update_absent: "map_of xs k = None \<Longrightarrow> AList.update k v xs = xs @ [(k, v)]"
  by (induction xs) (auto split: if_splits)

text \<open>The registry with a new pool, before anything refers to it.\<close>

lemma newPool_registry:
  assumes "registry_ok sha g" and "map_of (rg_states g) key = None"
  defines "p \<equiv> length (rg_pools g)"
  shows "findPool key config logger g = (p, snd (findPool key config logger g))" (is "_ = (p, ?g)")
    and "apps_ok sha (snd (findPool key config logger g))" and "pools_ok (snd (findPool key config logger g))"
    and "rg_apps (snd (findPool key config logger g)) = rg_apps g"
    and "rg_states (snd (findPool key config logger g)) = rg_states g @ [(key, p)]"
    and "length (rg_pools (snd (findPool key config logger g))) = Suc p"
    and "q < Suc p \<Longrightarrow> snd (rg_pools (snd (findPool key config logger g)) ! q) = (if q = p then 0 else snd (rg_pools g ! q))"
proof -
  let ?new = "newCertificateReporterState config logger"
  show 1: "findPool key config logger g = (p, ?g)" using assms(2) by (simp add: findPool_def Let_def p_def)
  show apps: "rg_apps ?g = rg_apps g" and states: "rg_states ?g = rg_states g @ [(key, p)]" and len: "length (rg_pools ?g) = Suc p"
    using assms(2) by (simp_all add: findPool_def Let_def p_def update_absent)
  have act: "rg_active ?g = (case rg_active g of None \<Rightarrow> Some p | Some q \<Rightarrow> Some q)"
    using assms(2) by (auto simp: findPool_def Let_def p_def split: option.split)
  have pool: "rg_pools ?g ! q = (if q = p then (if rg_active g = None then State_start ?new else ?new, 0) else rg_pools g ! q)" if "q < Suc p" for q
    using that assms(2) by (auto simp: findPool_def Let_def p_def on_pool_def nth_append nth_list_update)
  then show "q < Suc p \<Longrightarrow> snd (rg_pools ?g ! q) = (if q = p then 0 else snd (rg_pools g ! q))" by simp
  from assms(1) have ok: "apps_ok sha g" "pools_ok g" by (simp_all add: registry_ok_def)
  show "apps_ok sha ?g" using ok(1) unfolding apps_ok_def apps states len by (fastforce simp: p_def)
  have run: "running (State_start ?new)" "\<not> running ?new" "\<not> rs_cancelled ?new" "\<not> rs_cancelled (State_start ?new)"
    by (simp_all add: running_def State_start_def newCertificateReporterState_def)
  have key: "key \<notin> fst ` set (rg_states g)" using assms(2) by (simp add: map_of_eq_None_iff)
  have lt: "q \<in> snd ` set (rg_states g) \<Longrightarrow> q < p" for q using ok(2) by (auto simp: pools_ok_def p_def)
  then have fresh: "p \<notin> snd ` set (rg_states g)" by blast
  then have na: "rg_active g \<noteq> Some p" using ok(2) by (auto simp: pools_ok_def)
  show "pools_ok ?g"
    unfolding pools_ok_def
  proof (intro conjI)
    show "distinct (map fst (rg_states ?g))" "distinct (map snd (rg_states ?g))"
      using ok(2) key fresh by (simp_all add: states pools_ok_def)
    show "\<forall>q \<in> snd ` set (rg_states ?g). q < length (rg_pools ?g) \<and> \<not> rs_cancelled (fst (rg_pools ?g ! q))"
    proof
      fix q
      assume "q \<in> snd ` set (rg_states ?g)"
      then consider "q = p" | "q \<in> snd ` set (rg_states g)" "q < p" using lt by (auto simp: states)
      then show "q < length (rg_pools ?g) \<and> \<not> rs_cancelled (fst (rg_pools ?g ! q))"
        using ok(2) run len pool [of q] by cases (auto simp: pools_ok_def)
    qed
    show "rg_active ?g = None \<longleftrightarrow> rg_states ?g = []" by (simp add: act states split: option.split)
    show "\<forall>q. rg_active ?g = Some q \<longrightarrow> q \<in> snd ` set (rg_states ?g)"
      using ok(2) by (auto simp: act states pools_ok_def split: option.splits)
    show "\<forall>q < length (rg_pools ?g). running (fst (rg_pools ?g ! q)) \<longleftrightarrow> rg_active ?g = Some q"
    proof (intro allI impI)
      fix q
      assume "q < length (rg_pools ?g)"
      then consider "q = p" | "q < p" using len by linarith
      then show "running (fst (rg_pools ?g ! q)) \<longleftrightarrow> rg_active ?g = Some q"
      proof cases
        case 1
        then show ?thesis using pool [of q] run na by (auto simp: act split: option.split)
      next
        case 2
        then show ?thesis using pool [of q] ok(2) by (auto simp: act pools_ok_def p_def split: option.split)
      qed
    qed
  qed
qed


lemma start_ok:
  assumes "registry_ok sha g" and "i < length (rg_apps g)"
  shows "registry_ok sha (Start sha logger i g)"
proof (cases "app_released (rg_apps g ! i) \<or> app_state (rg_apps g ! i) \<noteq> None")
  case True
  then show ?thesis using assms by (auto simp: Start_def Let_def)
next
  case False
  define a where "a = rg_apps g ! i"
  let ?key = "identity sha (app_config a)"
  note parts = assms(1) [unfolded registry_ok_def]
  show ?thesis
  proof (cases "map_of (rg_states g) ?key")
    case (Some p)
    have "registry_ok sha (set_app i (a\<lparr>app_state := Some p\<rparr>) (add_ref p 1 g))"
      by (rule take_ref_ok) (use parts assms(2) False Some in \<open>auto simp: refs_ok_def a_def dest: map_of_SomeD\<close>)
    then show ?thesis using False Some by (simp add: Start_def findPool_def Let_def a_def)
  next
    case None
    define p where "p = length (rg_pools g)"
    define g1 where "g1 = snd (findPool ?key (app_config a) logger g)"
    note new = newPool_registry [where config = "app_config a" and logger = logger, OF assms(1) None, folded p_def g1_def]
    have none: "filter (holds_ref p) (rg_apps g) = []"
      using parts by (auto simp: filter_empty_conv apps_ok_def holds_ref_def p_def)
    have refs: "snd (rg_pools g1 ! q) = int (length (filter (holds_ref q) (rg_apps g1)))" if "q < length (rg_pools g1)" for q
      using that parts new(7) [of q] none by (auto simp: new(4,6) refs_ok_def p_def)
    have reg: "q \<in> snd ` set (rg_states g1) \<longleftrightarrow> filter (holds_ref q) (rg_apps g1) \<noteq> []" if "q < length (rg_pools g1)" "q \<noteq> p" for q
    proof -
      have "q < length (rg_pools g)" using that by (simp add: new(6) p_def)
      then have "q \<in> snd ` set (rg_states g) \<longleftrightarrow> filter (holds_ref q) (rg_apps g) \<noteq> []" using parts unfolding refs_ok_def by blast
      then show ?thesis using that(2) by (simp add: new(4,5))
    qed
    have "registry_ok sha (set_app i (a\<lparr>app_state := Some p\<rparr>) (add_ref p 1 g1))"
      by (rule take_ref_ok [OF refs reg new(2,3)])
         (use assms(2) False in \<open>simp_all add: new(4,5) a_def\<close>)
    then show ?thesis using False new(1) by (simp add: Start_def a_def Let_def)
  qed
qed


text \<open>The last holder of a pool: the pool leaves the registry and stops, and another may take over.\<close>

lemma delete_state:
  assumes "distinct (map fst xs)" and "distinct (map snd xs)" and "(key, p) \<in> set xs"
  shows "set (AList.delete key xs) = set xs - {(key, p)}" and "snd ` set (AList.delete key xs) = snd ` set xs - {p}"
proof -
  have uniq: "q = p" if "(key, q) \<in> set xs" for q using assms(1,3) that by (metis eq_key_imp_eq_value)
  have inj: "k = key" if "(k, p) \<in> set xs" for k
    using assms(2,3) that by (metis distinct_map inj_onD prod.inject snd_conv)
  show "set (AList.delete key xs) = set xs - {(key, p)}" using uniq by (auto simp: AList.delete_eq)
  then show "snd ` set (AList.delete key xs) = snd ` set xs - {p}"
  proof -
    assume e: "set (AList.delete key xs) = set xs - {(key, p)}"
    have "q \<in> snd ` (set xs - {(key, p)}) \<longleftrightarrow> q \<in> snd ` set xs \<and> q \<noteq> p" for q
    proof
      assume "q \<in> snd ` (set xs - {(key, p)})"
      then obtain x where x: "x \<in> set xs" "x \<noteq> (key, p)" "q = snd x" by blast
      then show "q \<in> snd ` set xs \<and> q \<noteq> p" using inj [of "fst x"] by (cases x) auto
    next
      assume "q \<in> snd ` set xs \<and> q \<noteq> p"
      then show "q \<in> snd ` (set xs - {(key, p)})" by force
    qed
    then show ?thesis unfolding e by blast
  qed
qed

lemma on_pool_snd [simp]: "snd (rg_pools (on_pool p f g) ! q) = snd (rg_pools g ! q)"
  by (cases "p < length (rg_pools g)") (auto simp: on_pool_def nth_list_update list_update_beyond)

lemma on_pool_fst: "q < length (rg_pools g) \<Longrightarrow> fst (rg_pools (on_pool p f g) ! q) = (if q = p then f (fst (rg_pools g ! p)) else fst (rg_pools g ! q))"
  by (simp add: on_pool_nth)

lemma retire_pools:
  assumes "pools_ok g" and "(key, p) \<in> set (rg_states g)"
  defines "g1 \<equiv> on_pool p stopPool (g\<lparr>rg_states := AList.delete key (rg_states g)\<rparr>)"
  assumes del: "snd ` set (rg_states g1) = snd ` set (rg_states g) - {p}"
  shows "pools_ok (if rg_active g1 = Some p then handOver g1 else g1)"
proof -
  note ok = assms(1) [unfolded pools_ok_def]
  have st: "rg_states g1 = AList.delete key (rg_states g)" "rg_active g1 = rg_active g" "length (rg_pools g1) = length (rg_pools g)"
    by (simp_all add: g1_def on_pool_def)
  have d: "distinct (map fst (rg_states g1))" "distinct (map snd (rg_states g1))"
    using ok by (simp_all add: st AList.delete_eq distinct_map_filter_fst distinct_map_filter)
  have fp: "fst (rg_pools g1 ! q) = (if q = p then stopPool (fst (rg_pools g ! p)) else fst (rg_pools g ! q))" if "q < length (rg_pools g)" for q
    using that by (simp add: g1_def on_pool_fst)
  have stopped: "\<not> running (stopPool s)" "rs_cancelled (stopPool s)" for s
    by (simp_all add: running_def stopPool_def State_cancel_def State_clear_def)
  have live: "q < length (rg_pools g)" "\<not> rs_cancelled (fst (rg_pools g1 ! q))" "q \<noteq> p" if "q \<in> snd ` set (rg_states g1)" for q
    using that ok by (auto simp: del fp)
  have run: "running (fst (rg_pools g1 ! q)) \<longleftrightarrow> rg_active g = Some q \<and> q \<noteq> p" if "q < length (rg_pools g)" for q
    using that ok stopped by (auto simp: fp)
  show ?thesis
  proof (cases "rg_active g1 = Some p")
    case False
    then obtain q where q: "rg_active g = Some q" "q \<noteq> p" "q \<in> snd ` set (rg_states g1)"
      using ok assms(2) by (cases "rg_active g") (auto simp: del st(2))
    then have "rg_states g1 \<noteq> []" by auto
    then show ?thesis using False q d live run by (auto simp: pools_ok_def st(2,3))
  next
    case True
    then have act: "rg_active g = Some p" by (simp add: st(2))
    show ?thesis
    proof (cases "rg_states g1")
      case Nil
      then have "handOver g1 = g1\<lparr>rg_active := None\<rparr>" by (simp add: handOver_def)
      then show ?thesis using True Nil run act by (simp add: pools_ok_def st(3))
    next
      case (Cons x xs)
      obtain k q where x: "x = (k, q)" by fastforce
      then have q: "q \<in> snd ` set (rg_states g1)" using Cons by force
      define h where "h = on_pool q State_start (g1\<lparr>rg_active := Some q\<rparr>)"
      have h: "handOver g1 = h" using Cons x by (simp add: handOver_def h_def)
      have hf: "fst (rg_pools h ! r) = (if r = q then State_start (fst (rg_pools g1 ! q)) else fst (rg_pools g1 ! r))" if "r < length (rg_pools g)" for r
        using that st(3) by (simp add: h_def on_pool_fst)
      have "running (State_start (fst (rg_pools g1 ! q)))" "\<not> rs_cancelled (State_start (fst (rg_pools g1 ! q)))"
        using live(2) [OF q] by (auto simp: running_def State_start_def)
      moreover have "rg_states h = rg_states g1" "rg_active h = Some q" "length (rg_pools h) = length (rg_pools g)"
        by (simp_all add: h_def st(3))
      ultimately have "pools_ok h"
        unfolding pools_ok_def using d live run act q Cons hf by auto
      then show ?thesis using True h by simp
    qed
  qed
qed

lemma retire_ok:
  assumes apps: "apps_ok sha g" and pools: "pools_ok g" and p: "(key, p) \<in> set (rg_states g)"
    and refs: "\<And>q. q < length (rg_pools g) \<Longrightarrow> snd (rg_pools g ! q) = int (length (filter (holds_ref q) (rg_apps g)))"
    and reg: "\<And>q. q < length (rg_pools g) \<Longrightarrow> q \<noteq> p \<Longrightarrow> q \<in> snd ` set (rg_states g) \<longleftrightarrow> filter (holds_ref q) (rg_apps g) \<noteq> []"
    and none: "filter (holds_ref p) (rg_apps g) = []"
  defines "g1 \<equiv> on_pool p stopPool (g\<lparr>rg_states := AList.delete key (rg_states g)\<rparr>)"
  shows "registry_ok sha (if rg_active g1 = Some p then handOver g1 else g1)"
proof -
  define h where "h = (if rg_active g1 = Some p then handOver g1 else g1)"
  from pools have d: "distinct (map fst (rg_states g))" "distinct (map snd (rg_states g))" by (simp_all add: pools_ok_def)
  note del = delete_state [OF d p]
  have st: "rg_states g1 = AList.delete key (rg_states g)" "rg_apps g1 = rg_apps g" "rg_active g1 = rg_active g"
      "length (rg_pools g1) = length (rg_pools g)"
    by (simp_all add: g1_def on_pool_def)
  have hs: "rg_states h = rg_states g1" "rg_apps h = rg_apps g1" "length (rg_pools h) = length (rg_pools g)"
    using st(4) by (auto simp: h_def handOver_def split: list.split)
  have hp: "snd (rg_pools h ! q) = snd (rg_pools g ! q)" for q
    by (simp add: h_def handOver_def g1_def split: list.split)
  have pl: "p < length (rg_pools g)" using pools p by (force simp: pools_ok_def)
  have "refs_ok h"
    unfolding refs_ok_def hs st using refs reg none hp by (auto simp: del(2))
  moreover have "apps_ok sha h"
    unfolding apps_ok_def hs st
  proof
    fix b
    assume b: "b \<in> set (rg_apps g)"
    have "holds_ref q b \<longrightarrow> (identity sha (app_config b), q) \<in> set (AList.delete key (rg_states g))" for q
      using apps b none by (auto simp: apps_ok_def del(1) filter_empty_conv)
    then show "(app_pending b \<longrightarrow> app_released b \<and> app_state b \<noteq> None) \<and> (\<forall>p. app_state b = Some p \<longrightarrow> p < length (rg_pools g))
        \<and> (\<forall>q. holds_ref q b \<longrightarrow> (identity sha (app_config b), q) \<in> set (AList.delete key (rg_states g)))"
      using apps b by (simp add: apps_ok_def)
  qed
  moreover have "pools_ok h"
    unfolding h_def
  proof (rule retire_pools [OF pools p, folded g1_def])
    show "snd ` set (rg_states g1) = snd ` set (rg_states g) - {p}" by (simp add: st del(2))
  qed
  ultimately show ?thesis by (simp add: registry_ok_def h_def)
qed


text \<open>An app that gives its reference back, while others keep the pool.\<close>

lemma release_state:
  assumes "registry_ok sha g" and "i < length (rg_apps g)" and "app_pending (rg_apps g ! i)"
  defines "a \<equiv> rg_apps g ! i"
  obtains p where "app_state a = Some p" "(identity sha (app_config a), p) \<in> set (rg_states g)" "p < length (rg_pools g)" "holds_ref p a"
proof -
  have "a \<in> set (rg_apps g)" using assms(2) by (simp add: a_def)
  with assms obtain p where "app_state a = Some p" "app_released a" "app_pending a"
    by (auto simp: registry_ok_def apps_ok_def a_def)
  with \<open>a \<in> set (rg_apps g)\<close> assms(1) show thesis
    by (intro that [of p]) (auto simp: registry_ok_def apps_ok_def holds_ref_def)
qed

lemma release_ok:
  assumes "registry_ok sha g" and "i < length (rg_apps g)" and "app_pending (rg_apps g ! i)"
  shows "registry_ok sha (Stop_release sha i g)"
proof -
  define a where "a = rg_apps g ! i"
  let ?key = "identity sha (app_config a)" and ?a = "a\<lparr>app_pending := False\<rparr>"
  obtain p where p: "app_state a = Some p" "(?key, p) \<in> set (rg_states g)" "p < length (rg_pools g)" "holds_ref p a"
    using release_state [OF assms] unfolding a_def by blast
  note parts = assms(1) [unfolded registry_ok_def]
  have am: "a \<in> set (rg_apps g)" using assms(2) by (simp add: a_def)
  have rel: "app_released a" using parts am assms(3) by (auto simp: apps_ok_def a_def)
  define g1 where "g1 = add_ref p (- 1) (set_app i ?a g)"
  have cnt: "length (filter (holds_ref q) (rg_apps g1)) = length (filter (holds_ref q) (rg_apps g)) - (if q = p then 1 else 0)"
    and pos: "filter (holds_ref p) (rg_apps g) \<noteq> []" for q
  proof -
    show pos: "filter (holds_ref p) (rg_apps g) \<noteq> []" using am p(4) by (auto simp: filter_empty_conv)
    show "length (filter (holds_ref q) (rg_apps g1)) = length (filter (holds_ref q) (rg_apps g)) - (if q = p then 1 else 0)"
      using refs_count [OF assms(2), of q ?a] p(1,4) rel by (auto simp: g1_def a_def [symmetric] holds_ref_def split: if_splits)
  qed
  have refs: "snd (rg_pools g1 ! q) = int (length (filter (holds_ref q) (rg_apps g1)))" if "q < length (rg_pools g)" for q
    using that parts cnt [of q] pos by (cases "q = p") (auto simp: g1_def add_ref_nth refs_ok_def length_pos simp del: length_greater_0_conv)
  have apps: "apps_ok sha g1"
    unfolding apps_ok_def
  proof
    fix b
    assume "b \<in> set (rg_apps g1)"
    then consider "b = ?a" | "b \<in> set (rg_apps g)" using apps_set [OF assms(2)] by (auto simp: g1_def)
    then show "(app_pending b \<longrightarrow> app_released b \<and> app_state b \<noteq> None) \<and> (\<forall>p. app_state b = Some p \<longrightarrow> p < length (rg_pools g1))
        \<and> (\<forall>p. holds_ref p b \<longrightarrow> (identity sha (app_config b), p) \<in> set (rg_states g1))"
    proof cases
      case 1
      then show ?thesis using p rel by (simp add: g1_def holds_ref_def)
    next
      case 2
      then show ?thesis using parts by (simp add: apps_ok_def g1_def)
    qed
  qed
  have fsts: "fst (rg_pools g1 ! q) = fst (rg_pools g ! q)" if "q < length (rg_pools g)" for q
    using that by (simp add: g1_def add_ref_nth)
  then have pools: "pools_ok g1" using parts by (simp add: pools_ok_def g1_def)
  show ?thesis
  proof (cases "filter (holds_ref p) (rg_apps g1) = []")
    case False
    have "refs_ok g1"
      unfolding refs_ok_def
    proof (intro conjI allI impI)
      fix q
      assume "q < length (rg_pools g1)"
      then have q: "q < length (rg_pools g)" by (simp add: g1_def)
      show "snd (rg_pools g1 ! q) = int (length (filter (holds_ref q) (rg_apps g1)))" by (rule refs [OF q])
      show "q \<in> snd ` set (rg_states g1) \<longleftrightarrow> filter (holds_ref q) (rg_apps g1) \<noteq> []"
        using parts q cnt [of q] False p(2) by (cases "q = p") (force simp: refs_ok_def g1_def length_pos simp del: length_greater_0_conv)+
    qed
    moreover have "snd (rg_pools g1 ! p) \<noteq> 0" using refs [OF p(3)] False by simp
    then have "Stop_release sha i g = g1"
      using p(1) by (simp add: Stop_release_def Let_def g1_def a_def)
    ultimately show ?thesis using apps pools by (simp add: registry_ok_def)
  next
    case True
    have reg: "q \<in> snd ` set (rg_states g1) \<longleftrightarrow> filter (holds_ref q) (rg_apps g1) \<noteq> []" if "q < length (rg_pools g1)" "q \<noteq> p" for q
      using parts that cnt [of q] by (simp add: refs_ok_def g1_def length_pos del: length_greater_0_conv)
    have "snd (rg_pools g1 ! p) = 0" using refs [OF p(3)] True by simp
    then have "Stop_release sha i g = (let g2 = on_pool p stopPool (g1\<lparr>rg_states := AList.delete ?key (rg_states g1)\<rparr>)
        in if rg_active g2 = Some p then handOver g2 else g2)"
      using p(1) by (simp add: Stop_release_def Let_def g1_def a_def)
    moreover have "(?key, p) \<in> set (rg_states g1)" using p(2) by (simp add: g1_def)
    moreover have "length (rg_pools g1) = length (rg_pools g)" by (simp add: g1_def)
    ultimately show ?thesis using retire_ok [OF apps pools _ refs reg True] by (simp add: Let_def)
  qed
qed

lemma registry_step_ok: "registry_step sha g g' \<Longrightarrow> registry_ok sha g \<Longrightarrow> registry_ok sha g'"
  by (induction rule: registry_step.induct) (auto intro: provision_ok start_ok mark_ok release_ok enqueue_ok)

lemma empty_registry_ok: "registry_ok sha empty_registry"
  by (simp add: registry_ok_def refs_ok_def apps_ok_def pools_ok_def empty_registry_def)

lemma registry_steps_ok: "(registry_step sha)\<^sup>*\<^sup>* g g' \<Longrightarrow> registry_ok sha g \<Longrightarrow> registry_ok sha g'"
  by (induction rule: rtranclp_induct) (auto intro: registry_step_ok)


subsection \<open>Properties\<close>

text \<open>
  C36. However apps are provisioned, started and stopped, at most one pool runs; one runs exactly
  as long as some app that was started has not given its reference back; such an app's pool is
  registered under its identity, is not cancelled, and counts exactly its holders.
\<close>

theorem registry_one_pool:
  assumes "(registry_step sha)\<^sup>*\<^sup>* empty_registry g"
  shows "(\<forall>p < length (rg_pools g). \<forall>q < length (rg_pools g).
      running (fst (rg_pools g ! p)) \<longrightarrow> running (fst (rg_pools g ! q)) \<longrightarrow> p = q)
    \<and> ((\<exists>p < length (rg_pools g). running (fst (rg_pools g ! p))) \<longleftrightarrow> (\<exists>a \<in> set (rg_apps g). \<exists>p. holds_ref p a))
    \<and> (\<forall>a \<in> set (rg_apps g). \<forall>p. holds_ref p a \<longrightarrow> p < length (rg_pools g)
        \<and> map_of (rg_states g) (identity sha (app_config a)) = Some p \<and> \<not> rs_cancelled (fst (rg_pools g ! p))
        \<and> snd (rg_pools g ! p) = int (length (filter (holds_ref p) (rg_apps g))))"
proof -
  have ok: "refs_ok g" "apps_ok sha g" "pools_ok g"
    using registry_steps_ok [OF assms empty_registry_ok] by (simp_all add: registry_ok_def)
  have act: "running (fst (rg_pools g ! p)) \<longleftrightarrow> rg_active g = Some p" if "p < length (rg_pools g)" for p
    using ok(3) that by (simp add: pools_ok_def)
  have held: "p < length (rg_pools g) \<and> map_of (rg_states g) (identity sha (app_config a)) = Some p
      \<and> \<not> rs_cancelled (fst (rg_pools g ! p)) \<and> snd (rg_pools g ! p) = int (length (filter (holds_ref p) (rg_apps g)))"
    if "a \<in> set (rg_apps g)" "holds_ref p a" for a p
  proof -
    have m: "(identity sha (app_config a), p) \<in> set (rg_states g)" using ok(2) that by (simp add: apps_ok_def)
    then have "p < length (rg_pools g)" "\<not> rs_cancelled (fst (rg_pools g ! p))" using ok(3) by (force simp: pools_ok_def)+
    moreover have "map_of (rg_states g) (identity sha (app_config a)) = Some p"
      using m ok(3) by (simp add: pools_ok_def map_of_is_SomeI)
    ultimately show ?thesis using ok(1) by (simp add: refs_ok_def)
  qed
  have "(\<exists>p < length (rg_pools g). running (fst (rg_pools g ! p))) \<longleftrightarrow> rg_states g \<noteq> []"
    using ok(3) act by (fastforce simp: pools_ok_def)
  also have "\<dots> \<longleftrightarrow> (\<exists>a \<in> set (rg_apps g). \<exists>p. holds_ref p a)"
  proof
    assume "rg_states g \<noteq> []"
    then obtain p where p: "p \<in> snd ` set (rg_states g)" by (cases "rg_states g") auto
    then have "p < length (rg_pools g)" using ok(3) unfolding pools_ok_def by blast
    with p ok(1) have "filter (holds_ref p) (rg_apps g) \<noteq> []" by (simp add: refs_ok_def)
    then show "\<exists>a \<in> set (rg_apps g). \<exists>p. holds_ref p a" by (auto simp: filter_empty_conv)
  next
    assume "\<exists>a \<in> set (rg_apps g). \<exists>p. holds_ref p a"
    then show "rg_states g \<noteq> []" using held by force
  qed
  finally show ?thesis using act held by auto
qed

definition ex_registry :: registry where
  "ex_registry = empty_registry\<lparr>rg_apps := [new_app ex_config]\<rparr>"

lemma ex_registry_reach: "(registry_step sha)\<^sup>*\<^sup>* empty_registry (Start sha False 0 ex_registry)"
proof -
  have "registry_step sha empty_registry (empty_registry\<lparr>rg_apps := rg_apps empty_registry @ [new_app ex_config]\<rparr>)" by (rule registry_step.provision)
  then have "registry_step sha empty_registry ex_registry" by (simp add: ex_registry_def empty_registry_def)
  moreover have "registry_step sha ex_registry (Start sha False 0 ex_registry)"
    by (rule registry_step.start) (simp add: ex_registry_def empty_registry_def)
  ultimately show ?thesis by (meson rtranclp.rtrancl_into_rtrancl r_into_rtranclp)
qed

theorem registry_one_pool_witness:
  "\<exists>p < length (rg_pools (Start (\<lambda>b. b) False 0 ex_registry)). running (fst (rg_pools (Start (\<lambda>b. b) False 0 ex_registry) ! p))"
proof -
  have "\<exists>a \<in> set (rg_apps (Start (\<lambda>b. b) False 0 ex_registry)). \<exists>p. holds_ref p a"
    by (auto simp: Start_def ex_registry_def empty_registry_def new_app_def findPool_def Let_def holds_ref_def
        set_app_def add_ref_def on_pool_def)
  then show ?thesis using registry_one_pool [OF ex_registry_reach, of "\<lambda>b. b"] by blast
qed

end
