(* ===== verification/Spec2Isabelle.thy ===== *)
theory Spec2Isabelle
  imports Repair_Command Lock_Safety Caddyfile Handshake Delivery Duplicates Registry
begin

text \<open>
  This library models the Caddy storage module for Redis and its certificate health reporter, all of
  the Go sources of the repository: \<open>src/storage.go\<close>, \<open>caddyfile.go\<close>, \<open>reconnect.go\<close>, \<open>crypto.go\<close>,
  \<open>compression.go\<close>, \<open>certificate_observer.go\<close>, \<open>handshake_context.go\<close>, \<open>certificate_probe.go\<close> and
  \<open>certificate_reporter.go\<close>.

  \<^bold>\<open>The program.\<close> Caddy stores certificates, keys and locks in Redis. A value is compressed,
  encrypted, wrapped with its time and size and set under a prefixed key; a sorted set per directory
  lists the directory's entries, so that keys can be listed without scanning the server. A reload of
  Caddy closes the client of the old configuration while operations on it may still run; these are
  retried once on a client of their own. Beside the storage, an observer looks at the files a TLS
  handshake loads; a certificate that does not fit its key becomes a candidate, which a probe of the
  local listener confirms and a reporter queues, probes again and delivers to an intake endpoint.

  \<^bold>\<open>Programs and states.\<close> Stateful code is a \<open>prog\<close>: a function from the state to \<open>None\<close> (it does not
  return) or to an outcome (a result, an error or a panic) and the next state. \<open>proc\<close> is the
  process: its reconnect counters and the world outside. Go errors keep their text and the sentinels
  \<open>errors.Is\<close> finds in them. Loops that may not end are \<open>partial_function\<close>s, so that ending is part
  of what is proved; the other loops are recursion over lists. Goroutines are steps of inductive
  relations. Counters are 64-bit words, times are integers of nanoseconds, byte slices and strings
  are lists of characters with values below 256.

  \<^bold>\<open>Theories.\<close>
  \<^item> \<open>Prelude\<close>, \<open>Go_Strings\<close>, \<open>Go_Path\<close>, \<open>Go_Net\<close>, \<open>Go_Codec\<close>: programs and their combinators, and what the
    sources use of Go's library (\<open>strings\<close>, \<open>strconv\<close>, \<open>path\<close>, \<open>net\<close>, \<open>encoding/json\<close>, base64, hex,
    RFC 3339 times). \<open>canon\<close> are the paths \<open>path.Join\<close> leaves unchanged; on them \<open>pjoin\<close> is injective.
  \<^item> \<open>Redis\<close>: the operations of go-redis as the record \<open>redis_api\<close> and the documented behaviour of client
    and server as the locales \<open>redis_server\<close> and \<open>redis_scan\<close>, with an in-memory server that satisfies both.
  \<^item> \<open>Config\<close>, \<open>Caddyfile\<close>: the struct \<open>RedisStorage\<close>, its JSON forms, \<open>buildClient\<close>, and
    \<open>UnmarshalCaddyfile\<close>, \<open>Provision\<close>, \<open>finalizeConfiguration\<close>: reading a block ends, and a provisioned
    storage has a canonical prefix, keys of 32 bytes, valid settings and an open client.
  \<^item> \<open>Reconnect\<close>: \<open>withReconnectOnClosed\<close>; an operation runs twice at most, on a client that is counted and
    closed.
  \<^item> \<open>Crypto\<close>, \<open>Compress\<close>: AES-GCM with fallback keys and the compressors with the limit on reading, over
    parameters with the laws \<open>gcm_laws\<close> and \<open>codec_laws\<close>.
  \<^item> \<open>Dir_Index\<close>: keys and the sorted sets; \<open>index_of F\<close> says that the sets list exactly the files \<open>F\<close>, which
    storing and deleting a record keep.
  \<^item> \<open>Storage\<close>, \<open>Storage_Spec\<close>, \<open>Listing\<close>, \<open>Refinement\<close>: the operations; the locale \<open>kv_store\<close> is the contract
    of a map, and \<open>storage_instance\<close>, one configured storage over a server with a key prefix of at least
    one segment, is shown to satisfy it. \<open>Listing\<close> also says what the empty prefix does.
    \<open>Example\<close> interprets it with concrete codecs and the in-memory server.
  \<^item> \<open>Repairing\<close>, \<open>Repair_Command\<close>: \<open>Repair\<close> rebuilds lost records and removes stale ones, and the command.
  \<^item> \<open>Lock\<close>, \<open>Lock_Safety\<close>: locks over redislock as the locale \<open>lock_service\<close>, with their time to live, the
    refresh goroutine round by round, and any number of instances with the passing of time as a
    transition system: at most one holds a key, as long as its refreshes are answered.
  \<^item> \<open>Health\<close>, \<open>Observer\<close>, \<open>Handshake\<close>: validation, fingerprints and the observer, and \<open>Load\<close> with it. The
    locale \<open>mismatch_sink\<close> is the contract of everything that takes candidates.
  \<^item> \<open>Probe\<close>: the probe and the \<open>ConfirmingSink\<close> with its goroutines; a \<open>mismatch_sink\<close>.
  \<^item> \<open>Acceptance\<close>, \<open>Reporter\<close>, \<open>Delivery\<close>, \<open>Duplicates\<close>, \<open>Registry\<close>: the answers of the endpoint, the queue (a
    \<open>mismatch_sink\<close>) with its workers, probing, events and retries, how long a candidate is remembered,
    and the pools of the process with their reference counts.

  This theory holds the properties that span these parts: the storage as a map through its whole
  interface, the retry after a reload, and the path from a stored mismatch to the reporter's queue.

  \<^bold>\<open>Parameters.\<close> Code that is not in the sources is an argument: the Redis client and server, the lock
  client, AES-GCM, the compressors, the JSON form of a stored value, Caddy's dispenser, replacer,
  module loader and events, the parsers of X.509, PEM and ASN.1, the TLS dial, the HTTP client, the
  clock and the random source. What the properties rely on are the named laws and locales above,
  which state what the documentation of that code says; each is interpreted on a concrete instance.
  Whether go-redis returns a nil slice for an empty string is the field \<open>api_NilBytes\<close>; both cases are
  covered.

  \<^bold>\<open>Bounds.\<close> No fuel is used. The recursion of \<open>List\<close> and of \<open>Repair\<close> is shown to end because every
  step down lengthens a path that has a set; the iteration of \<open>SCAN\<close> because the keyspace stays among the
  keys there were and the directories above the stored values.

  \<^bold>\<open>What the properties found.\<close> Load and Stat on a closed client answer that the key does not exist where
  the library pairs errors with nil slices; a compressible value above the limit of the decompressor can
  be stored and not loaded; \<open>Repair\<close> leaves the record of a directory that it has emptied; one failed
  refresh of a lock lets it expire before the retry, and a second instance can take it; with the empty
  key prefix \<open>List\<close> of the root finds no key.

  \<^bold>\<open>Not modelled.\<close> The registration of the modules with Caddy (\<open>init\<close>, \<open>CaddyModule\<close>, \<open>CertMagicStorage\<close>,
  \<open>GetClient\<close>) and the assertions that types implement interfaces: they have no behaviour of their
  own. The texts written to the log. Cancelling a Go context appears as the error of the call it ends.
  \<open>List\<close> returns the keys collected so far next to an error; the model keeps the error only. The
  observer gets the slice that \<open>Load\<close> returns and only reads it; the model gives it the value.
  The commands of one operation are atomic and follow each other without another client's commands in
  between, except where locks and goroutines are concerned.
\<close>

section \<open>The storage as a map\<close>

definition ex_ops :: "(string list, time \<times> bytes \<times> bytes) kvop list" where
  "ex_ops = [Put [''certs'', ''a''] (7, ex_nonce, ''aaaaaaaab''), Put [''certs'', ''b''] (8, ex_nonce, ''x''),
     Del [''certs'', ''a''], Put [''c''] (9, ex_nonce, ''y'')]"

lemma ex_start: "cs \<noteq> CDown \<Longrightarrow> (nb \<longrightarrow> cs = COpen) \<Longrightarrow>
   readable_with mem_up mem_closed mem_reachable (sys (mem_deps nb ks)) ex_rs (ex_proc cs Map.empty)
   \<and> db_rel (mem_deps nb ks) ex_rs [''caddy''] {} {} (mem_db (world (ex_proc cs Map.empty))) Map.empty"
  using ex_usable [of cs nb ks Map.empty] db_rel_empty
  by (auto simp: readable_with_def ex_proc_def ex_rs_def mem_up_def mem_status_def mem_api_def)

lemma ex_ops_ok: "ops_ok (fits_in [''caddy''] {} {}) (storable_as (mem_deps nb ks) ex_rs) (\<lambda>(now, nonce, v). v) ex_ops Map.empty"
  by (auto simp: ex_ops_def fits_in_def files_def seg_ok_def strict_prefix_def intro!: ex_storable)
     (simp_all add: ex_rs_def New_def ex_key_def ex_nonce_def NonceSize_def maxDecompressedBytes_def int_min_def int_max_def)

lemma ex_stored_example: "storable_as (mem_deps nb ks) ex_rs k (7, ex_nonce, ''aaaaaaa'')"
  by (rule ex_storable)
     (simp_all add: ex_rs_def New_def ex_key_def ex_nonce_def NonceSize_def maxDecompressedBytes_def int_min_def int_max_def)

text \<open>
  C1. Refinement: for a storage with a key prefix of at least one segment, any sequence of \<open>Store\<close>
  and \<open>Delete\<close> calls on keys that fit (no key is a directory above or below another) runs through without an error, also when the client was
  closed meanwhile, and leaves the keyspace, index included, in the state that represents the map
  obtained by the same updates.
\<close>

theorem storage_refines_map:
  assumes "storage_instance R view up closed reach D rs pre X L"
    and "readable_with up closed reach (sys D) rs s \<and> db_rel D rs pre X L (view (world s)) m"
    and "ops_ok (fits_in pre X L) (storable_as D rs) (\<lambda>(now, nonce, v). v) ops m"
  shows "\<exists>s'. run_ops (put_key D rs) (\<lambda>k. Delete D rs (pjoin k)) ops s = Some (Ok (), s')
    \<and> readable_with up closed reach (sys D) rs s'
    \<and> db_rel D rs pre X L (view (world s')) (fold (abs_op (\<lambda>(now, nonce, v). v)) ops m)"
  using storage_instance.ops_refine [OF assms] .

theorem storage_refines_map_witness:
  "\<exists>s'. run_ops (put_key (mem_deps False []) ex_rs) (\<lambda>k. Delete (mem_deps False []) ex_rs (pjoin k)) ex_ops
      (ex_proc CClosed Map.empty) = Some (Ok (), s')
    \<and> readable_with mem_up mem_closed mem_reachable (sys (mem_deps False [])) ex_rs s'
    \<and> db_rel (mem_deps False []) ex_rs [''caddy''] {} {} (mem_db (world s'))
        (fold (abs_op (\<lambda>(now, nonce, v). v)) ex_ops Map.empty)"
  by (rule storage_refines_map [OF ex.storage_instance_axioms ex_start ex_ops_ok]) simp_all

text \<open>
  C2. Round trip: after any such sequence, \<open>Load\<close> returns the value of the last \<open>Store\<close> of
  its key, decrypted and decompressed.
\<close>

theorem load_returns_last_store:
  assumes "storage_instance R view up closed reach D rs pre X L"
    and "readable_with up closed reach (sys D) rs s \<and> db_rel D rs pre X L (view (world s)) m"
    and "ops_ok (fits_in pre X L) (storable_as D rs) (\<lambda>(now, nonce, v). v) ops m"
    and "fold (abs_op (\<lambda>(now, nonce, v). v)) ops m k = Some v"
  shows "\<exists>s' s''. run_ops (put_key D rs) (\<lambda>k. Delete D rs (pjoin k)) ops s = Some (Ok (), s')
    \<and> Load D rs None (pjoin k) s' = Some (Ok v, s'')"
  using storage_instance.ops_then_load [OF assms] .

theorem load_returns_last_store_witness:
  "\<exists>s' s''. run_ops (put_key (mem_deps False []) ex_rs) (\<lambda>k. Delete (mem_deps False []) ex_rs (pjoin k)) ex_ops
      (ex_proc CClosed Map.empty) = Some (Ok (), s')
    \<and> Load (mem_deps False []) ex_rs None (pjoin [''certs'', ''b'']) s' = Some (Ok ''x'', s'')"
  by (rule load_returns_last_store [OF ex.storage_instance_axioms ex_start ex_ops_ok]) (simp_all add: ex_ops_def)

text \<open>
  C3. For a key prefix with at least one segment, as the default one has, and after any such sequence
  of \<open>Store\<close> and \<open>Delete\<close> calls, recursive \<open>List\<close> from the root terminates and returns exactly the
  stored keys, each once. With the empty prefix it does not (\<open>list_misses_keys_without_prefix\<close>).
\<close>

theorem list_returns_stored_keys:
  assumes "storage_instance R view up closed reach D rs pre X L" and "KeyPrefix rs = pjoin pre" and "pre \<noteq> []"
    and "readable_with up closed reach (sys D) rs s \<and> db_rel D rs pre X L (view (world s)) m"
    and "ops_ok (fits_in pre X L) (storable_as D rs) (\<lambda>(now, nonce, v). v) ops m"
  shows "\<exists>s' ks s''. run_ops (put_key D rs) (\<lambda>k. Delete D rs (pjoin k)) ops s = Some (Ok (), s')
    \<and> List_keys D rs (pjoin []) True s' = Some (Ok ks, s'') \<and> distinct ks
    \<and> set ks = pjoin ` dom (fold (abs_op (\<lambda>(now, nonce, v). v)) ops m)"
  using storage_instance.ops_then_list [OF assms(1,4,5)] .

theorem list_returns_stored_keys_witness:
  "\<exists>s' ks s''. run_ops (put_key (mem_deps True []) ex_rs) (\<lambda>k. Delete (mem_deps True []) ex_rs (pjoin k)) ex_ops
      (ex_proc COpen Map.empty) = Some (Ok (), s')
    \<and> List_keys (mem_deps True []) ex_rs (pjoin []) True s' = Some (Ok ks, s'') \<and> distinct ks
    \<and> set ks = pjoin ` dom (fold (abs_op (\<lambda>(now, nonce, v). v)) ex_ops Map.empty)"
  by (rule list_returns_stored_keys [OF ex.storage_instance_axioms _ _ ex_start ex_ops_ok])
     (use ex_prefixed in \<open>simp_all add: prefixed_def\<close>)

text \<open>
  C38. With the empty key prefix, which the configuration accepts, \<open>List\<close> of the root finds nothing:
  \<open>Store\<close> succeeds and the value is in the keyspace under its key, yet recursive and flat \<open>List\<close>
  return no key, because the climb of the directory records ends before the root. The hypotheses
  hold again after the call, so this goes on for every further key.
\<close>

theorem list_misses_keys_without_prefix:
  assumes "redis_server R view up closed reach" and "rapi D = R" and "KeyPrefix rs = ''''"
    and "usable_with up closed reach (sys D) rs s" and "view (world s) '''' = None"
    and "canon k" and "k \<noteq> []" and "no_file_above (view (world s)) k"
    and "storageValue D rs now rnd (pjoin k) v = Inr sd" and "sd_Marshal (js D) sd = Inr j"
  shows "\<exists>s'. Store D rs now rnd (pjoin k) v s = Some (Ok (), s') \<and> view (world s') (pjoin k) = Some (RStr j)
    \<and> usable_with up closed reach (sys D) rs s' \<and> view (world s') '''' = None
    \<and> (\<exists>s''. List_keys D rs '''' True s' = Some (Ok [], s''))
    \<and> (\<exists>s''. List_keys D rs '''' False s' = Some (Ok [], s''))"
proof -
  from redis_server.Store_root [OF assms(1,2,4,3,6-10)] obtain s' where s':
    "Store D rs now rnd (pjoin k) v s = Some (Ok (), s')" "usable_with up closed reach (sys D) rs s'"
    "view (world s') '''' = None" "view (world s') (pjoin k) = Some (RStr j)" using assms(5) by auto
  with redis_server.List_root_empty [OF assms(1,2) s'(2) assms(3) s'(3)] show ?thesis by blast
qed

definition ex_bare :: RedisStorage where
  "ex_bare = ex_rs\<lparr>KeyPrefix := ''''\<rparr>"

theorem list_misses_keys_without_prefix_witness:
  "\<exists>sd j s'. Store (mem_deps True []) ex_bare 7 (Inr ex_nonce) (pjoin [''certs'', ''a'']) ''x'' (ex_proc COpen Map.empty) = Some (Ok (), s')
    \<and> storageValue (mem_deps True []) ex_bare 7 (Inr ex_nonce) (pjoin [''certs'', ''a'']) ''x'' = Inr sd
    \<and> sd_Marshal (js (mem_deps True [])) sd = Inr j \<and> mem_db (world s') (pjoin [''certs'', ''a'']) = Some (RStr j)
    \<and> (\<exists>s''. List_keys (mem_deps True []) ex_bare '''' True s' = Some (Ok [], s''))"
proof -
  have "EncryptionKey ex_bare = '''' \<or> length (EncryptionKey ex_bare) = 32"
    by (simp add: ex_bare_def ex_rs_def New_def ex_key_def)
  then obtain sd where sd: "storageValue (mem_deps True []) ex_bare 7 (Inr ex_nonce) (pjoin [''certs'', ''a'']) ''x'' = Inr sd"
    by (rule storageValue_ex)
  obtain j where j: "sd_Marshal (js (mem_deps True [])) sd = Inr j" by (simp add: ex_json_def)
  have use: "usable_with mem_up mem_closed mem_reachable (sys (mem_deps True [])) ex_bare (ex_proc COpen Map.empty)"
    by (simp add: usable_with_def ex_bare_def ex_rs_def ex_proc_def mem_up_def mem_status_def)
  have pre: "KeyPrefix ex_bare = ''''" by (simp add: ex_bare_def)
  have "\<exists>s'. Store (mem_deps True []) ex_bare 7 (Inr ex_nonce) (pjoin [''certs'', ''a'']) ''x'' (ex_proc COpen Map.empty) = Some (Ok (), s')
      \<and> mem_db (world s') (pjoin [''certs'', ''a'']) = Some (RStr j)
      \<and> usable_with mem_up mem_closed mem_reachable (sys (mem_deps True [])) ex_bare s' \<and> mem_db (world s') '''' = None
      \<and> (\<exists>s''. List_keys (mem_deps True []) ex_bare '''' True s' = Some (Ok [], s''))
      \<and> (\<exists>s''. List_keys (mem_deps True []) ex_bare '''' False s' = Some (Ok [], s''))"
    by (rule list_misses_keys_without_prefix [OF mem.redis_server_axioms mem_deps_simps(1) pre use _ _ _ _ sd j])
       (simp_all add: ex_proc_def seg_ok_def no_file_above_def)
  with sd j show ?thesis by blast
qed

text \<open>
  C12. A key that is not stored, with no directory or lock at its place: \<open>Load\<close> fails with
  \<open>fs.ErrNotExist\<close> and \<open>Exists\<close> is false; a stored one exists.
\<close>

theorem load_missing_not_exist:
  assumes "storage_instance R view up closed reach D rs pre X L"
    and "readable_with up closed reach (sys D) rs s \<and> db_rel D rs pre X L (view (world s)) m"
    and "fits_in pre X L m k"
  shows "(m k = None \<longrightarrow> (\<exists>e s'. Load D rs None (pjoin k) s = Some (Err e, s') \<and> errors_Is e ErrNotExist))
    \<and> (\<exists>s'. Exists D rs (pjoin k) s = Some (Ok (m k \<noteq> None), s'))"
  using storage_instance.load_missing [OF assms] storage_instance.exists_iff [OF assms] by blast

theorem load_missing_not_exist_witness:
  "(\<exists>e s'. Load (mem_deps True []) ex_rs None (pjoin [''certs'', ''a'']) (ex_proc COpen Map.empty) = Some (Err e, s')
      \<and> errors_Is e ErrNotExist)
    \<and> (\<exists>s'. Exists (mem_deps True []) ex_rs (pjoin [''certs'', ''a'']) (ex_proc COpen Map.empty) = Some (Ok False, s'))"
  using load_missing_not_exist [OF ex.storage_instance_axioms ex_start, of COpen True "[''certs'', ''a'']" "[]"]
  by (simp add: fits_in_def seg_ok_def)

text \<open>
  C13. \<open>Stat\<close> after \<open>Store\<close> reports the time of the store and the size of the value before
  compression and encryption.
\<close>

theorem stat_after_store:
  assumes "storage_instance R view up closed reach D rs pre X L"
    and "readable_with up closed reach (sys D) rs s \<and> db_rel D rs pre X L (view (world s)) m"
    and "fits_in pre X L m k" and "storable_as D rs k (now, nonce, v)"
  shows "\<exists>s' s''. Store D rs now (Inr nonce) (pjoin k) v s = Some (Ok (), s')
    \<and> Stat D rs (pjoin k) s' =
        Some (Ok \<lparr>Key = pjoin k, ki_Modified = now, ki_Size = int (length v), IsTerminal = True\<rparr>, s'')"
  using storage_instance.ops_then_stat [OF assms] by (auto simp: put_key_def)

theorem stat_after_store_witness:
  "\<exists>s' s''. Store (mem_deps True []) ex_rs 7 (Inr ex_nonce) (pjoin [''a'']) ''aaaaaaa'' (ex_proc COpen Map.empty) = Some (Ok (), s')
    \<and> Stat (mem_deps True []) ex_rs (pjoin [''a'']) s' =
        Some (Ok \<lparr>Key = pjoin [''a''], ki_Modified = 7, ki_Size = int (length ''aaaaaaa''), IsTerminal = True\<rparr>, s'')"
  by (rule stat_after_store [OF ex.storage_instance_axioms ex_start])
     (simp_all add: ex_stored_example, simp add: fits_in_def seg_ok_def)

section \<open>Reconnecting\<close>

text \<open>
  C7. The retry after a closed client: when the first run fails with a closed-client error and a
  new client can be made, the operation runs once more, on a client that did not exist before;
  the counter and its metric move by one, and the one-shot client is closed at the end.
\<close>

theorem reconnect_runs_once_more:
  assumes "redis_server R view up closed reach" and "redis E = R" and "client_plan E rs = Inr (kd, opts)"
    and "op (client rs) s = Some (Err e, s1)" and "isClientClosedErr e" and "view (world s1) = view (world s)"
    and "conn_same up closed reach s s1" and "reach (world s) opts"
  shows "\<exists>c s2. withReconnectOnClosed E rs op s =
        (case op (Some c) s2 of None \<Rightarrow> None | Some (r, t) \<Rightarrow> Some (r, t\<lparr>world := api_Close R c (world t)\<rparr>))
    \<and> \<not> up (world s) c \<and> \<not> closed (world s) c \<and> up (world s2) = (up (world s))(c := True)
    \<and> view (world s2) = view (world s)
    \<and> ReconnectCount s2 = ReconnectCount s + 1 \<and> reconnectMetric s2 = Suc (reconnectMetric s)"
proof -
  obtain c s2 where "withReconnectOnClosed E rs op s = finallyP (op (Some c)) (\<lambda>t. t\<lparr>world := api_Close R c (world t)\<rparr>) s2"
    "view (world s2) = view (world s)" "\<not> up (world s) c" "\<not> closed (world s) c"
    "up (world s2) = (up (world s))(c := True)"
    "reconnectCount s2 = reconnectCount s + 1" "reconnectMetric s2 = Suc (reconnectMetric s)"
    by (rule redis_server.reconnect_retry [where op = op, OF assms])
  then show ?thesis by (intro exI [of _ c] exI [of _ s2]) (simp add: finallyP_def ReconnectCount_def)
qed

theorem reconnect_runs_once_more_witness:
  "\<exists>c s2. withReconnectOnClosed (sys (mem_deps True [])) ex_rs (call (api_Get (mem_api True []) ''k'')) (ex_proc CClosed Map.empty) =
        (case call (api_Get (mem_api True []) ''k'') (Some c) s2 of None \<Rightarrow> None
         | Some (r, t) \<Rightarrow> Some (r, t\<lparr>world := api_Close (mem_api True []) c (world t)\<rparr>))
    \<and> \<not> mem_up (world (ex_proc CClosed Map.empty)) c \<and> \<not> mem_closed (world (ex_proc CClosed Map.empty)) c
    \<and> mem_up (world s2) = (mem_up (world (ex_proc CClosed Map.empty)))(c := True)
    \<and> mem_db (world s2) = mem_db (world (ex_proc CClosed Map.empty))
    \<and> ReconnectCount s2 = ReconnectCount (ex_proc CClosed Map.empty) + 1
    \<and> reconnectMetric s2 = Suc (reconnectMetric (ex_proc CClosed Map.empty))"
  by (rule reconnect_runs_once_more
      [where op = "call (api_Get (mem_api True []) ''k'')", OF mem.redis_server_axioms _ ex_plan ex_get_closed])
     (simp_all add: ex_proc_def conn_same_def)

text \<open>
  Without a closed-client error there is no reconnect: the result and the state are those of
  the one run of the operation on the cached client.
\<close>

theorem no_reconnect_otherwise:
  assumes "op (client rs) s = Some (r, s')" and "\<forall>e. r = Err e \<longrightarrow> \<not> isClientClosedErr e"
  shows "withReconnectOnClosed E rs op s = Some (r, s')"
  using assms by (intro reconnect_passthrough) auto

theorem no_reconnect_otherwise_witness:
  "withReconnectOnClosed (sys (mem_deps True [])) ex_rs (\<lambda>c. throw (errors_New ''i/o timeout'')) (ex_proc COpen Map.empty)
     = Some (Err (errors_New ''i/o timeout''), ex_proc COpen Map.empty)"
  by (rule no_reconnect_otherwise) (simp_all add: isClientClosedErr_def HasPrefix_def)

text \<open>
  C14. When the server cannot be reached for the retry, the error wraps the original one (its
  chain is kept and it is still recognised as a closed client), nothing is counted, and every
  client that was created is closed again.
\<close>

theorem reconnect_failure_keeps_error:
  assumes "redis_server R view up closed reach" and "redis E = R" and "client_plan E rs = Inr (kd, opts)"
    and "op (client rs) s = Some (Err e, s1)" and "isClientClosedErr e"
    and "conn_same up closed reach s s1" and "\<not> reach (world s) opts"
  shows "\<exists>e' s2. withReconnectOnClosed E rs op s = Some (Err e', s2) \<and> isClientClosedErr e'
    \<and> err_chain e' = err_chain e \<and> up (world s2) = up (world s)
    \<and> ReconnectCount s2 = ReconnectCount s \<and> reconnectMetric s2 = reconnectMetric s"
proof -
  have "\<not> reach (world s1) opts" using assms(6,7) by (simp add: conn_same_def)
  from redis_server.connect_unreach [OF assms(1,2) this, of kd] obtain e2 s2 where s2:
    "connect E kd opts s1 = Some (Err e2, s2)" "up (world s2) = up (world s1)"
    "reconnectCount s2 = reconnectCount s1" "reconnectMetric s2 = reconnectMetric s1" by metis
  have "withReconnectOnClosed E rs op s = Some (Err (errorf_w (''redis storage: reconnect after closed client failed: ''
      @ err_msg e2 @ '' (original op error: '') e '')''), s2)"
    using assms(3-5) s2(1) by (simp add: withReconnectOnClosed_def buildClient_plan prog_simps)
  then show ?thesis using s2 assms(5,6) by (simp add: conn_same_def ReconnectCount_def) (simp add: errorf_w_def)
qed

theorem reconnect_failure_keeps_error_witness:
  "\<exists>e' s2. withReconnectOnClosed (sys (mem_deps True [])) ex_rs (call (api_Get (mem_api True []) ''k'')) ex_unreachable
       = Some (Err e', s2) \<and> isClientClosedErr e'
    \<and> err_chain e' = err_chain closedErr \<and> mem_up (world s2) = mem_up (world ex_unreachable)
    \<and> ReconnectCount s2 = ReconnectCount ex_unreachable \<and> reconnectMetric s2 = reconnectMetric ex_unreachable"
  by (rule reconnect_failure_keeps_error
      [where op = "call (api_Get (mem_api True []) ''k'')", OF mem.redis_server_axioms _ ex_plan ex_get_unreachable])
     (simp_all add: conn_same_def ex_unreachable_def)

text \<open>
  C15. Reading on a closed client with a client library that pairs errors with a nil slice: the nil
  check of \<open>loadStorageData\<close> comes first, so \<open>Load\<close> and \<open>Stat\<close> answer \<open>fs.ErrNotExist\<close>
  whatever is stored, and no reconnect happens.
\<close>

theorem closed_client_read_not_exist:
  assumes "redis_server R view up closed reach" and "rapi D = R" and "api_NilBytes R"
    and "client rs = Some c" and "closed (world s) c"
  shows "\<exists>s'. Load D rs obs key s = Some (Err errNotExist, s') \<and> Stat D rs key s = Some (Err errNotExist, s')
    \<and> ReconnectCount s' = ReconnectCount s"
proof -
  obtain s' where s': "call (api_Get R (prefixKey rs key)) (Some c) s = Some (Err closedErr, s')" "conn_same up closed reach s s'"
    by (rule redis_server.call_closed [OF assms(1) redis_server.Get [OF assms(1)] assms(5)])
  then have "withReconnectOnClosed (sys D) rs (\<lambda>c. loadStorageData D rs c key) s = Some (Err errNotExist, s')"
    using assms(2-4) by (intro reconnect_passthrough) (simp_all add: loadStorageData_def)
  then show ?thesis using s'(2)
    by (simp add: Load_def Stat_def prog_simps conn_same_def ReconnectCount_def)
qed

theorem closed_client_read_not_exist_witness:
  "\<exists>s'. Load (mem_deps True []) ex_rs None ''a'' (ex_proc CClosed [''caddy/a'' \<mapsto> RStr ''x'']) = Some (Err errNotExist, s')
    \<and> Stat (mem_deps True []) ex_rs ''a'' (ex_proc CClosed [''caddy/a'' \<mapsto> RStr ''x'']) = Some (Err errNotExist, s')
    \<and> ReconnectCount s' = ReconnectCount (ex_proc CClosed [''caddy/a'' \<mapsto> RStr ''x''])"
  by (rule closed_client_read_not_exist [OF mem.redis_server_axioms, of _ True "[]" _ 0])
     (simp_all add: mem_api_def ex_rs_def ex_proc_def mem_closed_def mem_status_def)

section \<open>Changing the encryption key\<close>

text \<open>
  C11. A value stored under the old key is read after the key changed, when the old key is one of
  the decryption keys and the keys before it do not authenticate the value.
\<close>

theorem load_after_key_rotation:
  assumes "storage_instance R view up closed reach D rs pre X L"
    and "readable_with up closed reach (sys D) rs s \<and> db_rel D rs pre X L (view (world s)) m"
    and "fits_in pre X L m k" and "storable_as D rs k (now, nonce, v)"
    and "EncryptionKey rs \<noteq> ''''" and "new # keys = before @ EncryptionKey rs # after"
    and "\<forall>k \<in> set before. \<forall>p. decryptWithKey (gcm D) k (sealed (gcm D) (EncryptionKey rs) nonce p) = Inl authFailure"
  shows "\<exists>s' s''. Store D rs now (Inr nonce) (pjoin k) v s = Some (Ok (), s')
    \<and> Load D (rotated rs new keys) None (pjoin k) s' = Some (Ok v, s'')"
  using storage_instance.rotation_read [OF assms] .

theorem load_after_key_rotation_witness:
  "\<exists>s' s''. Store (mem_deps True []) ex_rs 7 (Inr ex_nonce) (pjoin [''a'']) ''aaaaaaa'' (ex_proc COpen Map.empty) = Some (Ok (), s')
    \<and> Load (mem_deps True []) (rotated ex_rs ex_key2 [EncryptionKey ex_rs]) None (pjoin [''a'']) s' = Some (Ok ''aaaaaaa'', s'')"
  by (rule load_after_key_rotation
      [where before = "[ex_key2]" and after = "[]", OF ex.storage_instance_axioms ex_start])
     (simp_all add: ex_stored_example ex_key2_fails, simp_all add: fits_in_def seg_ok_def ex_rs_def ex_key_def)


section \<open>Storage, handshake and sink together\<close>

text \<open>
  C23. A mismatched pair in the storage is reported: after any operations that leave a certificate
  and a private key of different public keys under their paths, a handshake for the host that
  loads both gets both values and offers the sink exactly the candidate of the pair.
\<close>

theorem stored_mismatch_reaches_sink:
  assumes "storage_instance R view up closed reach D rs pre X L"
    and "readable_with up closed reach (sys D) rs s \<and> db_rel D rs pre X L (view (world s)) m"
    and "ops_ok (fits_in pre X L) (storable_as D rs) (\<lambda>(now, nonce, v). v) ops m"
    and "fold (abs_op (\<lambda>(now, nonce, v). v)) ops m [''certificates'', i, h, h @ ''.crt''] = Some crt"
    and "fold (abs_op (\<lambda>(now, nonce, v). v)) ops m [''certificates'', i, h, h @ ''.key''] = Some key"
    and "hc_sink hc = Some enq" and "validHealthHostname h" and "validHealthIssuer i"
    and "certificateFingerprints Lib crt h = (lf, cert)" and "privateKeyFingerprint Lib key = k"
    and "cert \<noteq> ''''" and "k \<noteq> ''''" and "cert \<noteq> k"
  shows "\<exists>s0 t s2 ob2. run_ops (put_key D rs) (\<lambda>k. Delete D rs (pjoin k)) ops s = Some (Ok (), s0)
    \<and> observedLoad D rs Lib hc (keyPath h i ''.crt'') (s0, HandshakeContext hc h None, x) = Some (Ok crt, t)
    \<and> observedLoad D rs Lib hc (keyPath h i ''.key'') t =
        Some (Ok key, s2, Some ob2, snd (enq (candidate h i (newPair\<lparr>pair_leaf := lf, pair_cert := cert, pair_key := k\<rparr>)) x))"
proof -
  let ?m = "fold (abs_op (\<lambda>(now, nonce, v). v)) ops m"
  obtain s0 where s0: "run_ops (put_key D rs) (\<lambda>k. Delete D rs (pjoin k)) ops s = Some (Ok (), s0)"
      "readable_with up closed reach (sys D) rs s0 \<and> db_rel D rs pre X L (view (world s0)) ?m"
    using storage_instance.ops_refine [OF assms(1-3)] by blast
  obtain s1 where s1: "Load D rs None (pjoin [''certificates'', i, h, h @ ''.crt'']) s0 = Some (Ok crt, s1)"
      "readable_with up closed reach (sys D) rs s1 \<and> db_rel D rs pre X L (view (world s1)) ?m"
    using storage_instance.get_refines [OF assms(1) s0(2) assms(4)] by blast
  obtain s2 where s2: "Load D rs None (pjoin [''certificates'', i, h, h @ ''.key'']) s1 = Some (Ok key, s2)"
    using storage_instance.get_refines [OF assms(1) s1(2) assms(5)] by blast
  have "snd (observeReads Lib (newCertificateObserver h) [(keyPath h i ''.crt'', crt), (keyPath h i ''.key'', key)]) =
      [candidate h i (newPair\<lparr>pair_leaf := lf, pair_cert := cert, pair_key := k\<rparr>)]"
    using observeReads_pair [of "newCertificateObserver h" i Lib crt lf cert key k "[(''.crt'', crt), (''.key'', key)]"] assms(7-13)
    by (simp add: newCertificateObserver_def)
  note offered = this
  have path: "pjoin [''certificates'', i, h, h @ ext] = keyPath h i ext" for ext by (simp add: keyPath_def)
  from observedLoad_two [OF s1(1) [unfolded path] s2 [unfolded path] assms(6) offered, of x]
  show ?thesis using s0(1) assms(6,7) by (auto simp: HandshakeContext_def)
qed


definition ex_pair_ops :: "(string list, time \<times> bytes \<times> bytes) kvop list" where
  "ex_pair_ops = [Put [''certificates'', ''le'', ex_host, ex_host @ ''.key''] (7, ex_nonce, ex_priv),
     Put [''certificates'', ''le'', ex_host, ex_host @ ''.crt''] (8, ex_nonce, ex_crt)]"

lemma ex_pair_ops_ok:
  "ops_ok (fits_in [''caddy''] {} {}) (storable_as (mem_deps nb ks) ex_rs) (\<lambda>(now, nonce, v). v) ex_pair_ops Map.empty"
  by (auto simp: ex_pair_ops_def fits_in_def files_def seg_ok_def strict_prefix_def ex_host_def intro!: ex_storable)
     (simp_all add: ex_rs_def New_def ex_key_def ex_nonce_def NonceSize_def maxDecompressedBytes_def int_min_def int_max_def
       ex_crt_def ex_priv_def)

theorem stored_mismatch_reaches_sink_witness:
  "\<exists>s0 t s2 ob2. run_ops (put_key (mem_deps True []) ex_rs) (\<lambda>k. Delete (mem_deps True []) ex_rs (pjoin k)) ex_pair_ops
      (ex_proc COpen Map.empty) = Some (Ok (), s0)
    \<and> observedLoad (mem_deps True []) ex_rs ex_lib \<lparr>hc_sink = Some record_offer\<rparr> (keyPath ex_host ''le'' ''.crt'')
        (s0, HandshakeContext \<lparr>hc_sink = Some record_offer\<rparr> ex_host None, []) = Some (Ok ex_crt, t)
    \<and> observedLoad (mem_deps True []) ex_rs ex_lib \<lparr>hc_sink = Some record_offer\<rparr> (keyPath ex_host ''le'' ''.key'') t =
        Some (Ok ex_priv, s2, Some ob2, snd (record_offer (candidate ex_host ''le'' (newPair\<lparr>pair_leaf := fingerprint ex_lib ''SNa.io'',
          pair_cert := fingerprint ex_lib ''two'', pair_key := fingerprint ex_lib ''three''\<rparr>)) []))"
  by (rule stored_mismatch_reaches_sink [OF ex.storage_instance_axioms ex_start ex_pair_ops_ok])
     (simp_all add: ex_pair_ops_def ex_names ex_fingerprints ex_fingerprints_differ)


text \<open>
  C39. Observer and reporter fit together: every candidate an observer offers passes the checks of
  the reporter, so that a running pool with nothing queued accepts it.
\<close>

theorem observed_candidates_accepted:
  assumes "\<forall>b. length (sha256 Lib b) = 32" and "observeReads Lib (newCertificateObserver h) rs = (ob, cs)" and "c \<in> set cs"
    and "zeroTime \<le> now"
  shows "validCandidate c \<and> fst (State_TryEnqueue sha False now c (State_start (newCertificateReporterState config logger)))"
proof -
  let ?s = "State_start (newCertificateReporterState config logger)"
  have "evidence Lib h (set rs) c"
    using observeReads_ok [OF observer_ok_new assms(2)] assms(3) by (simp add: newCertificateObserver_def)
  then obtain crt key where v: "validHealthHostname h" "Hostname c = h" "validHealthIssuer (IssuerKey c)"
      and f: "certificateFingerprints Lib crt h = (LeafSHA256 c, CertificateSPKISHA256 c)" "privateKeyFingerprint Lib key = KeySPKISHA256 c"
        "CertificateSPKISHA256 c \<noteq> KeySPKISHA256 c" "CertificateSPKISHA256 c \<noteq> ''''" "KeySPKISHA256 c \<noteq> ''''"
    unfolding evidence_def by blast
  have "lowerHex (LeafSHA256 c) 64 \<and> lowerHex (CertificateSPKISHA256 c) 64"
    by (rule certificateFingerprints_parts [OF f(1,4)]) (use assms(1) fingerprint_hex in auto)
  moreover have "lowerHex (KeySPKISHA256 c) 64"
    by (rule privateKeyFingerprint_parts [of Lib key]) (use f assms(1) fingerprint_hex in auto)
  ultimately have valid: "validCandidate c" using v f by (simp add: validCandidate_def)
  moreover have "fst (State_TryEnqueue sha False now c ?s)"
    using valid assms(4) by (simp add: State_TryEnqueue_def Let_def prune_def seenBefore_def State_start_def
        newCertificateReporterState_def certificateQueueCapacity_def)
  ultimately show ?thesis using valid by simp
qed

theorem observed_candidates_accepted_witness:
  "validCandidate ex_candidate
    \<and> fst (State_TryEnqueue (\<lambda>b. b) False 0 ex_candidate (State_start (newCertificateReporterState ex_config False)))"
proof (rule observed_candidates_accepted)
  show "\<forall>b. length (sha256 ex_lib b) = 32" by (simp add: ex_lib_hash)
  show "observeReads ex_lib (newCertificateObserver ex_host) ex_reads =
      (fst (observeReads ex_lib (newCertificateObserver ex_host) ex_reads), [ex_candidate])"
    using ex_offered by (metis prod.collapse)
qed (simp_all add: zeroTime_def Second_def)


section \<open>The size limit of stored values\<close>

text \<open>
  C40. What \<open>Store\<close> writes is read back by the same configuration exactly when it was not
  compressed or has at most 4 MiB before compression; \<open>Store\<close> itself accepts more, and \<open>Load\<close>
  then fails with the error of the limit.
\<close>

theorem stored_value_readable_iff:
  assumes "gcm_laws (gcm D)" and "codec_laws (zs D)" and "length nonce = NonceSize"
    and "EncryptionKey rs = '''' \<or> length (EncryptionKey rs) = 32"
    and "storageValue D rs now (Inr nonce) key val = Inr sd"
  shows "loadedValue D rs key sd =
    (if sd_Compression sd = storageCompressionNone \<or> length val \<le> maxDecompressedBytes then Inr val
     else Inl (errorf_v (''Unable to decompress value for '' @ key @ '': '')
       (errors_New (''decompressed value exceeds limit ('' @ Itoa (int maxDecompressedBytes) @ '' bytes)''))))"
proof -
  from storageValue_packed [OF assms(5,4)] obtain v where v: "packed D rs val = Some (v, sd_Compression sd)" by metis
  then have flag: "sd_Compression sd > storageCompressionNone \<longleftrightarrow> sd_Compression sd \<noteq> storageCompressionNone"
    by (auto simp: packed_def mode_flag_def flag_defs split: if_splits sum.splits)
  have own: "EncryptionKey rs = '''' \<or> length (EncryptionKey rs) = 32 \<and> reads_key (gcm D) rs (EncryptionKey rs) (Value sd)"
    using assms(4) reads_own_key by blast
  show ?thesis
    unfolding loadedValue_packed [OF assms(1,3,5) own v] using unpack_packed [OF assms(2) v] flag
    by (auto simp: decompressReader_whole)
qed

theorem stored_value_readable_iff_witness:
  "\<exists>sd. storageValue (mem_deps True []) ex_rs 7 (Inr ex_nonce) ''a'' ''aaaaaaa'' = Inr sd
    \<and> loadedValue (mem_deps True []) ex_rs ''a'' sd = Inr ''aaaaaaa''"
proof -
  have k: "EncryptionKey ex_rs = '''' \<or> length (EncryptionKey ex_rs) = 32" and n: "length ex_nonce = NonceSize"
    by (simp_all add: ex_rs_def New_def ex_key_def ex_nonce_def NonceSize_def)
  obtain sd where sd: "storageValue (mem_deps True []) ex_rs 7 (Inr ex_nonce) ''a'' ''aaaaaaa'' = Inr sd" by (rule storageValue_ex [OF k])
  moreover have "loadedValue (mem_deps True []) ex_rs ''a'' sd = Inr ''aaaaaaa''"
    using stored_value_readable_iff [OF ex.gcm ex.codec n k sd] by (simp add: maxDecompressedBytes_def)
  ultimately show ?thesis by blast
qed

end
